(* ===== verification/XvPrelude.thy ===== *)
theory XvPrelude
  imports Main "HOL-Library.Word"
begin

unbundle bit_operations_syntax

text \<open>
  The prelude of the development: the machine types of kernel/types.h, the outcome
  type of a kernel routine and its sequencing, byte-addressed physical memory with
  64-bit little-endian loads and stores, the page arithmetic of kernel/riscv.h and
  kernel/memlayout.h, and the generic lemmas the components share.
\<close>

section \<open>Machine types\<close>

type_synonym uint8 = "8 word"
type_synonym uint16 = "16 word"
type_synonym uint32 = "32 word"
type_synonym uint64 = "64 word"

text \<open>Facts that unfold the small address macros, and the frame facts of memory updates.\<close>

named_theorems riscv_defs
named_theorems mem_frame

lemma unat_lt64: "unat (x :: uint64) < 18446744073709551616"
  using unsigned_less [of x, where ?'a = nat] by simp

lemma unat_lt32: "unat (x :: uint32) < 4294967296"
  using unsigned_less [of x, where ?'a = nat] by simp

lemma unat_plus64:
  fixes a b :: uint64
  assumes "unat a + unat b < 18446744073709551616"
  shows "unat (a + b) = unat a + unat b"
  using assms by (simp add: unat_word_ariths)

lemma unat_ucast_32_64 [simp]: "unat (ucast (n :: uint32) :: uint64) = unat n"
  using unat_lt32 [of n] by (simp add: unsigned_ucast_eq take_bit_nat_eq_self)

section \<open>Outcomes of kernel routines\<close>

text \<open>
  A kernel routine returns (\<open>Ok\<close>), stops the machine in \<open>panic(s)\<close>, gives up the CPU in
  \<open>sleep(chan, lk)\<close> (\<open>Block\<close>), or has not returned within the recursion bound a definition
  carries (\<open>Diverge\<close>; only routines with an explicit bound use it).
\<close>

datatype 'a res = Ok 'a | Panic string | Block | Diverge

primrec bindr :: "'a res \<Rightarrow> ('a \<Rightarrow> 'b res) \<Rightarrow> 'b res" where
  "bindr (Ok x) f = f x"
| "bindr (Panic e) f = Panic e"
| "bindr Block f = Block"
| "bindr Diverge f = Diverge"

lemma bindr_cong [fundef_cong]:
  assumes "m1 = m2" and "\<And>y. m2 = Ok y \<Longrightarrow> f1 y = f2 y"
  shows "bindr m1 f1 = bindr m2 f2"
  using assms by (cases m1) auto

lemma bindr_Ok_iff [simp]: "bindr m f = Ok y \<longleftrightarrow> (\<exists>x. m = Ok x \<and> f x = Ok y)"
  by (cases m) auto

lemma bindr_assoc: "bindr (bindr m f) g = bindr m (\<lambda>x. bindr (f x) g)"
  by (cases m) auto

lemma bindr_case_prod_Ok:
  "bindr m (\<lambda>(a, b). f a b) = Ok y \<longleftrightarrow> (\<exists>a b. m = Ok (a, b) \<and> f a b = Ok y)"
  by (cases m) auto

lemma bindr_eq_Panic: "bindr m f = Panic e \<longleftrightarrow> m = Panic e \<or> (\<exists>x. m = Ok x \<and> f x = Panic e)"
  by (cases m) auto

text \<open>A \<open>for\<close> loop over a list of indices whose body may fail.\<close>

primrec foldM :: "('b \<Rightarrow> 's \<Rightarrow> 's res) \<Rightarrow> 'b list \<Rightarrow> 's \<Rightarrow> 's res" where
  "foldM f [] s = Ok s"
| "foldM f (x # xs) s = bindr (f x s) (foldM f xs)"

lemma foldM_append [simp]: "foldM f (xs @ ys) s = bindr (foldM f xs s) (foldM f ys)"
proof (induction xs arbitrary: s)
  case (Cons x xs)
  then show ?case
    by (cases "f x s") simp_all
qed simp

lemma foldM_keep:
  assumes "foldM f xs s = Ok s'" and "P s"
    and "\<And>x s s'. x \<in> set xs \<Longrightarrow> P s \<Longrightarrow> f x s = Ok s' \<Longrightarrow> P s'"
  shows "P s'"
  using assms
proof (induction xs arbitrary: s)
  case (Cons x xs)
  from Cons.prems(1) obtain t where t: "f x s = Ok t" "foldM f xs t = Ok s'"
    by auto
  with Cons.prems(2,3) have "P t" by auto
  with Cons.IH [OF t(2)] Cons.prems(3) show ?case by auto
qed simp

text \<open>The rule for such loops: an invariant indexed by the elements already processed.\<close>

lemma foldM_inv:
  assumes "I [] s"
    and "\<And>ys x zs s. xs = ys @ x # zs \<Longrightarrow> I ys s \<Longrightarrow> \<exists>s'. f x s = Ok s' \<and> I (ys @ [x]) s'"
  shows "\<exists>s'. foldM f xs s = Ok s' \<and> I xs s'"
proof -
  have "\<exists>s'. foldM f zs t = Ok s' \<and> I xs s'" if "xs = ys @ zs" and "I ys t" for ys zs t
    using that
  proof (induction zs arbitrary: ys t)
    case Nil
    then show ?case by simp
  next
    case (Cons z zs)
    from assms(2) [OF Cons.prems] obtain t' where t': "f z t = Ok t'" "I (ys @ [z]) t'"
      by blast
    have "xs = (ys @ [z]) @ zs"
      using Cons.prems(1) by simp
    from Cons.IH [OF this t'(2)] t'(1) show ?case by simp
  qed
  from this [of "[]" xs s] assms(1) show ?thesis by simp
qed

section \<open>Byte-addressed physical memory\<close>

type_synonym memory = "uint64 \<Rightarrow> uint8"

definition ld64 :: "memory \<Rightarrow> uint64 \<Rightarrow> uint64" where
  "ld64 m a =
     push_bit 0 (ucast (m a)) OR push_bit 8 (ucast (m (a + 1))) OR
     push_bit 16 (ucast (m (a + 2))) OR push_bit 24 (ucast (m (a + 3))) OR
     push_bit 32 (ucast (m (a + 4))) OR push_bit 40 (ucast (m (a + 5))) OR
     push_bit 48 (ucast (m (a + 6))) OR push_bit 56 (ucast (m (a + 7)))"

definition st64 :: "memory \<Rightarrow> uint64 \<Rightarrow> uint64 \<Rightarrow> memory" where
  "st64 m a v = m(a := ucast v, a + 1 := ucast (drop_bit 8 v),
     a + 2 := ucast (drop_bit 16 v), a + 3 := ucast (drop_bit 24 v),
     a + 4 := ucast (drop_bit 32 v), a + 5 := ucast (drop_bit 40 v),
     a + 6 := ucast (drop_bit 48 v), a + 7 := ucast (drop_bit 56 v))"

text \<open>The eight byte addresses a 64-bit access at \<open>a\<close> touches.\<close>

definition span8 :: "uint64 \<Rightarrow> uint64 set" where
  "span8 a = {a, a + 1, a + 2, a + 3, a + 4, a + 5, a + 6, a + 7}"

lemma join_bytes64:
  fixes v :: uint64
  shows "push_bit 0 (ucast (ucast v :: uint8)) OR
      push_bit 8 (ucast (ucast (drop_bit 8 v) :: uint8)) OR
      push_bit 16 (ucast (ucast (drop_bit 16 v) :: uint8)) OR
      push_bit 24 (ucast (ucast (drop_bit 24 v) :: uint8)) OR
      push_bit 32 (ucast (ucast (drop_bit 32 v) :: uint8)) OR
      push_bit 40 (ucast (ucast (drop_bit 40 v) :: uint8)) OR
      push_bit 48 (ucast (ucast (drop_bit 48 v) :: uint8)) OR
      push_bit 56 (ucast (ucast (drop_bit 56 v) :: uint8)) = v" (is "?w = v")
proof (rule bit_word_eqI)
  fix n :: nat
  assume "n < LENGTH(64)"
  then have "n < 64" by simp
  then consider "n < 8" | "8 \<le> n" "n < 16" | "16 \<le> n" "n < 24" | "24 \<le> n" "n < 32"
    | "32 \<le> n" "n < 40" | "40 \<le> n" "n < 48" | "48 \<le> n" "n < 56" | "56 \<le> n" "n < 64"
    by linarith
  then show "bit ?w n \<longleftrightarrow> bit v n"
    by cases (simp_all add: bit_simps less_diff_conv2)
qed

lemma ld64_st64_same [simp]: "ld64 (st64 m a v) a = v"
  using join_bytes64 [of v] by (simp add: ld64_def st64_def)

lemma ld64_cong: "(\<And>b. b \<in> span8 a \<Longrightarrow> m' b = m b) \<Longrightarrow> ld64 m' a = ld64 m a"
  by (simp add: ld64_def span8_def)

lemma st64_other: "b \<notin> span8 a \<Longrightarrow> st64 m a v b = m b"
  by (simp add: st64_def span8_def)

lemma ld64_st64_disjoint:
  "span8 a \<inter> span8 b = {} \<Longrightarrow> ld64 (st64 m a v) b = ld64 m b"
  by (rule ld64_cong) (auto intro: st64_other)

section \<open>Pages and addresses\<close>

text \<open>The constants of kernel/riscv.h and kernel/memlayout.h as they stand.\<close>

abbreviation (input) PGSIZE :: uint64 where "PGSIZE \<equiv> 4096"
abbreviation (input) MAXVA :: uint64 where "MAXVA \<equiv> 274877906944"
abbreviation (input) KERNBASE :: uint64 where "KERNBASE \<equiv> 0x80000000"
abbreviation (input) PHYSTOP :: uint64 where "PHYSTOP \<equiv> 0x88000000"
abbreviation (input) TRAMPOLINE :: uint64 where "TRAMPOLINE \<equiv> 274877902848"
abbreviation (input) TRAPFRAME :: uint64 where "TRAPFRAME \<equiv> 274877898752"

abbreviation (input) PTE_V :: uint64 where "PTE_V \<equiv> 1"
abbreviation (input) PTE_R :: uint64 where "PTE_R \<equiv> 2"
abbreviation (input) PTE_W :: uint64 where "PTE_W \<equiv> 4"
abbreviation (input) PTE_X :: uint64 where "PTE_X \<equiv> 8"
abbreviation (input) PTE_U :: uint64 where "PTE_U \<equiv> 16"

definition PGROUNDUP :: "uint64 \<Rightarrow> uint64" where
  "PGROUNDUP sz = (sz + PGSIZE - 1) AND NOT (PGSIZE - 1)"

definition PGROUNDDOWN :: "uint64 \<Rightarrow> uint64" where
  "PGROUNDDOWN a = a AND NOT (PGSIZE - 1)"

definition PA2PTE :: "uint64 \<Rightarrow> uint64" where
  "PA2PTE pa = push_bit 10 (drop_bit 12 pa)"

definition PTE2PA :: "uint64 \<Rightarrow> uint64" where
  "PTE2PA pte = push_bit 12 (drop_bit 10 pte)"

definition PTE_FLAGS :: "uint64 \<Rightarrow> uint64" where
  "PTE_FLAGS pte = pte AND 0x3FF"

definition PX :: "nat \<Rightarrow> uint64 \<Rightarrow> uint64" where
  "PX level va = drop_bit (12 + 9 * level) va AND 0x1FF"

definition MAKE_SATP :: "uint64 \<Rightarrow> uint64" where
  "MAKE_SATP pagetable = push_bit 60 8 OR drop_bit 12 pagetable"

definition KSTACK :: "uint64 \<Rightarrow> uint64" where
  "KSTACK p = TRAMPOLINE - (p + 1) * 2 * PGSIZE"

declare PGROUNDUP_def [riscv_defs] PGROUNDDOWN_def [riscv_defs] PA2PTE_def [riscv_defs]
  PTE2PA_def [riscv_defs] PTE_FLAGS_def [riscv_defs] PX_def [riscv_defs]

definition pg_aligned :: "uint64 \<Rightarrow> bool" where
  "pg_aligned a \<longleftrightarrow> a mod PGSIZE = 0"

text \<open>The bytes of the page at \<open>p\<close>.\<close>

definition page :: "uint64 \<Rightarrow> uint64 set" where
  "page p = {a. PGROUNDDOWN a = p}"

lemma mask12: "(4095 :: uint64) = mask 12"
  by (simp add: mask_eq_exp_minus_1)

lemma and_4095_eq_mod: "(a :: uint64) AND 4095 = a mod 4096"
  using word_mod_2p_is_mask [where n = 12 and x = a] by (simp add: mask_eq_exp_minus_1)

lemma unat_mod_PGSIZE: "unat (a mod PGSIZE) = unat a mod 4096"
  by (simp add: unat_mod)

lemma pg_aligned_iff: "pg_aligned a \<longleftrightarrow> unat a mod 4096 = 0"
  by (simp add: pg_aligned_def word_unat_eq_iff unat_mod_PGSIZE)

lemma PGROUNDDOWN_split: "a = PGROUNDDOWN a + a mod PGSIZE"
proof -
  have "a = (a AND NOT (mask 12)) OR (a AND mask 12)"
    by (rule bit_word_eqI) (auto simp: bit_simps)
  also have "\<dots> = (a AND NOT (mask 12)) + (a AND mask 12)"
    by (rule disjunctive_add [symmetric]) (auto simp: bit_simps)
  finally show ?thesis
    by (simp add: PGROUNDDOWN_def mask12 and_4095_eq_mod flip: mask12)
qed

lemma PGROUNDDOWN_eq_diff: "PGROUNDDOWN a = a - a mod PGSIZE"
  by (metis PGROUNDDOWN_split add_diff_cancel_right')

lemma page_diff: "a - PGROUNDDOWN a = a mod PGSIZE"
  by (metis PGROUNDDOWN_split add_diff_cancel_left')

lemma unat_page_diff: "unat (a - PGROUNDDOWN a) = unat a mod 4096"
  by (simp add: page_diff unat_mod_PGSIZE)

lemma unat_PGROUNDDOWN: "unat (PGROUNDDOWN a) = unat a - unat a mod 4096"
proof -
  have "a mod PGSIZE \<le> a"
    by (simp add: word_le_nat_alt unat_mod_PGSIZE)
  then show ?thesis
    by (simp add: PGROUNDDOWN_eq_diff unat_sub unat_mod_PGSIZE)
qed

lemma pg_aligned_PGROUNDDOWN [simp]: "pg_aligned (PGROUNDDOWN a)"
  by (simp add: pg_aligned_iff unat_PGROUNDDOWN minus_mod_eq_mult_div)

lemma PGROUNDDOWN_aligned [simp]: "pg_aligned a \<Longrightarrow> PGROUNDDOWN a = a"
  by (simp add: PGROUNDDOWN_eq_diff pg_aligned_def)

lemma PGROUNDDOWN_le: "PGROUNDDOWN a \<le> a"
  by (simp add: word_le_nat_alt unat_PGROUNDDOWN)

lemma unat_page_off:
  assumes "pg_aligned p" and "unat off < 4096"
  shows "unat (p + off) = unat p + unat off"
proof -
  from assms(1) obtain k where k: "unat p = 4096 * k"
    by (auto simp: pg_aligned_iff elim: dvdE)
  have "unat p < 2 ^ 64"
    using unat_lt64 [of p] by simp
  with k have "k < 2 ^ 52"
    by simp
  then have "4096 * k + 4096 \<le> 2 ^ 64"
    by simp
  with k assms(2) have "unat p + unat off < 2 ^ 64"
    by linarith
  then show ?thesis
    by (simp add: unat_word_ariths)
qed

lemma PGROUNDDOWN_page_off:
  assumes "pg_aligned p" and "unat off < 4096"
  shows "PGROUNDDOWN (p + off) = p"
proof -
  have "unat (PGROUNDDOWN (p + off)) = unat p"
    using assms unat_page_off [OF assms]
    by (auto simp: unat_PGROUNDDOWN pg_aligned_iff mod_add_eq elim!: dvdE)
  then show ?thesis
    by (simp add: word_unat_eq_iff)
qed

lemma PGROUNDUP_eq: "PGROUNDUP a = PGROUNDDOWN (a + 4095)"
  by (simp add: PGROUNDUP_def PGROUNDDOWN_def add.commute)

lemma pg_aligned_PGROUNDUP [simp]: "pg_aligned (PGROUNDUP a)"
  by (simp add: PGROUNDUP_eq)

lemma unat_PGROUNDUP:
  assumes "unat a + 4095 < 2 ^ 64"
  shows "unat (PGROUNDUP a) = unat a + 4095 - (unat a + 4095) mod 4096"
  using assms unat_plus64 [of a 4095] by (simp add: PGROUNDUP_eq unat_PGROUNDDOWN)

lemma pg_alignedE:
  assumes "pg_aligned x"
  obtains k where "unat x = 4096 * k"
  using assms by (auto simp: pg_aligned_iff elim: dvdE)

lemma PGROUNDDOWN_ge:
  assumes "pg_aligned a" and "unat a \<le> unat va"
  shows "unat a \<le> unat (PGROUNDDOWN va)"
proof -
  from assms(1) obtain k where k: "unat a = 4096 * k"
    by (rule pg_alignedE)
  with assms(2) have "k \<le> unat va div 4096"
    by (simp add: less_eq_div_iff_mult_less_eq mult.commute)
  then show ?thesis
    by (simp add: k unat_PGROUNDDOWN minus_mod_eq_mult_div)
qed

text \<open>No aligned address lies strictly between an aligned address and the next page.\<close>

lemma pg_aligned_le_next:
  assumes "pg_aligned x" and "pg_aligned y" and "unat x < unat y + 4096"
  shows "unat x \<le> unat y"
proof -
  from assms(1,2) obtain i j where "unat x = 4096 * i" "unat y = 4096 * j"
    by (metis pg_alignedE)
  with assms(3) show ?thesis by simp
qed

lemma pg_aligned_next:
  assumes "pg_aligned p" and "unat p + 4096 < 2 ^ 64"
  shows "unat (p + PGSIZE) = unat p + 4096" and "pg_aligned (p + PGSIZE)"
proof -
  show n: "unat (p + PGSIZE) = unat p + 4096"
    using assms(2) unat_plus64 [of p PGSIZE] by simp
  show "pg_aligned (p + PGSIZE)"
    using assms(1) n by (simp add: pg_aligned_iff)
qed

text \<open>An aligned address lies at or above \<open>a\<close> exactly when it does so of \<open>a\<close> rounded up.\<close>

lemma PGROUNDUP_le_iff:
  assumes "unat a + 4095 < 2 ^ 64" and "pg_aligned x"
  shows "PGROUNDUP a \<le> x \<longleftrightarrow> a \<le> x"
proof -
  from assms(2) obtain k where k: "unat x = 4096 * k"
    by (rule pg_alignedE)
  have up: "unat (PGROUNDUP a) = 4096 * ((unat a + 4095) div 4096)"
    using unat_PGROUNDUP [OF assms(1)] by (simp add: minus_mod_eq_mult_div)
  have "(unat a + 4095) div 4096 < Suc k \<longleftrightarrow> unat a + 4095 < Suc k * 4096"
    by (rule div_less_iff_less_mult) simp
  then show ?thesis
    unfolding word_le_nat_alt up k by auto
qed

lemma in_page_iff: "a \<in> page p \<longleftrightarrow> PGROUNDDOWN a = p"
  by (simp add: page_def)

lemma page_off_in_page:
  "pg_aligned p \<Longrightarrow> unat off < 4096 \<Longrightarrow> p + off \<in> page p"
  by (simp add: in_page_iff PGROUNDDOWN_page_off)

lemma pages_disjoint: "p \<noteq> q \<Longrightarrow> page p \<inter> page q = {}"
  by (auto simp: page_def)

text \<open>The bytes \<open>memset\<close> and \<open>memmove\<close> touch, seen as an offset below the length.\<close>

lemma page_offset_iff:
  assumes "pg_aligned p"
  shows "a \<in> page p \<longleftrightarrow> a - p < PGSIZE"
proof
  assume "a \<in> page p"
  then have "a = p + a mod PGSIZE"
    using PGROUNDDOWN_split [of a] by (simp add: in_page_iff)
  then have "a - p = a mod PGSIZE"
    by (metis add_diff_cancel_left')
  then show "a - p < PGSIZE"
    by (simp add: word_less_nat_alt unat_mod_PGSIZE)
next
  assume "a - p < PGSIZE"
  then have "unat (a - p) < 4096"
    by (simp add: word_less_nat_alt)
  with assms have "PGROUNDDOWN (p + (a - p)) = p"
    by (rule PGROUNDDOWN_page_off)
  then show "a \<in> page p"
    by (simp add: in_page_iff)
qed

text \<open>Entry \<open>i\<close> of the 512 64-bit entries of the page at \<open>p\<close>.\<close>

abbreviation entry :: "uint64 \<Rightarrow> uint64 \<Rightarrow> uint64" where
  "entry p i \<equiv> p + 8 * i"

lemma unat_entry:
  assumes "pg_aligned p" and "i < 512" and "k < 8"
  shows "unat (entry p i + k) = unat p + (8 * unat i + unat k)"
proof -
  have i: "unat i < 512" and k: "unat k < 8"
    using assms(2,3) by (simp_all add: word_less_nat_alt)
  then have *: "unat (8 * i + k) = 8 * unat i + unat k"
    by (simp add: unat_word_ariths)
  with i k have "unat (8 * i + k) < 4096"
    by linarith
  from unat_page_off [OF assms(1) this] * show ?thesis
    by (simp add: add.assoc)
qed

lemma less_8_cases:
  fixes k :: uint64
  assumes "k < 8"
  shows "k \<in> {0, 1, 2, 3, 4, 5, 6, 7}"
proof -
  from assms have "unat k < 8"
    by (simp add: word_less_nat_alt)
  then have "unat k \<in> {0, 1, 2, 3, 4, 5, 6, 7}"
    by auto
  then show ?thesis
    by (simp add: word_unat_eq_iff)
qed

lemma span8_E:
  assumes "b \<in> span8 a"
  obtains k where "k < 8" and "b = a + k"
proof -
  from assms consider "b = a + 0" | "b = a + 1" | "b = a + 2" | "b = a + 3"
    | "b = a + 4" | "b = a + 5" | "b = a + 6" | "b = a + 7"
    by (auto simp: span8_def)
  then show thesis
    using that by cases simp_all
qed

lemma entry_span_in_page:
  assumes "pg_aligned p" and "i < 512"
  shows "span8 (entry p i) \<subseteq> page p"
proof
  fix b
  assume "b \<in> span8 (entry p i)"
  then obtain k where k: "k < 8" and b: "b = p + (8 * i + k)"
    by (elim span8_E) (simp add: add.assoc)
  have "unat i < 512" and "unat k < 8"
    using assms(2) k by (simp_all add: word_less_nat_alt)
  then have "unat (8 * i + k) < 4096"
    by (simp add: unat_word_ariths)
  with assms(1) b show "b \<in> page p"
    by (simp add: page_off_in_page)
qed

lemma entry_span_disjoint:
  assumes "pg_aligned p" and "i < 512" and "j < 512" and "i \<noteq> j"
  shows "span8 (entry p i) \<inter> span8 (entry p j) = {}"
proof (rule ccontr)
  assume "\<not> ?thesis"
  then obtain b where "b \<in> span8 (entry p i)" and "b \<in> span8 (entry p j)"
    by blast
  then obtain k l where kl: "k < 8" "l < 8" and eq: "entry p i + k = entry p j + l"
    by (elim span8_E) metis
  have "unat p + (8 * unat i + unat k) = unat p + (8 * unat j + unat l)"
    using unat_entry [OF assms(1,2) kl(1)] unat_entry [OF assms(1,3) kl(2)] eq by simp
  moreover have "unat k < 8" "unat l < 8"
    using kl by (simp_all add: word_less_nat_alt)
  ultimately have "unat i = unat j"
    by linarith
  with assms(4) show False
    by (simp add: word_unat_eq_iff)
qed

lemma ld64_entry_upd_same_page [simp]:
  assumes "pg_aligned p" and "i < 512" and "j < 512" and "i \<noteq> j"
  shows "ld64 (st64 m (entry p i) v) (entry p j) = ld64 m (entry p j)"
  using entry_span_disjoint [OF assms] by (rule ld64_st64_disjoint)

lemma ld64_page_frame:
  assumes "pg_aligned p" and "i < 512" and "\<And>a. a \<in> page p \<Longrightarrow> m' a = m a"
  shows "ld64 m' (entry p i) = ld64 m (entry p i)"
  using entry_span_in_page [OF assms(1,2)] assms(3) by (intro ld64_cong) blast

lemma st64_page_frame:
  assumes "pg_aligned p" and "i < 512" and "a \<notin> page p"
  shows "st64 m (entry p i) v a = m a"
  using entry_span_in_page [OF assms(1,2)] assms(3) by (intro st64_other) blast

text \<open>A count that fits an \<open>int\<close> survives the round trip through it.\<close>

lemma scast_ucast_32_64:
  fixes x :: uint64
  assumes "unat x < 2 ^ 31"
  shows "scast (ucast x :: uint32) = x"
proof -
  let ?w = "ucast x :: uint32"
  have lt: "unat x < 4294967296"
    using assms by simp
  have "unat ?w = unat x"
    unfolding unsigned_ucast_eq using lt by (simp add: take_bit_nat_eq_self)
  then have u: "uint ?w = int (unat x)"
    by (simp only: uint_nat)
  have "unat x < 2147483648"
    using assms by simp
  then have "0 \<le> int (unat x)" "int (unat x) < 2147483648"
    by linarith+
  then have "- 2147483648 \<le> uint ?w" "uint ?w < 2147483648"
    unfolding u by linarith+
  then have "sint ?w = uint ?w"
    unfolding sint_uint by (intro signed_take_bit_int_eq_self) simp_all
  then have "sint ?w = uint x"
    using u uint_nat [of x] by (rule trans [OF trans sym])
  then show ?thesis
    by (simp add: scast_eq)
qed

section \<open>Page-table entries\<close>

lemma PX_less [simp]: "PX level va < 512"
proof -
  have "PX level va \<le> 0x1FF"
    unfolding PX_def by (rule word_and_le1)
  then show ?thesis
    by (simp add: word_le_nat_alt word_less_nat_alt)
qed

lemma pg_aligned_PTE2PA [simp]: "pg_aligned (PTE2PA pte)"
proof -
  have "PTE2PA pte AND 4095 = 0"
    by (rule bit_word_eqI) (auto simp: PTE2PA_def mask12 bit_simps)
  then show ?thesis
    by (simp add: pg_aligned_def and_4095_eq_mod)
qed

lemma PTE2PA_PA2PTE:
  assumes "pg_aligned pa" and "pa < 2 ^ 56" and "fl < 1024"
  shows "PTE2PA (PA2PTE pa OR fl) = pa"
proof (rule bit_word_eqI)
  fix n :: nat
  assume n: "n < LENGTH(64)"
  have low: "\<not> bit pa n" if "n < 12"
  proof -
    have "pa AND mask 12 = 0"
      using assms(1) by (simp add: pg_aligned_def and_4095_eq_mod flip: mask12)
    then have "\<not> bit (pa AND mask 12) n"
      by simp
    with that n show ?thesis
      by (simp add: bit_simps)
  qed
  have high: "\<not> bit pa n" if "56 \<le> n" for n
  proof -
    have "pa = take_bit 56 pa"
      using assms(2) by (simp add: take_bit_eq_mod word_unat_eq_iff unat_mod word_less_nat_alt)
    then show ?thesis
      using that by (metis bit_take_bit_iff not_le)
  qed
  have fl: "\<not> bit fl k" if "10 \<le> k" for k
  proof -
    have "fl = take_bit 10 fl"
      using assms(3) by (simp add: take_bit_eq_mod word_unat_eq_iff unat_mod word_less_nat_alt)
    then show ?thesis
      using that by (metis bit_take_bit_iff not_le)
  qed
  show "bit (PTE2PA (PA2PTE pa OR fl)) n \<longleftrightarrow> bit pa n"
    using n low high fl
    by (cases "n < 12"; cases "n < 56") (auto simp: PTE2PA_def PA2PTE_def bit_simps)
qed

lemma PTE_FLAGS_PA2PTE:
  assumes "fl < 1024"
  shows "PTE_FLAGS (PA2PTE pa OR fl) = fl"
proof (rule bit_word_eqI)
  fix n :: nat
  assume n: "n < LENGTH(64)"
  have m: "(0x3FF :: uint64) = mask 10"
    by (simp add: mask_eq_exp_minus_1)
  have "fl = take_bit 10 fl"
    using assms by (simp add: take_bit_eq_mod word_unat_eq_iff unat_mod word_less_nat_alt)
  then have "\<not> bit fl n" if "10 \<le> n"
    using that by (metis bit_take_bit_iff not_le)
  then show "bit (PTE_FLAGS (PA2PTE pa OR fl)) n \<longleftrightarrow> bit fl n"
    using n unfolding PTE_FLAGS_def m by (cases "n < 10") (auto simp: PA2PTE_def bit_simps)
qed

lemma or_less_1024:
  fixes a b :: uint64
  assumes "a < 1024" and "b < 1024"
  shows "a OR b < 1024"
proof -
  have "uint a < 2 ^ 10" "uint b < 2 ^ 10"
    using assms by (simp_all add: word_less_def)
  then have "uint a OR uint b < 2 ^ 10"
    by (intro OR_upper) simp_all
  then show ?thesis
    by (simp add: word_less_def unsigned_or_eq)
qed

lemma and_PTE_V_iff: "pte AND PTE_V \<noteq> 0 \<longleftrightarrow> bit pte 0"
  by (simp add: and_one_eq bit_0 odd_iff_mod_2_eq_one)

lemma valid_or_PTE_V [simp]: "(x OR PTE_V) AND PTE_V \<noteq> 0" "(PTE_V OR x) AND PTE_V \<noteq> 0"
  unfolding and_PTE_V_iff by (simp_all add: bit_simps)

text \<open>Three indices and a page offset determine a virtual address below \<open>MAXVA\<close>.\<close>

lemma PX_bit: "bit (PX level va) n \<longleftrightarrow> n < 9 \<and> bit va (12 + 9 * level + n)"
proof -
  have m: "(0x1FF :: uint64) = mask 9"
    by (simp add: mask_eq_exp_minus_1)
  show ?thesis
    unfolding PX_def m by (auto simp: bit_simps dest: bit_imp_le_length)
qed

lemma PX_inject:
  assumes "va < MAXVA" and "va' < MAXVA"
    and "PX 2 va = PX 2 va'" and "PX 1 va = PX 1 va'" and "PX 0 va = PX 0 va'"
  shows "PGROUNDDOWN va = PGROUNDDOWN va'"
proof (rule bit_word_eqI)
  fix n :: nat
  assume n: "n < LENGTH(64)"
  have px: "bit va (12 + 9 * l + k) \<longleftrightarrow> bit va' (12 + 9 * l + k)" if "l \<le> 2" "k < 9" for l k
  proof -
    have "PX l va = PX l va'"
      using assms(3-5) that(1) by (cases l; cases "l - 1") (auto simp: numeral_2_eq_2)
    then show ?thesis
      using PX_bit [of l va k] PX_bit [of l va' k] that(2) by simp
  qed
  have hi: "\<not> bit x n" if "x < MAXVA" "38 \<le> n" for x :: uint64
  proof -
    have "x = take_bit 38 x"
      using that(1) by (simp add: take_bit_eq_mod word_unat_eq_iff unat_mod word_less_nat_alt)
    then show ?thesis
      using that(2) by (metis bit_take_bit_iff not_le)
  qed
  consider "n < 12" | "12 \<le> n" "n < 21" | "21 \<le> n" "n < 30" | "30 \<le> n" "n < 39" | "39 \<le> n"
    by linarith
  then have "12 \<le> n \<Longrightarrow> bit va n \<longleftrightarrow> bit va' n"
  proof cases
    case 2 then show ?thesis using px [of 0 "n - 12"] by simp
  next
    case 3 then show ?thesis using px [of 1 "n - 21"] by simp
  next
    case 4 then show ?thesis using px [of 2 "n - 30"] by simp
  next
    case 5 then show ?thesis using hi assms(1,2) by simp
  qed simp
  then show "bit (PGROUNDDOWN va) n \<longleftrightarrow> bit (PGROUNDDOWN va') n"
    using n by (auto simp: PGROUNDDOWN_def mask12 bit_simps)
qed

end
