(* ===== verification/XvContracts.thy ===== *)
theory XvContracts
  imports XvPrelude
begin

text \<open>
  The contracts several components of the kernel share, each as a locale whose lemmas are
  proved once: an allocator of a finite pool (pages, disk blocks, file structures, virtio
  descriptors), and a transition system with an invariant (the lock, semaphore and pipe
  machines). The components interpret them on their own operations.
\<close>

section \<open>Allocators of a pool\<close>

text \<open>Allocate until the pool is empty or \<open>n\<close> resources are held.\<close>

primrec alloc_n :: "('s \<Rightarrow> ('r option \<times> 's) res) \<Rightarrow> nat \<Rightarrow> 's \<Rightarrow> ('r list \<times> 's) res" where
  "alloc_n al 0 s = Ok ([], s)"
| "alloc_n al (Suc n) s =
     bindr (al s) (\<lambda>(r, s1). case r of None \<Rightarrow> Ok ([], s1)
       | Some x \<Rightarrow> bindr (alloc_n al n s1) (\<lambda>(xs, s2). Ok (x # xs, s2)))"

locale allocator =
  fixes inv :: "'s \<Rightarrow> bool"
    and avail :: "'s \<Rightarrow> 'r set"
    and held :: "'s \<Rightarrow> 'r set"
    and alloc :: "'s \<Rightarrow> ('r option \<times> 's) res"
    and give_back :: "'r \<Rightarrow> 's \<Rightarrow> 's res"
  assumes alloc_none: "inv s \<Longrightarrow> avail s = {} \<Longrightarrow> alloc s = Ok (None, s)"
    and alloc_some: "inv s \<Longrightarrow> avail s \<noteq> {} \<Longrightarrow>
      \<exists>r s'. alloc s = Ok (Some r, s') \<and> r \<in> avail s \<and> inv s' \<and>
        avail s' = avail s - {r} \<and> held s' = insert r (held s)"
    and give_back_ok: "inv s \<Longrightarrow> r \<in> held s \<Longrightarrow>
      \<exists>s'. give_back r s = Ok s' \<and> inv s' \<and> avail s' = insert r (avail s) \<and>
        held s' = held s - {r}"
    and avail_held: "inv s \<Longrightarrow> avail s \<inter> held s = {}"
begin

lemma alloc_SomeE:
  assumes "inv s" and "alloc s = Ok (Some r, s')"
  shows "r \<in> avail s \<and> inv s' \<and> avail s' = avail s - {r} \<and> held s' = insert r (held s)"
proof -
  have "avail s \<noteq> {}"
    using alloc_none [OF assms(1)] assms(2) by auto
  from alloc_some [OF assms(1) this] assms(2) show ?thesis
    by auto
qed

lemma alloc_two_distinct:
  assumes "inv s" and "alloc s = Ok (Some r, s1)" and "alloc s1 = Ok (Some r', s2)"
  shows "r \<noteq> r'"
  using alloc_SomeE [OF assms(1,2)] alloc_SomeE [OF _ assms(3)] by blast

lemma alloc_n_ok:
  assumes "inv s" and "finite (avail s)"
  shows "\<exists>xs s'. alloc_n alloc n s = Ok (xs, s') \<and> inv s' \<and> distinct xs \<and>
    set xs \<subseteq> avail s \<and> avail s' = avail s - set xs \<and> held s' = held s \<union> set xs \<and>
    length xs = min n (card (avail s))"
  using assms
proof (induction n arbitrary: s)
  case 0
  then show ?case by simp
next
  case (Suc n)
  show ?case
  proof (cases "avail s = {}")
    case True
    with Suc.prems show ?thesis by (simp add: alloc_none)
  next
    case False
    from alloc_some [OF Suc.prems(1) False] obtain r s1 where
      a: "alloc s = Ok (Some r, s1)" "r \<in> avail s" "inv s1" "avail s1 = avail s - {r}"
        "held s1 = insert r (held s)"
      by blast
    from Suc.IH [OF a(3)] a(4) Suc.prems(2) obtain xs s' where
      b: "alloc_n alloc n s1 = Ok (xs, s')" "inv s'" "distinct xs" "set xs \<subseteq> avail s1"
        "avail s' = avail s1 - set xs" "held s' = held s1 \<union> set xs"
        "length xs = min n (card (avail s1))"
      by auto
    have "card (avail s) = Suc (card (avail s1))"
      unfolding a(4) using card_Suc_Diff1 [OF Suc.prems(2) a(2)] by simp
    then have "length (r # xs) = min (Suc n) (card (avail s))"
      using b(7) by simp
    moreover have "alloc_n alloc (Suc n) s = Ok (r # xs, s')"
      using a(1) b(1) by simp
    moreover have "distinct (r # xs)" "set (r # xs) \<subseteq> avail s"
      using a(2) b(3,4) unfolding a(4) by auto
    moreover have "avail s' = avail s - set (r # xs)" "held s' = held s \<union> set (r # xs)"
      unfolding b(5,6) a(4,5) by auto
    ultimately show ?thesis
      using b(2) by blast
  qed
qed

lemma give_back_alloc:
  assumes "inv s" and "r \<in> held s"
  shows "\<exists>s' r' s''. give_back r s = Ok s' \<and> alloc s' = Ok (Some r', s'')"
proof -
  from give_back_ok [OF assms] obtain s' where
    "give_back r s = Ok s'" "inv s'" "avail s' = insert r (avail s)"
    by blast
  with alloc_some [of s'] show ?thesis by blast
qed

end

section \<open>Transition systems with an invariant\<close>

inductive reachable :: "('s \<Rightarrow> bool) \<Rightarrow> ('s \<Rightarrow> 's \<Rightarrow> bool) \<Rightarrow> 's \<Rightarrow> bool"
  for init :: "'s \<Rightarrow> bool" and step :: "'s \<Rightarrow> 's \<Rightarrow> bool" where
  reach_init: "init s \<Longrightarrow> reachable init step s"
| reach_step: "reachable init step s \<Longrightarrow> step s t \<Longrightarrow> reachable init step t"

locale inv_system =
  fixes init :: "'s \<Rightarrow> bool"
    and step :: "'s \<Rightarrow> 's \<Rightarrow> bool"
    and inv :: "'s \<Rightarrow> bool"
  assumes inv_init: "init s \<Longrightarrow> inv s"
    and inv_step: "inv s \<Longrightarrow> step s t \<Longrightarrow> inv t"
begin

lemma inv_reachable: "reachable init step s \<Longrightarrow> inv s"
proof (induction rule: reachable.induct)
  case (reach_init s)
  then show ?case by (rule inv_init)
next
  case (reach_step s t)
  show ?case
    using reach_step.IH reach_step.hyps(2) by (rule inv_step)
qed

lemma inv_rtranclp: "step\<^sup>*\<^sup>* s t \<Longrightarrow> inv s \<Longrightarrow> inv t"
  by (induction rule: rtranclp_induct) (auto intro: inv_step)

end

section \<open>Bounded queues\<close>

text \<open>
  The ring buffers of the kernel (pipes, console input, UART output) count bytes read and written
  in words that wrap around and use the counts modulo the size of the buffer, which divides the
  range of the words.
\<close>

definition ring_view :: "nat \<Rightarrow> (nat \<Rightarrow> 'e) \<Rightarrow> 'l::len word \<Rightarrow> 'l word \<Rightarrow> 'e list" where
  "ring_view N d r w = map (\<lambda>i. d (unat (r + of_nat i) mod N)) [0..<unat (w - r)]"

lemma length_ring_view [simp]: "length (ring_view N d r w) = unat (w - r)"
  by (simp add: ring_view_def)

lemma unat_add_of_nat_mod:
  fixes r :: "'l::len word"
  assumes "N dvd 2 ^ LENGTH('l)"
  shows "unat (r + of_nat i) mod N = (unat r + i) mod N"
proof -
  have "unat (r + of_nat i) = (unat r + i) mod 2 ^ LENGTH('l)"
    by (simp add: unat_word_ariths unsigned_of_nat take_bit_eq_mod mod_simps)
  then show ?thesis
    using assms by (simp add: mod_mod_cancel)
qed

lemma ring_view_push:
  fixes r w :: "'l::len word"
  assumes N: "N dvd 2 ^ LENGTH('l)" and room: "unat (w - r) < N" and lt: "N < 2 ^ LENGTH('l)"
  shows "ring_view N (d(unat w mod N := x)) r (w + 1) = ring_view N d r w @ [x]"
proof -
  let ?k = "unat (w - r)"
  have e: "w + 1 - r = (w - r) + 1"
    by simp
  have len: "unat (w + 1 - r) = Suc ?k"
    unfolding e using room lt by (simp add: unat_word_ariths)
  have w: "w = r + of_nat ?k"
    by simp
  have wk: "unat w mod N = (unat r + ?k) mod N"
    by (subst w) (rule unat_add_of_nat_mod [OF N])
  have ne: "(unat r + i) mod N \<noteq> (unat r + ?k) mod N" if "i < ?k" for i
  proof
    assume "(unat r + i) mod N = (unat r + ?k) mod N"
    then have "N dvd (unat r + ?k) - (unat r + i)"
      by (metis mod_eq_dvd_iff_nat add_le_cancel_left less_imp_le_nat that)
    then have "N dvd ?k - i"
      by simp
    with that room show False
      using dvd_imp_le [of N "?k - i"] by simp
  qed
  show ?thesis
    unfolding ring_view_def len
    by (simp add: unat_add_of_nat_mod [OF N] wk ne)
qed

lemma ring_view_pop:
  fixes r w :: "'l::len word"
  assumes "r \<noteq> w"
  shows "ring_view N d r w = d (unat r mod N) # ring_view N d (r + 1) w"
proof -
  have pos: "0 < unat (w - r)"
    using assms by (simp add: unat_gt_0)
  then have len: "unat (w - r) = Suc (unat (w - (r + 1)))"
    using unat_minus_one [of "w - r"] assms by (auto simp: diff_diff_eq)
  show ?thesis
    unfolding ring_view_def len upt_rec [of 0 "Suc _"] map_Suc_upt [symmetric]
    by (simp add: add.assoc)
qed

lemma ring_view_empty: "ring_view N d r w = [] \<longleftrightarrow> r = w"
  by (auto simp: ring_view_def unat_eq_0)

text \<open>The contract: \<open>view\<close> is the sequence of elements in the queue.\<close>

datatype 'e qop = Push 'e | Pop

locale fifo =
  fixes inv :: "'s \<Rightarrow> bool"
    and view :: "'s \<Rightarrow> 'e list"
    and cap :: nat
    and push :: "'e \<Rightarrow> 's \<Rightarrow> 's"
    and pop :: "'s \<Rightarrow> 'e \<times> 's"
  assumes view_cap: "inv s \<Longrightarrow> length (view s) \<le> cap"
    and push_ok: "inv s \<Longrightarrow> length (view s) < cap \<Longrightarrow> inv (push x s) \<and> view (push x s) = view s @ [x]"
    and pop_ok: "inv s \<Longrightarrow> view s = x # xs \<Longrightarrow> fst (pop s) = x \<and> inv (snd (pop s)) \<and> view (snd (pop s)) = xs"
begin

text \<open>A run of the queue: a push into a full queue and a pop from an empty one are skipped, as the
  callers wait. The outputs are those popped, the inputs those pushed.\<close>

primrec run :: "'e qop list \<Rightarrow> 's \<Rightarrow> 'e list \<times> 'e list \<times> 's" where
  "run [] s = ([], [], s)"
| "run (c # cs) s =
     (case c of
        Push x \<Rightarrow> if length (view s) < cap
          then let (ins, outs, s') = run cs (push x s) in (x # ins, outs, s') else run cs s
      | Pop \<Rightarrow> if view s \<noteq> []
          then let (ins, outs, s') = run cs (snd (pop s)) in (ins, fst (pop s) # outs, s') else run cs s)"

lemma run_fifo:
  assumes "inv s" and "run cs s = (ins, outs, s')"
  shows "inv s' \<and> outs @ view s' = view s @ ins"
  using assms
proof (induction cs arbitrary: s ins outs s')
  case Nil
  then show ?case by simp
next
  case (Cons c cs)
  show ?case
  proof (cases c)
    case (Push x)
    show ?thesis
    proof (cases "length (view s) < cap")
      case True
      obtain i o' t where r: "run cs (push x s) = (i, o', t)"
        by (cases "run cs (push x s)") auto
      with Push True Cons.prems(2) have "ins = x # i" "outs = o'" "s' = t"
        by auto
      moreover have "inv (push x s)" "view (push x s) = view s @ [x]"
        using push_ok [OF Cons.prems(1) True] by auto
      ultimately show ?thesis
        using Cons.IH [OF _ r] by simp
    next
      case False
      with Push Cons show ?thesis by simp
    qed
  next
    case Pop
    show ?thesis
    proof (cases "view s")
      case Nil
      with Pop Cons show ?thesis by simp
    next
      case (Cons y ys)
      obtain i o' t where r: "run cs (snd (pop s)) = (i, o', t)"
        by (cases "run cs (snd (pop s))") auto
      with Pop Cons Cons.prems(2) have "ins = i" "outs = fst (pop s) # o'" "s' = t"
        by auto
      moreover have "fst (pop s) = y" "inv (snd (pop s))" "view (snd (pop s)) = ys"
        using pop_ok [OF Cons.prems(1) Cons] by auto
      ultimately show ?thesis
        using Cons.IH [OF _ r] Cons by simp
    qed
  qed
qed

lemma push_list:
  assumes "inv s" and "length (view s) + length xs \<le> cap"
  shows "inv (fold push xs s) \<and> view (fold push xs s) = view s @ xs"
  using assms
proof (induction xs arbitrary: s)
  case (Cons x xs)
  then have "inv (push x s)" "view (push x s) = view s @ [x]"
    using push_ok [of s x] by auto
  with Cons.IH [of "push x s"] Cons.prems show ?case by simp
qed simp

end

end
