(* ===== verification/XvString.thy ===== *)
theory XvString
  imports XvPrelude
begin

text \<open>
  kernel/string.c. \<open>memset\<close> and \<open>memmove\<close> act on physical memory; the routines that only
  read take a \<open>char *\<close> as the sequence of bytes it points at, and \<open>strncpy\<close> and
  \<open>safestrcpy\<close> return the new contents of the destination buffer. A \<open>uint\<close> or \<open>int\<close> length that
  is only counted down is its value. The loops are the recursions; each comes with the
  closed form the other components rewrite with.
\<close>

type_synonym cbuf = "nat \<Rightarrow> uint8"

text \<open>The buffer a pointer into memory denotes.\<close>

definition cptr :: "memory \<Rightarrow> uint64 \<Rightarrow> cbuf" where
  "cptr m p i = m (p + of_nat i)"

text \<open>The C string in the first \<open>n\<close> bytes of a buffer: the bytes before the first NUL.\<close>

definition cstr :: "cbuf \<Rightarrow> nat \<Rightarrow> uint8 list" where
  "cstr b n = takeWhile (\<lambda>c. c \<noteq> 0) (map b [0..<n])"

section \<open>memset, memmove\<close>

function memset_loop :: "memory \<Rightarrow> uint64 \<Rightarrow> uint8 \<Rightarrow> nat \<Rightarrow> nat \<Rightarrow> memory" where
  "memset_loop m dst c i n =
     (if i < n then memset_loop (m(dst + of_nat i := c)) dst c (Suc i) n else m)"
  by pat_completeness auto
termination
  by (relation "measure (\<lambda>(m, dst, c, i, n). n - i)") auto

declare memset_loop.simps [simp del]

definition memset :: "memory \<Rightarrow> uint64 \<Rightarrow> uint32 \<Rightarrow> uint32 \<Rightarrow> memory" where
  "memset m dst c n = memset_loop m dst (ucast c) 0 (unat n)"

text \<open>The two copy loops of \<open>memmove\<close>: upwards, and downwards when the regions overlap.\<close>

primrec memmove_up :: "memory \<Rightarrow> uint64 \<Rightarrow> uint64 \<Rightarrow> nat \<Rightarrow> memory" where
  "memmove_up m d s 0 = m"
| "memmove_up m d s (Suc n) = memmove_up (m(d := m s)) (d + 1) (s + 1) n"

primrec memmove_down :: "memory \<Rightarrow> uint64 \<Rightarrow> uint64 \<Rightarrow> nat \<Rightarrow> memory" where
  "memmove_down m d s 0 = m"
| "memmove_down m d s (Suc n) = memmove_down (m(d - 1 := m (s - 1))) (d - 1) (s - 1) n"

definition memmove :: "memory \<Rightarrow> uint64 \<Rightarrow> uint64 \<Rightarrow> uint32 \<Rightarrow> memory" where
  "memmove m dst src n =
     (if n = 0 then m
      else if src < dst \<and> dst < src + ucast n
        then memmove_down m (dst + ucast n) (src + ucast n) (unat n)
      else memmove_up m dst src (unat n))"

section \<open>memcmp, strncmp, strncpy, safestrcpy, strlen\<close>

fun memcmp_loop :: "cbuf \<Rightarrow> cbuf \<Rightarrow> nat \<Rightarrow> nat \<Rightarrow> int" where
  "memcmp_loop s1 s2 i 0 = 0"
| "memcmp_loop s1 s2 i (Suc n) =
     (if s1 i \<noteq> s2 i then uint (s1 i) - uint (s2 i) else memcmp_loop s1 s2 (Suc i) n)"

definition memcmp :: "cbuf \<Rightarrow> cbuf \<Rightarrow> nat \<Rightarrow> int" where
  "memcmp v1 v2 n = memcmp_loop v1 v2 0 n"

fun strncmp_loop :: "cbuf \<Rightarrow> cbuf \<Rightarrow> nat \<Rightarrow> nat \<Rightarrow> int" where
  "strncmp_loop p q i 0 = 0"
| "strncmp_loop p q i (Suc n) =
     (if p i \<noteq> 0 \<and> p i = q i then strncmp_loop p q (Suc i) n else uint (p i) - uint (q i))"

definition strncmp :: "cbuf \<Rightarrow> cbuf \<Rightarrow> nat \<Rightarrow> int" where
  "strncmp p q n = strncmp_loop p q 0 n"

text \<open>The padding loop of \<open>strncpy\<close>, then its copying loop.\<close>

primrec strncpy_pad :: "cbuf \<Rightarrow> nat \<Rightarrow> nat \<Rightarrow> cbuf" where
  "strncpy_pad s i 0 = s"
| "strncpy_pad s i (Suc n) = strncpy_pad (s(i := 0)) (Suc i) n"

primrec strncpy_loop :: "cbuf \<Rightarrow> cbuf \<Rightarrow> nat \<Rightarrow> nat \<Rightarrow> cbuf" where
  "strncpy_loop s t i 0 = s"
| "strncpy_loop s t i (Suc n) =
     (if t i \<noteq> 0 then strncpy_loop (s(i := t i)) t (Suc i) n
      else strncpy_pad (s(i := t i)) (Suc i) n)"

definition strncpy :: "cbuf \<Rightarrow> cbuf \<Rightarrow> int \<Rightarrow> cbuf" where
  "strncpy s t n = strncpy_loop s t 0 (nat n)"

text \<open>\<open>--n > 0\<close> comes before each byte, so at most \<open>n - 1\<close> bytes are copied.\<close>

primrec safestrcpy_loop :: "cbuf \<Rightarrow> cbuf \<Rightarrow> nat \<Rightarrow> nat \<Rightarrow> cbuf" where
  "safestrcpy_loop s t i 0 = s(i := 0)"
| "safestrcpy_loop s t i (Suc n) =
     (if t i \<noteq> 0 then safestrcpy_loop (s(i := t i)) t (Suc i) n
      else (s(i := t i))(Suc i := 0))"

definition safestrcpy :: "cbuf \<Rightarrow> cbuf \<Rightarrow> int \<Rightarrow> cbuf" where
  "safestrcpy s t n = (if n \<le> 0 then s else safestrcpy_loop s t 0 (nat n - 1))"

text \<open>The index is a C \<open>int\<close>: past \<open>2^31 - 1\<close> the source has no defined behaviour.\<close>

function strlen_loop :: "cbuf \<Rightarrow> nat \<Rightarrow> nat" where
  "strlen_loop s n = (if n < 2147483647 \<and> s n \<noteq> 0 then strlen_loop s (Suc n) else n)"
  by pat_completeness auto
termination
  by (relation "measure (\<lambda>(s, n). 2147483647 - n)") auto

declare strlen_loop.simps [simp del]

definition strlen :: "cbuf \<Rightarrow> nat" where
  "strlen s = strlen_loop s 0"

section \<open>Closed forms\<close>

lemma of_nat_offset_eq:
  fixes a dst :: uint64
  assumes "i < 2 ^ 64"
  shows "a = dst + of_nat i \<longleftrightarrow> unat (a - dst) = i"
proof
  assume "a = dst + of_nat i"
  with assms show "unat (a - dst) = i"
    by (simp add: unat_of_nat)
next
  assume "unat (a - dst) = i"
  then have "of_nat i = a - dst"
    by (metis of_nat_unat ucast_id)
  then show "a = dst + of_nat i"
    by simp
qed

lemma memset_loop_eq:
  "n < 2 ^ 64 \<Longrightarrow>
   memset_loop m dst c i n = (\<lambda>a. if i \<le> unat (a - dst) \<and> unat (a - dst) < n then c else m a)"
proof (induction m dst c i n rule: memset_loop.induct)
  case (1 m dst c i n)
  show ?case
  proof (cases "i < n")
    case True
    then have "memset_loop m dst c i n =
        (\<lambda>a. if Suc i \<le> unat (a - dst) \<and> unat (a - dst) < n then c
             else (m(dst + of_nat i := c)) a)"
      by (simp only: memset_loop.simps [of m dst c i n] if_True "1.IH" [OF True "1.prems"])
    with True "1.prems" show ?thesis
      by (auto simp: fun_eq_iff fun_upd_def of_nat_offset_eq)
  next
    case False
    then show ?thesis
      by (subst memset_loop.simps) (auto simp: fun_eq_iff)
  qed
qed

lemma memset_eq:
  "memset m dst c n = (\<lambda>a. if unat (a - dst) < unat n then ucast c else m a)"
  using unat_lt32 [of n] by (simp add: memset_def memset_loop_eq)

lemma memset_page:
  assumes "pg_aligned p"
  shows "memset m p c 4096 = (\<lambda>a. if a \<in> page p then ucast c else m a)"
  by (simp add: memset_eq page_offset_iff [OF assms] word_less_nat_alt)

lemma memmove_up_eq:
  assumes "unat d + n < 2 ^ 64" and "unat s + n < 2 ^ 64" and "d \<le> s \<or> unat s + n \<le> unat d"
  shows "memmove_up m d s n = (\<lambda>a. if unat (a - d) < n then m (s + (a - d)) else m a)"
  using assms
proof (induction n arbitrary: m d s)
  case 0
  then show ?case by simp
next
  case (Suc n)
  have d1: "unat (d + 1) = unat d + 1" and s1: "unat (s + 1) = unat s + 1"
    using Suc.prems by (simp_all add: unat_word_ariths)
  have "memmove_up (m(d := m s)) (d + 1) (s + 1) n =
      (\<lambda>a. if unat (a - (d + 1)) < n then (m(d := m s)) (s + 1 + (a - (d + 1)))
           else (m(d := m s)) a)"
    using Suc.prems d1 s1 by (intro Suc.IH) (auto simp: word_le_nat_alt)
  moreover have "s + 1 + (a - (d + 1)) = s + (a - d)" for a
    by simp
  ultimately have ih: "memmove_up m d s (Suc n) a =
      (if unat (a - (d + 1)) < n then (m(d := m s)) (s + (a - d)) else (m(d := m s)) a)" for a
    by (simp only: memmove_up.simps)
  have "memmove_up m d s (Suc n) a = (if unat (a - d) < Suc n then m (s + (a - d)) else m a)" for a
  proof (cases "a = d")
    case True
    have "\<not> unat (d - (d + 1)) < n"
      using Suc.prems(1) by (simp add: unsigned_minus_1_eq_mask mask_eq_exp_minus_1)
    with True show ?thesis
      by (simp add: ih del: memmove_up.simps)
  next
    case False
    then have "unat (a - d) \<noteq> 0"
      by (simp add: unat_eq_zero)
    then have a1: "unat (a - (d + 1)) = unat (a - d) - 1"
      by (metis diff_diff_add unat_0_iff unat_minus_one)
    have "s + (a - d) \<noteq> d" if "unat (a - d) < Suc n"
    proof
      assume eq: "s + (a - d) = d"
      have "unat (s + (a - d)) = unat s + unat (a - d)"
        using that Suc.prems(2) by (intro unat_plus64) simp
      then have "unat d = unat s + unat (a - d)"
        by (simp only: eq)
      with Suc.prems(3) that \<open>unat (a - d) \<noteq> 0\<close> show False
        by (auto simp: word_le_nat_alt)
    qed
    with False a1 \<open>unat (a - d) \<noteq> 0\<close> show ?thesis
      by (auto simp: ih simp del: memmove_up.simps)
  qed
  then show ?case
    by (rule ext)
qed

lemma memmove_down_eq:
  assumes "n \<le> unat d" and "n \<le> unat s" and "s \<le> d"
  shows "memmove_down m d s n =
    (\<lambda>a. if unat (a - (d - of_nat n)) < n then m (s - of_nat n + (a - (d - of_nat n))) else m a)"
  using assms
proof (induction n arbitrary: m d s)
  case 0
  then show ?case by simp
next
  case (Suc n)
  have d1: "unat (d - 1) = unat d - 1" and s1: "unat (s - 1) = unat s - 1"
    using Suc.prems by (metis Suc_le_D nat.distinct(1) unat_0 unat_minus_one)+
  let ?lo = "d - of_nat (Suc n)" and ?so = "s - of_nat (Suc n)"
  have n: "unat (of_nat (Suc n) :: uint64) = Suc n"
    using Suc.prems(1) unat_lt64 [of d] by (simp only: unat_of_nat) simp
  have lo: "d - 1 - of_nat n = ?lo" "s - 1 - of_nat n = ?so"
    by simp_all
  have "memmove_down (m(d - 1 := m (s - 1))) (d - 1) (s - 1) n =
      (\<lambda>a. if unat (a - (d - 1 - of_nat n)) < n
           then (m(d - 1 := m (s - 1))) (s - 1 - of_nat n + (a - (d - 1 - of_nat n)))
           else (m(d - 1 := m (s - 1))) a)"
    using Suc.prems d1 s1 by (intro Suc.IH) (auto simp: word_le_nat_alt)
  then have ih: "memmove_down m d s (Suc n) =
      (\<lambda>a. if unat (a - ?lo) < n then (m(d - 1 := m (s - 1))) (?so + (a - ?lo))
           else (m(d - 1 := m (s - 1))) a)"
    by (simp only: memmove_down.simps lo)
  have top: "a = d - 1 \<longleftrightarrow> unat (a - ?lo) = n" for a
  proof -
    have "d - 1 = ?lo + of_nat n" by simp
    moreover have "n < 2 ^ 64"
      using Suc.prems(1) unat_lt64 [of d] by simp
    ultimately show ?thesis
      by (metis of_nat_offset_eq)
  qed
  have src: "?so + (a - ?lo) \<noteq> d - 1" if "unat (a - ?lo) < n" for a
  proof
    assume eq: "?so + (a - ?lo) = d - 1"
    have so: "unat ?so = unat s - Suc n"
      using Suc.prems(2) n by (simp add: unat_sub word_le_nat_alt del: of_nat_Suc)
    have "unat (?so + (a - ?lo)) = unat ?so + unat (a - ?lo)"
      using that so Suc.prems(2) unat_lt64 [of s] by (intro unat_plus64) linarith
    then have "unat d - 1 = unat s - Suc n + unat (a - ?lo)"
      by (simp only: eq d1 so)
    with that Suc.prems show False
      by (auto simp: word_le_nat_alt)
  qed
  have "memmove_down m d s (Suc n) a =
      (if unat (a - ?lo) < Suc n then m (?so + (a - ?lo)) else m a)" for a
  proof (cases "a = d - 1")
    case True
    then have "unat (a - ?lo) = n" and "?so + (a - ?lo) = s - 1"
      using top [of a] by simp_all
    with True show ?thesis
      by (simp only: ih) simp
  next
    case False
    with top [of a] src [of a] show ?thesis
      by (simp only: ih) auto
  qed
  then show ?case
    by (rule ext)
qed

text \<open>
  \<open>memmove\<close> copies the source region as it was before the call, also when the regions overlap.
\<close>

lemma memmove_eq:
  assumes "unat dst + unat n < 2 ^ 64" and "unat src + unat n < 2 ^ 64"
  shows "memmove m dst src n =
    (\<lambda>a. if unat (a - dst) < unat n then m (src + (a - dst)) else m a)"
proof -
  have u: "unat (ucast n :: uint64) = unat n" and n: "of_nat (unat n) = (ucast n :: uint64)"
    by simp_all
  have s: "unat (src + ucast n) = unat src + unat n"
    and d: "unat (dst + ucast n) = unat dst + unat n"
    using assms u by (simp_all add: unat_plus64)
  consider "n = 0" | "n \<noteq> 0" "src < dst" "dst < src + ucast n"
    | "n \<noteq> 0" "\<not> (src < dst \<and> dst < src + ucast n)"
    by blast
  then show ?thesis
  proof cases
    case 1
    then show ?thesis by (simp add: memmove_def)
  next
    case 2
    have "memmove_down m (dst + ucast n) (src + ucast n) (unat n) =
        (\<lambda>a. if unat (a - dst) < unat n then m (src + (a - dst)) else m a)"
      using 2 s d by (subst memmove_down_eq)
        (simp_all add: n word_le_nat_alt word_less_nat_alt cong: if_cong)
    with 2 show ?thesis by (simp add: memmove_def)
  next
    case 3
    have "memmove_up m dst src (unat n) =
        (\<lambda>a. if unat (a - dst) < unat n then m (src + (a - dst)) else m a)"
      using 3 s assms by (intro memmove_up_eq) (auto simp: word_le_nat_alt word_less_nat_alt)
    with 3 show ?thesis by (auto simp: memmove_def)
  qed
qed

text \<open>
  Reading and writing a run of bytes; a \<open>memmove\<close> between two regions writes at the destination
  the bytes read from the source.
\<close>

definition rd_bytes :: "memory \<Rightarrow> uint64 \<Rightarrow> nat \<Rightarrow> uint8 list" where
  "rd_bytes m a n = map (\<lambda>i. m (a + of_nat i)) [0..<n]"

definition wr_bytes :: "memory \<Rightarrow> uint64 \<Rightarrow> uint8 list \<Rightarrow> memory" where
  "wr_bytes m a bs = (\<lambda>x. if unat (x - a) < length bs then bs ! unat (x - a) else m x)"

lemma length_rd_bytes [simp]: "length (rd_bytes m a n) = n"
  by (simp add: rd_bytes_def)

lemma nth_rd_bytes [simp]: "i < n \<Longrightarrow> rd_bytes m a n ! i = m (a + of_nat i)"
  by (simp add: rd_bytes_def)

lemma wr_bytes_Nil [simp]: "wr_bytes m a [] = m"
  by (simp add: wr_bytes_def)

lemma rd_wr_bytes:
  assumes "length bs < 2 ^ 64"
  shows "rd_bytes (wr_bytes m a bs) a (length bs) = bs"
  using assms by (intro nth_equalityI) (simp_all add: wr_bytes_def take_bit_nat_eq_self unsigned_of_nat)

lemma memmove_bytes:
  assumes "unat dst + unat n < 2 ^ 64" and "unat src + unat n < 2 ^ 64"
  shows "memmove m dst src n = wr_bytes m dst (rd_bytes m src (unat n))"
  by (rule ext) (simp add: memmove_eq [OF assms] wr_bytes_def)

section \<open>Comparison and copying of C strings\<close>

lemma cstr_Suc: "cstr b (Suc n) = (if b 0 = 0 then [] else b 0 # cstr (\<lambda>i. b (Suc i)) n)"
  by (simp add: cstr_def upt_conv_Cons map_Suc_upt [symmetric] comp_def del: upt_Suc)

lemma cstr_0 [simp]: "cstr b 0 = []"
  by (simp add: cstr_def)

lemma cstr_cong: "(\<And>i. i < n \<Longrightarrow> b i = b' i) \<Longrightarrow> cstr b n = cstr b' n"
  unfolding cstr_def by (metis (mono_tags, lifting) atLeastLessThan_iff map_eq_conv set_upt)

lemma cstr_length: "length (cstr b n) \<le> n"
  unfolding cstr_def by (metis diff_zero length_map length_takeWhile_le length_upt)

lemma strncmp_loop_shift:
  "strncmp_loop p q i n = strncmp_loop (\<lambda>k. p (i + k)) (\<lambda>k. q (i + k)) 0 n"
proof (induction n arbitrary: p q i)
  case 0
  then show ?case by simp
next
  case (Suc n)
  have "strncmp_loop (\<lambda>k. p (i + k)) (\<lambda>k. q (i + k)) (Suc 0) n = strncmp_loop p q (Suc i) n"
    by (subst Suc.IH, subst (2) Suc.IH) simp
  then show ?case by simp
qed

lemma strncmp_0_iff: "strncmp p q n = 0 \<longleftrightarrow> cstr p n = cstr q n"
proof (induction n arbitrary: p q)
  case 0
  then show ?case by (simp add: strncmp_def)
next
  case (Suc n)
  have "strncmp_loop p q (Suc 0) n = strncmp (\<lambda>k. p (Suc k)) (\<lambda>k. q (Suc k)) n"
    using strncmp_loop_shift [of p q "Suc 0" n] by (simp add: strncmp_def)
  then show ?case
    using Suc.IH by (auto simp: strncmp_def cstr_Suc uint_0_iff simp flip: word_uint_eq_iff)
qed

lemma memcmp_loop_0_iff:
  "memcmp_loop p q i n = 0 \<longleftrightarrow> (\<forall>k < n. p (i + k) = q (i + k))"
proof (induction n arbitrary: i)
  case 0
  then show ?case by simp
next
  case (Suc n)
  then show ?case
    by (auto simp: less_Suc_eq_0_disj simp flip: word_uint_eq_iff)
qed

lemma memcmp_0_iff: "memcmp p q n = 0 \<longleftrightarrow> (\<forall>k < n. p k = q k)"
  by (simp add: memcmp_def memcmp_loop_0_iff)

lemma strncpy_pad_eq: "strncpy_pad s i n = (\<lambda>k. if i \<le> k \<and> k < i + n then 0 else s k)"
  by (induction n arbitrary: s i) (auto simp: fun_eq_iff)

lemma strncpy_loop_outside: "k < i \<or> i + n \<le> k \<Longrightarrow> strncpy_loop s t i n k = s k"
  by (induction n arbitrary: s i) (auto simp: strncpy_pad_eq)

lemma strncpy_loop_cstr:
  "cstr (\<lambda>k. strncpy_loop s t i n (i + k)) n = cstr (\<lambda>k. t (i + k)) n"
proof (induction n arbitrary: s i)
  case 0
  then show ?case by simp
next
  case (Suc n)
  show ?case
  proof (cases "t i = 0")
    case True
    then show ?thesis by (simp add: cstr_Suc strncpy_pad_eq)
  next
    case False
    have "cstr (\<lambda>k. strncpy_loop (s(i := t i)) t (Suc i) n (Suc i + k)) n = cstr (\<lambda>k. t (Suc i + k)) n"
      by (rule Suc.IH)
    with False show ?thesis
      by (simp add: cstr_Suc strncpy_loop_outside)
  qed
qed

lemma cstr_strncpy: "cstr (strncpy s t (int n)) n = cstr t n"
  using strncpy_loop_cstr [of s t 0 n] by (simp add: strncpy_def)

lemma strncpy_outside: "n \<le> k \<Longrightarrow> strncpy s t (int n) k = s k"
  by (simp add: strncpy_def strncpy_loop_outside)

lemma safestrcpy_loop_outside:
  "k < i \<or> i + n < k \<Longrightarrow> safestrcpy_loop s t i n k = s k"
  by (induction n arbitrary: s i) auto

lemma safestrcpy_loop_cstr:
  "cstr (\<lambda>k. safestrcpy_loop s t i n (i + k)) (Suc n) = cstr (\<lambda>k. t (i + k)) n"
proof (induction n arbitrary: s i)
  case 0
  then show ?case by (simp add: cstr_Suc)
next
  case (Suc n)
  show ?case
  proof (cases "t i = 0")
    case True
    then show ?thesis by (simp add: cstr_Suc)
  next
    case False
    have "cstr (\<lambda>k. safestrcpy_loop (s(i := t i)) t (Suc i) n (Suc i + k)) (Suc n) =
        cstr (\<lambda>k. t (Suc i + k)) n"
      by (rule Suc.IH)
    with False show ?thesis
      by (simp add: cstr_Suc [of _ "Suc n"] cstr_Suc [of _ n for n] safestrcpy_loop_outside)
  qed
qed

end
