(* ===== verification/XvKalloc.thy ===== *)
theory XvKalloc
  imports XvContracts XvString
begin

text \<open>
  kernel/kalloc.c: the physical page allocator with per-page reference counts. The free
  list is threaded through the free pages themselves (\<open>struct run\<close>), so \<open>kfree\<close> and \<open>kalloc\<close>
  store and load the \<open>next\<close> pointers in physical memory. \<open>kend\<close> is the linker symbol \<open>end\<close>. The
  critical sections of \<open>kmem.lock\<close> and \<open>refcount_lock\<close> are the single steps of the model.
\<close>

section \<open>State and operations\<close>

record kmem_state =
  phys :: memory
  kend :: uint64
  freelist :: uint64
  refcount :: "nat \<Rightarrow> int"

abbreviation (input) MAXPAGES :: int where "MAXPAGES \<equiv> 557056"

definition pa2pageindex :: "uint64 \<Rightarrow> nat res" where
  "pa2pageindex pa =
     (let idx = sint (ucast (drop_bit 12 pa) :: uint32)
      in if idx < 0 \<or> MAXPAGES \<le> idx then Panic ''pa2pageindex: out of range'' else Ok (nat idx))"

definition incref :: "uint64 \<Rightarrow> 'a kmem_state_scheme \<Rightarrow> 'a kmem_state_scheme res" where
  "incref pa s =
     bindr (pa2pageindex pa) (\<lambda>idx. Ok (s\<lparr>refcount := (refcount s)(idx := refcount s idx + 1)\<rparr>))"

definition decref :: "uint64 \<Rightarrow> 'a kmem_state_scheme \<Rightarrow> 'a kmem_state_scheme res" where
  "decref pa s =
     bindr (pa2pageindex pa) (\<lambda>idx.
       if refcount s idx < 0 then Panic ''decref: refcount underflow''
       else Ok (s\<lparr>refcount := (refcount s)(idx := refcount s idx - 1)\<rparr>))"

definition getref :: "uint64 \<Rightarrow> 'a kmem_state_scheme \<Rightarrow> int res" where
  "getref pa s = bindr (pa2pageindex pa) (\<lambda>idx. Ok (refcount s idx))"

definition kfree :: "uint64 \<Rightarrow> 'a kmem_state_scheme \<Rightarrow> 'a kmem_state_scheme res" where
  "kfree pa s =
     (if pa mod PGSIZE \<noteq> 0 \<or> pa < kend s \<or> PHYSTOP \<le> pa then Panic ''kfree''
      else bindr (decref pa s) (\<lambda>s1. bindr (getref pa s1) (\<lambda>rc.
        if 0 < rc then Ok s1
        else Ok (s1\<lparr>phys := st64 (memset (phys s1) pa 1 4096) pa (freelist s1),
                    freelist := pa\<rparr>))))"

definition kalloc :: "'a kmem_state_scheme \<Rightarrow> (uint64 \<times> 'a kmem_state_scheme) res" where
  "kalloc s =
     (let r = freelist s;
          s1 = (if r \<noteq> 0 then s\<lparr>freelist := ld64 (phys s) r\<rparr> else s)
      in if r \<noteq> 0
         then bindr (incref r (s1\<lparr>phys := memset (phys s1) r 5 4096\<rparr>)) (\<lambda>s2. Ok (r, s2))
         else Ok (r, s1))"

text \<open>The loop condition is on pointers, which do not wrap: it is read on the address values.\<close>

function freerange_loop ::
  "uint64 \<Rightarrow> uint64 \<Rightarrow> 'a kmem_state_scheme \<Rightarrow> 'a kmem_state_scheme res" where
  "freerange_loop p pa_end s =
     (if unat p + 4096 \<le> unat pa_end
      then bindr (kfree p s) (\<lambda>s1. freerange_loop (p + PGSIZE) pa_end s1)
      else Ok s)"
  by pat_completeness auto
termination
proof (relation "measure (\<lambda>(p, pa_end, s). unat pa_end - unat p)", goal_cases)
  case 1
  show ?case by simp
next
  case (2 p pa_end s s1)
  then have "unat (p + PGSIZE) = unat p + 4096"
    using unat_lt64 [of pa_end] unat_plus64 [of p PGSIZE] by simp
  with 2 show ?case by simp
qed

declare freerange_loop.simps [simp del]

definition freerange :: "uint64 \<Rightarrow> uint64 \<Rightarrow> 'a kmem_state_scheme \<Rightarrow> 'a kmem_state_scheme res" where
  "freerange pa_start pa_end s = freerange_loop (PGROUNDUP pa_start) pa_end s"

definition kinit :: "'a kmem_state_scheme \<Rightarrow> 'a kmem_state_scheme res" where
  "kinit s =
     freerange (kend s) PHYSTOP
       (s\<lparr>refcount := (\<lambda>i. if int i < MAXPAGES then 1 else refcount s i)\<rparr>)"

section \<open>The invariant\<close>

text \<open>\<open>flist m h xs\<close>: following \<open>next\<close> pointers from \<open>h\<close> visits exactly \<open>xs\<close>.\<close>

primrec flist :: "memory \<Rightarrow> uint64 \<Rightarrow> uint64 list \<Rightarrow> bool" where
  "flist m h [] \<longleftrightarrow> h = 0"
| "flist m h (x # xs) \<longleftrightarrow> h = x \<and> x \<noteq> 0 \<and> flist m (ld64 m x) xs"

definition page_ok :: "'a kmem_state_scheme \<Rightarrow> uint64 \<Rightarrow> bool" where
  "page_ok s x \<longleftrightarrow> pg_aligned x \<and> kend s \<le> x \<and> x < PHYSTOP"

definition pageidx :: "uint64 \<Rightarrow> nat" where
  "pageidx x = unat x div 4096"

definition free_pages :: "'a kmem_state_scheme \<Rightarrow> uint64 set" where
  "free_pages s = {x. page_ok s x \<and> refcount s (pageidx x) = 0}"

text \<open>A page in use by exactly one owner: what every caller of \<open>kalloc\<close> holds.\<close>

definition owned_pages :: "'a kmem_state_scheme \<Rightarrow> uint64 set" where
  "owned_pages s = {x. page_ok s x \<and> refcount s (pageidx x) = 1}"

definition kmem_wf :: "'a kmem_state_scheme \<Rightarrow> bool" where
  "kmem_wf s \<longleftrightarrow> 0 < kend s \<and>
     (\<exists>xs. flist (phys s) (freelist s) xs \<and> distinct xs \<and> set xs = free_pages s)"

section \<open>Reference counts\<close>

lemma pa2pageindex_ok:
  assumes "pa < PHYSTOP"
  shows "pa2pageindex pa = Ok (pageidx pa)"
proof -
  let ?w = "ucast (drop_bit 12 pa) :: uint32"
  have lt: "unat pa div 4096 < 557056"
    using assms by (simp add: word_less_nat_alt)
  have u: "unat ?w = unat pa div 4096"
    using lt by (simp add: unsigned_ucast_eq drop_bit_eq_div unat_div take_bit_nat_eq_self)
  then have "uint ?w = int (unat pa div 4096)"
    by (simp add: uint_nat)
  moreover have "sint ?w = uint ?w"
    using lt calculation by (simp add: sint_uint signed_take_bit_int_eq_self)
  ultimately show ?thesis
    using lt by (simp add: pa2pageindex_def pageidx_def Let_def)
qed

lemma pageidx_inj:
  assumes "pg_aligned a" and "pg_aligned b" and "pageidx a = pageidx b"
  shows "a = b"
proof -
  have "unat a = unat b"
    using assms by (metis mult_div_mod_eq pageidx_def pg_aligned_iff)
  then show ?thesis
    by (simp add: word_unat_eq_iff)
qed

lemma page_okD:
  assumes "page_ok s x"
  shows "pg_aligned x" and "x < PHYSTOP" and "kend s \<le> x" and "pa2pageindex x = Ok (pageidx x)"
  using assms by (simp_all add: page_ok_def pa2pageindex_ok)

section \<open>The free list in memory\<close>

lemma flist_unique: "flist m h xs \<Longrightarrow> flist m h ys \<Longrightarrow> xs = ys"
  by (induction xs arbitrary: h ys; case_tac ys) auto

lemma ld64_head:
  assumes "pg_aligned x" and "\<And>a. a \<in> page x \<Longrightarrow> m' a = m a"
  shows "ld64 m' x = ld64 m x"
  using ld64_page_frame [of x 0 m' m] assms by simp

lemma flist_frame:
  assumes "\<And>x. x \<in> set xs \<Longrightarrow> pg_aligned x"
    and "\<And>x a. x \<in> set xs \<Longrightarrow> a \<in> page x \<Longrightarrow> m' a = m a"
  shows "flist m' h xs \<longleftrightarrow> flist m h xs"
  using assms
proof (induction xs arbitrary: h)
  case Nil
  then show ?case by simp
next
  case (Cons x xs)
  have "ld64 m' x = ld64 m x"
    using Cons.prems by (intro ld64_head) auto
  moreover have "flist m' h xs \<longleftrightarrow> flist m h xs" for h
    using Cons.prems by (intro Cons.IH) auto
  ultimately show ?case by simp
qed

lemma kmem_wfE:
  assumes "kmem_wf s"
  obtains xs where "0 < kend s" "flist (phys s) (freelist s) xs" "distinct xs"
    "set xs = free_pages s" "\<And>x. x \<in> set xs \<Longrightarrow> page_ok s x"
proof -
  from assms obtain xs where "0 < kend s" "flist (phys s) (freelist s) xs" "distinct xs"
    "set xs = free_pages s"
    by (auto simp: kmem_wf_def)
  then show thesis
    by (intro that) (auto simp: free_pages_def)
qed

lemma finite_free_pages: "kmem_wf s \<Longrightarrow> finite (free_pages s)"
  by (metis List.finite_set kmem_wf_def)

lemma page_ok_nonzero: "kmem_wf s \<Longrightarrow> page_ok s x \<Longrightarrow> x \<noteq> 0"
  by (auto simp: kmem_wf_def page_ok_def)

text \<open>The invariant only looks at the allocator's fields and at the free pages' contents.\<close>

lemma kmem_wf_frame:
  assumes "kmem_wf s" and "kend s' = kend s" and "freelist s' = freelist s"
    and "refcount s' = refcount s"
    and "\<And>x a. x \<in> free_pages s \<Longrightarrow> a \<in> page x \<Longrightarrow> phys s' a = phys s a"
  shows "kmem_wf s'"
proof -
  from assms(1) obtain xs where xs: "0 < kend s" "flist (phys s) (freelist s) xs" "distinct xs"
    "set xs = free_pages s" "\<And>x. x \<in> set xs \<Longrightarrow> page_ok s x"
    by (rule kmem_wfE) blast
  have "flist (phys s') (freelist s) xs \<longleftrightarrow> flist (phys s) (freelist s) xs"
    using xs assms(5) by (intro flist_frame) (auto dest: page_okD)
  moreover have "free_pages s' = free_pages s"
    using assms(2,4) by (simp add: free_pages_def page_ok_def)
  ultimately show ?thesis
    unfolding kmem_wf_def using xs assms(2,3) by auto
qed

section \<open>What the operations do\<close>

text \<open>Zero is the null pointer: the pool is empty.\<close>

lemma kalloc_empty:
  assumes "kmem_wf s" and "free_pages s = {}"
  shows "kalloc s = Ok (0, s)"
proof -
  from assms have "freelist s = 0"
    by (auto elim: kmem_wfE)
  then show ?thesis
    by (simp add: kalloc_def)
qed

lemma kalloc_nonempty:
  assumes "kmem_wf s" and "free_pages s \<noteq> {}"
  defines "p \<equiv> freelist s"
  shows "p \<in> free_pages s \<and> p \<noteq> 0 \<and>
    kalloc s = Ok (p, s\<lparr>freelist := ld64 (phys s) p,
      phys := (\<lambda>a. if a \<in> page p then 5 else phys s a),
      refcount := (refcount s)(pageidx p := 1)\<rparr>) \<and>
    kmem_wf (s\<lparr>freelist := ld64 (phys s) p,
      phys := (\<lambda>a. if a \<in> page p then 5 else phys s a),
      refcount := (refcount s)(pageidx p := 1)\<rparr>)"
proof -
  from assms(1) obtain ys where ys: "0 < kend s" "flist (phys s) (freelist s) ys" "distinct ys"
    "set ys = free_pages s" "\<And>x. x \<in> set ys \<Longrightarrow> page_ok s x"
    by (rule kmem_wfE) blast
  with assms(2) obtain xs where xs: "ys = p # xs" "p \<noteq> 0" "flist (phys s) (ld64 (phys s) p) xs"
    by (cases ys) (auto simp: p_def)
  let ?s = "s\<lparr>freelist := ld64 (phys s) p, phys := (\<lambda>a. if a \<in> page p then 5 else phys s a),
      refcount := (refcount s)(pageidx p := 1)\<rparr>"
  have p: "page_ok s p" "refcount s (pageidx p) = 0" "p \<in> free_pages s"
    using ys xs by (auto simp: free_pages_def)
  have fp: "free_pages ?s = free_pages s - {p}"
  proof -
    have "x \<in> free_pages ?s \<longleftrightarrow> x \<in> free_pages s - {p}" for x
      using p pageidx_inj [of x p] by (auto simp: free_pages_def page_ok_def)
    then show ?thesis by blast
  qed
  have al: "pg_aligned x" if "x \<in> set xs" for x
    using that ys(5) xs(1) by (auto dest: page_okD)
  have "flist (phys ?s) (freelist ?s) xs"
  proof -
    have "flist (phys ?s) (ld64 (phys s) p) xs \<longleftrightarrow> flist (phys s) (ld64 (phys s) p) xs"
      using al ys(3) xs(1) pages_disjoint by (intro flist_frame) (auto simp: in_page_iff)
    with xs show ?thesis by simp
  qed
  moreover have "set xs = free_pages ?s" "distinct xs"
    using ys(3,4) xs(1) fp by auto
  ultimately have "kmem_wf ?s"
    using ys(1) by (auto simp: kmem_wf_def)
  moreover have "kalloc s = Ok (p, ?s)"
    using p xs(2) page_okD [OF p(1)]
    by (simp add: kalloc_def incref_def memset_page Let_def flip: p_def cong: if_cong)
  ultimately show ?thesis
    using p xs(2) by blast
qed

lemma kfree_bad:
  "pa mod PGSIZE \<noteq> 0 \<or> pa < kend s \<or> PHYSTOP \<le> pa \<Longrightarrow> kfree pa s = Panic ''kfree''"
  by (simp add: kfree_def)

lemma kfree_shared:
  assumes "page_ok s p" and "1 < refcount s (pageidx p)"
  shows "kfree p s = Ok (s\<lparr>refcount := (refcount s)(pageidx p := refcount s (pageidx p) - 1)\<rparr>)"
  using assms page_okD [OF assms(1)]
  by (simp add: kfree_def decref_def getref_def pg_aligned_def not_less not_le)

lemma kfree_last:
  assumes "page_ok s p" and "refcount s (pageidx p) = 0 \<or> refcount s (pageidx p) = 1"
  shows "kfree p s = Ok (s\<lparr>phys := st64 (\<lambda>a. if a \<in> page p then 1 else phys s a) p (freelist s),
    freelist := p, refcount := (refcount s)(pageidx p := refcount s (pageidx p) - 1)\<rparr>)"
  using assms page_okD [OF assms(1)]
  by (auto simp: kfree_def decref_def getref_def pg_aligned_def not_less not_le memset_page
      cong: if_cong)

lemma kfree_owned:
  assumes "kmem_wf s" and "p \<in> owned_pages s"
  shows "\<exists>s'. kfree p s = Ok s' \<and> kmem_wf s' \<and> free_pages s' = insert p (free_pages s) \<and>
    owned_pages s' = owned_pages s - {p} \<and> kend s' = kend s \<and>
    kmem_state.more s' = kmem_state.more s \<and> (\<forall>a. a \<notin> page p \<longrightarrow> phys s' a = phys s a)"
proof -
  from assms(1) obtain xs where xs: "0 < kend s" "flist (phys s) (freelist s) xs" "distinct xs"
    "set xs = free_pages s" "\<And>x. x \<in> set xs \<Longrightarrow> page_ok s x"
    by (rule kmem_wfE) blast
  have p: "page_ok s p" "refcount s (pageidx p) = 1" "pg_aligned p"
    using assms(2) by (auto simp: owned_pages_def page_ok_def)
  define m where "m = st64 (\<lambda>a. if a \<in> page p then 1 else phys s a) p (freelist s)"
  let ?s = "s\<lparr>phys := m, freelist := p, refcount := (refcount s)(pageidx p := 0)\<rparr>"
  have ok: "kfree p s = Ok ?s"
    using kfree_last [OF p(1)] p(2) by (simp add: m_def)
  have frame: "m a = phys s a" if "a \<notin> page p" for a
    using that st64_page_frame [OF p(3), of 0 a] by (simp add: m_def)
  have idx: "pageidx x = pageidx p \<longleftrightarrow> x = p" if "page_ok s x" for x
    using that p pageidx_inj page_okD(1) by blast
  have fp: "free_pages ?s = insert p (free_pages s)"
    using p idx by (auto simp: free_pages_def page_ok_def)
  have op: "owned_pages ?s = owned_pages s - {p}"
    using p idx by (auto simp: owned_pages_def page_ok_def)
  have notin: "p \<notin> set xs"
    using xs(4) p(2) by (auto simp: free_pages_def)
  have "flist m (freelist s) xs \<longleftrightarrow> flist (phys s) (freelist s) xs"
    using xs(5) notin frame by (intro flist_frame) (blast dest: page_okD, metis in_page_iff)
  moreover have "ld64 m p = freelist s"
    by (simp add: m_def)
  moreover have "p \<noteq> 0"
    using page_ok_nonzero assms(1) p(1) by blast
  ultimately have "flist (phys ?s) (freelist ?s) (p # xs)"
    using xs(2) by simp
  moreover have "distinct (p # xs)" "set (p # xs) = free_pages ?s"
    using xs(3,4) notin fp by auto
  ultimately have "kmem_wf ?s"
    unfolding kmem_wf_def using xs(1) by (intro conjI exI [of _ "p # xs"]) simp_all
  with ok fp op frame show ?thesis
    by auto
qed

lemma kalloc_wf:
  assumes "kmem_wf s" and "kalloc s = Ok (p, s')"
  shows "kmem_wf s'" and "kend s' = kend s" and "kmem_state.more s' = kmem_state.more s"
    and "p \<noteq> 0 \<Longrightarrow> p \<in> free_pages s" and "p = 0 \<Longrightarrow> s' = s"
    and "p \<noteq> 0 \<Longrightarrow> free_pages s' = free_pages s - {p}"
    and "p \<noteq> 0 \<Longrightarrow> owned_pages s' = insert p (owned_pages s)"
    and "phys s' = (\<lambda>a. if p \<noteq> 0 \<and> a \<in> page p then 5 else phys s a)"
proof -
  show "kmem_wf s'" "kend s' = kend s" "kmem_state.more s' = kmem_state.more s"
    "p \<noteq> 0 \<Longrightarrow> p \<in> free_pages s" "p = 0 \<Longrightarrow> s' = s"
    "phys s' = (\<lambda>a. if p \<noteq> 0 \<and> a \<in> page p then 5 else phys s a)"
    using assms kalloc_empty [OF assms(1)] kalloc_nonempty [OF assms(1)]
    by (cases "free_pages s = {}"; auto)+
  show "free_pages s' = free_pages s - {p}" "owned_pages s' = insert p (owned_pages s)" if "p \<noteq> 0"
  proof -
    have ne: "free_pages s \<noteq> {}"
      using that assms kalloc_empty [OF assms(1)] by auto
    from kalloc_nonempty [OF assms(1) ne] assms(2)
    have p: "p \<in> free_pages s" and s': "kend s' = kend s"
        "refcount s' = (refcount s)(pageidx p := 1)"
      by auto
    have idx: "pageidx x = pageidx p \<longleftrightarrow> x = p" if "page_ok s x" for x
      using that p pageidx_inj page_okD(1) unfolding free_pages_def by blast
    show "free_pages s' = free_pages s - {p}"
      using p s' idx by (auto simp: free_pages_def page_ok_def)
    show "owned_pages s' = insert p (owned_pages s)"
      using p s' idx by (auto simp: owned_pages_def free_pages_def page_ok_def)
  qed
qed

section \<open>Start-up\<close>

lemma freerange_loop_ok:
  assumes "kmem_wf s" and "pg_aligned p" and "kend s \<le> p"
    and "free_pages s = {x. page_ok s x \<and> x < p}"
    and "\<And>x. page_ok s x \<Longrightarrow> p \<le> x \<Longrightarrow> refcount s (pageidx x) = 1"
  shows "\<exists>s'. freerange_loop p PHYSTOP s = Ok s' \<and> kmem_wf s' \<and> kend s' = kend s \<and>
    free_pages s' = {x. page_ok s x}"
  using assms
proof (induction p "PHYSTOP" s rule: freerange_loop.induct)
  case (1 p s)
  show ?case
  proof (cases "unat p + 4096 \<le> unat PHYSTOP")
    case False
    have "unat PHYSTOP \<le> unat p"
      using pg_aligned_le_next [of PHYSTOP p] False "1.prems"(2) by (simp add: pg_aligned_iff)
    then have "x < p" if "page_ok s x" for x
      using that by (simp add: page_ok_def word_less_nat_alt)
    then have "free_pages s = {x. page_ok s x}"
      using "1.prems"(4) by auto
    with False "1.prems"(1) show ?thesis
      by (simp add: freerange_loop.simps [of p])
  next
    case True
    have p: "page_ok s p"
      using "1.prems"(2,3) True by (auto simp: page_ok_def word_less_nat_alt)
    then have "p \<in> owned_pages s"
      using "1.prems"(5) by (auto simp: owned_pages_def)
    from kfree_owned [OF "1.prems"(1) this] obtain s1 where s1: "kfree p s = Ok s1" "kmem_wf s1"
      "free_pages s1 = insert p (free_pages s)" "owned_pages s1 = owned_pages s - {p}"
      "kend s1 = kend s"
      by blast
    have np: "unat (p + PGSIZE) = unat p + 4096" and al: "pg_aligned (p + PGSIZE)"
      using pg_aligned_next [OF "1.prems"(2)] True by auto
    have next_page: "x < p + PGSIZE \<longleftrightarrow> x < p \<or> x = p" if "pg_aligned x" for x
      using pg_aligned_le_next [OF that "1.prems"(2)] np
      unfolding word_less_nat_alt word_unat_eq_iff by auto
    have ok: "page_ok s1 x = page_ok s x" for x
      using s1(5) by (simp add: page_ok_def)
    have fr: "free_pages s1 = {x. page_ok s1 x \<and> x < p + PGSIZE}"
      using p "1.prems"(4) next_page unfolding s1(3) ok by (auto simp: page_ok_def)
    have rc: "refcount s1 (pageidx x) = 1" if "page_ok s1 x" "p + PGSIZE \<le> x" for x
    proof -
      have "x \<noteq> p" "p \<le> x"
        using that(2) np unfolding word_le_nat_alt by auto
      with that(1) "1.prems"(5) have "x \<in> owned_pages s - {p}"
        by (auto simp: owned_pages_def ok)
      then show ?thesis
        unfolding s1(4) [symmetric] by (simp add: owned_pages_def)
    qed
    have "kend s1 \<le> p + PGSIZE"
      using "1.prems"(3) np s1(5) by (simp add: word_le_nat_alt)
    from "1.hyps" [OF True s1(1,2) al this fr rc] obtain s' where
      "freerange_loop (p + PGSIZE) PHYSTOP s1 = Ok s'" "kmem_wf s'" "kend s' = kend s1"
      "free_pages s' = {x. page_ok s1 x}"
      by blast
    with True s1(1,5) show ?thesis
      by (simp add: freerange_loop.simps [of p] ok)
  qed
qed

lemma kinit_ok:
  assumes "freelist s = 0" and "0 < kend s" and "kend s \<le> PHYSTOP"
  shows "\<exists>s'. kinit s = Ok s' \<and> kmem_wf s' \<and> kend s' = kend s \<and>
    free_pages s' = {x. page_ok s x}"
proof -
  let ?s = "s\<lparr>refcount := (\<lambda>i. if int i < MAXPAGES then 1 else refcount s i)\<rparr>"
  have rc: "refcount ?s (pageidx x) = 1" if "page_ok ?s x" for x
    using that by (auto simp: page_ok_def pageidx_def word_less_nat_alt)
  then have none: "free_pages ?s = {}"
    by (fastforce simp: free_pages_def)
  have wf: "kmem_wf ?s"
    unfolding kmem_wf_def none using assms(1,2) by (intro conjI exI [of _ "[]"]) simp_all
  have b: "unat (kend s) + 4095 < 2 ^ 64"
    using assms(3) by (simp add: word_le_nat_alt)
  have up: "PGROUNDUP (kend s) \<le> x \<longleftrightarrow> kend s \<le> x" if "pg_aligned x" for x
    by (rule PGROUNDUP_le_iff [OF b that])
  have "free_pages ?s = {x. page_ok ?s x \<and> x < PGROUNDUP (kend ?s)}"
    using up unfolding none by (auto simp: page_ok_def not_less)
  moreover have "kend ?s \<le> PGROUNDUP (kend ?s)"
    using up [of "PGROUNDUP (kend s)"] by simp
  ultimately have "\<exists>s'. freerange_loop (PGROUNDUP (kend ?s)) PHYSTOP ?s = Ok s' \<and> kmem_wf s' \<and>
      kend s' = kend ?s \<and> free_pages s' = {x. page_ok ?s x}"
    using wf rc by (intro freerange_loop_ok) simp_all
  then show ?thesis
    by (simp add: kinit_def freerange_def page_ok_def)
qed

section \<open>The allocator contract\<close>

text \<open>\<open>kalloc\<close> with the null pointer read as \<open>None\<close>.\<close>

definition kalloc_opt :: "'a kmem_state_scheme \<Rightarrow> (uint64 option \<times> 'a kmem_state_scheme) res" where
  "kalloc_opt s = bindr (kalloc s) (\<lambda>(p, s'). Ok (if p = 0 then None else Some p, s'))"

interpretation pages: allocator kmem_wf free_pages owned_pages kalloc_opt kfree
proof
  fix s :: "'a kmem_state_scheme"
  assume wf: "kmem_wf s"
  show "kalloc_opt s = Ok (None, s)" if "free_pages s = {}"
    using kalloc_empty [OF wf that] by (simp add: kalloc_opt_def)
  show "\<exists>r s'. kalloc_opt s = Ok (Some r, s') \<and> r \<in> free_pages s \<and> kmem_wf s' \<and>
      free_pages s' = free_pages s - {r} \<and> owned_pages s' = insert r (owned_pages s)"
    if "free_pages s \<noteq> {}"
  proof -
    from kalloc_nonempty [OF wf that] obtain s' where
      k: "kalloc s = Ok (freelist s, s')" "freelist s \<noteq> 0"
      by blast
    with kalloc_wf [OF wf k(1)] show ?thesis
      by (auto simp: kalloc_opt_def)
  qed
  show "\<exists>s'. kfree r s = Ok s' \<and> kmem_wf s' \<and> free_pages s' = insert r (free_pages s) \<and>
      owned_pages s' = owned_pages s - {r}" if "r \<in> owned_pages s" for r
    using kfree_owned [OF wf that] by blast
  show "free_pages s \<inter> owned_pages s = {}"
    by (auto simp: free_pages_def owned_pages_def)
qed

section \<open>Properties\<close>

text \<open>A one-page machine: the last page below \<open>PHYSTOP\<close>, on the free list (\<open>one_free\<close>) or in use.\<close>

definition one_free :: kmem_state where
  "one_free = \<lparr>phys = (\<lambda>_. 0), kend = 2281697280, freelist = 2281697280, refcount = (\<lambda>_. 0)\<rparr>"

definition one_used :: kmem_state where
  "one_used = \<lparr>phys = (\<lambda>_. 0), kend = 2281697280, freelist = 0, refcount = (\<lambda>_. 1)\<rparr>"

lemma one_page_ok:
  assumes "kend s = 2281697280"
  shows "page_ok s x \<longleftrightarrow> x = 2281697280"
proof
  assume x: "page_ok s x"
  have "pg_aligned (2281697280 :: uint64)"
    by (simp add: pg_aligned_iff)
  with x have "unat x \<le> 2281697280"
    using pg_aligned_le_next [of x 2281697280] by (simp add: page_ok_def word_less_nat_alt)
  with x assms show "x = 2281697280"
    by (simp add: page_ok_def word_le_nat_alt word_unat_eq_iff)
next
  assume "x = 2281697280"
  with assms show "page_ok s x"
    by (simp add: page_ok_def pg_aligned_iff)
qed

lemma one_free_pages:
  "free_pages one_free = {2281697280}" "free_pages one_used = {}" "owned_pages one_used = {2281697280}"
  "\<not> page_ok one_used 5"
  by (auto simp: free_pages_def owned_pages_def one_page_ok one_free_def one_used_def)

lemma one_free_wf: "kmem_wf one_free" "kmem_wf one_used"
proof -
  have "ld64 (\<lambda>_. 0) 2281697280 = 0"
    by (simp add: ld64_def)
  then show "kmem_wf one_free"
    unfolding kmem_wf_def one_free_pages by (intro conjI exI [of _ "[2281697280]"]) (simp_all add: one_free_def)
  show "kmem_wf one_used"
    unfolding kmem_wf_def one_free_pages by (intro conjI exI [of _ "[]"]) (simp_all add: one_used_def)
qed

text \<open>\<open>kinit\<close>, run on the zeroed free list of the loaded kernel, returns without a panic in a
  state that satisfies the allocator invariant and in which every page between the end of the
  kernel image and \<open>PHYSTOP\<close> is free.\<close>

theorem kinit_frees_all:
  assumes "freelist s = 0" and "0 < kend s" and "kend s \<le> PHYSTOP"
  shows "\<exists>s'. kinit s = Ok s' \<and> kmem_wf s' \<and> free_pages s' = {x. page_ok s x} \<and>
    owned_pages s' = {}"
proof -
  from kinit_ok [OF assms] obtain s' where
    s': "kinit s = Ok s'" "kmem_wf s'" "kend s' = kend s" "free_pages s' = {x. page_ok s x}"
    by blast
  have "refcount s' (pageidx x) = 0" if "page_ok s x" for x
    using that s'(4) unfolding free_pages_def by blast
  then have "owned_pages s' = {}"
    using s'(3) by (simp add: owned_pages_def page_ok_def)
  with s' show ?thesis by blast
qed

theorem kinit_frees_all_witness:
  "\<exists>s'. kinit one_used = Ok s' \<and> kmem_wf s' \<and> free_pages s' = {x. page_ok one_used x} \<and>
    owned_pages s' = {}"
  by (rule kinit_frees_all) (simp_all add: one_used_def)

text \<open>C14: \<open>kalloc\<close> never panics. With no page free it returns the null pointer and changes
  nothing. Otherwise it returns a page that was free, now owned by the caller alone and filled
  with the byte 5, keeps the invariant and changes no byte outside that page.\<close>

theorem kalloc_correct:
  assumes "kmem_wf s"
  shows "\<exists>p s'. kalloc s = Ok (p, s') \<and> kmem_wf s' \<and>
    (if free_pages s = {} then p = 0 \<and> s' = s
     else p \<in> free_pages s \<and> p \<noteq> 0 \<and> free_pages s' = free_pages s - {p} \<and>
       owned_pages s' = insert p (owned_pages s) \<and>
       phys s' = (\<lambda>a. if a \<in> page p then 5 else phys s a))"
proof (cases "free_pages s = {}")
  case True
  with assms show ?thesis by (simp add: kalloc_empty)
next
  case False
  from kalloc_nonempty [OF assms this] obtain s' where
    k: "kalloc s = Ok (freelist s, s')" "freelist s \<noteq> 0"
    by blast
  from kalloc_wf [OF assms k(1)] k False show ?thesis
    by auto
qed

theorem kalloc_correct_witness:
  "\<exists>p s'. kalloc one_free = Ok (p, s') \<and> p \<in> free_pages one_free \<and> kmem_wf s' \<and> free_pages s' = {}"
  using kalloc_correct [OF one_free_wf(1)] by (auto simp: one_free_pages)

text \<open>C20: \<open>kfree\<close> on every branch. A misaligned or out-of-range address panics. A page with more
  than one reference only loses one reference. A page with one reference goes back to the free
  list; the invariant is kept and no byte outside the page changes.\<close>

theorem kfree_correct:
  assumes "kmem_wf s"
  shows "(\<not> page_ok s p \<longrightarrow> kfree p s = Panic ''kfree'') \<and>
    (page_ok s p \<and> 1 < refcount s (pageidx p) \<longrightarrow>
      kfree p s = Ok (s\<lparr>refcount := (refcount s)(pageidx p := refcount s (pageidx p) - 1)\<rparr>) \<and>
      kmem_wf (s\<lparr>refcount := (refcount s)(pageidx p := refcount s (pageidx p) - 1)\<rparr>)) \<and>
    (p \<in> owned_pages s \<longrightarrow> (\<exists>s'. kfree p s = Ok s' \<and> kmem_wf s' \<and>
      free_pages s' = insert p (free_pages s) \<and> owned_pages s' = owned_pages s - {p} \<and>
      (\<forall>a. a \<notin> page p \<longrightarrow> phys s' a = phys s a)))"
proof (intro conjI impI)
  assume "\<not> page_ok s p"
  then show "kfree p s = Panic ''kfree''"
    unfolding page_ok_def pg_aligned_def by (intro kfree_bad) (metis not_le)
next
  assume "page_ok s p \<and> 1 < refcount s (pageidx p)"
  then show "kfree p s = Ok (s\<lparr>refcount := (refcount s)(pageidx p := refcount s (pageidx p) - 1)\<rparr>)"
    by (intro kfree_shared) auto
next
  assume sh: "page_ok s p \<and> 1 < refcount s (pageidx p)"
  let ?s = "s\<lparr>refcount := (refcount s)(pageidx p := refcount s (pageidx p) - 1)\<rparr>"
  have "free_pages ?s = free_pages s"
    using sh by (auto simp: free_pages_def page_ok_def)
  with assms show "kmem_wf ?s"
    by (simp add: kmem_wf_def)
next
  assume "p \<in> owned_pages s"
  from kfree_owned [OF assms this] show "\<exists>s'. kfree p s = Ok s' \<and> kmem_wf s' \<and>
      free_pages s' = insert p (free_pages s) \<and> owned_pages s' = owned_pages s - {p} \<and>
      (\<forall>a. a \<notin> page p \<longrightarrow> phys s' a = phys s a)"
    by blast
qed

theorem kfree_correct_witness:
  "kfree 5 one_used = Panic ''kfree'' \<and>
   (\<exists>s'. kfree 2281697280 one_used = Ok s' \<and> kmem_wf s' \<and> free_pages s' = {2281697280})"
  using kfree_correct [OF one_free_wf(2), of 5] kfree_correct [OF one_free_wf(2), of 2281697280]
  by (auto simp: one_free_pages)

text \<open>As long as nothing is freed, \<open>n\<close> calls of \<open>kalloc\<close> hand out pairwise distinct pages, all of
  them free before, and fail exactly when every free page has been handed out.\<close>

theorem kalloc_hands_out_distinct_pages:
  assumes "kmem_wf s"
  shows "\<exists>xs s'. alloc_n kalloc_opt n s = Ok (xs, s') \<and> kmem_wf s' \<and> distinct xs \<and>
    set xs \<subseteq> free_pages s \<and> owned_pages s' = owned_pages s \<union> set xs \<and>
    length xs = min n (card (free_pages s))"
  using pages.alloc_n_ok [OF assms finite_free_pages [OF assms]] by blast

theorem kalloc_hands_out_distinct_pages_witness:
  "\<exists>xs s'. alloc_n kalloc_opt 2 one_free = Ok (xs, s') \<and> length xs = 1 \<and> distinct xs \<and>
    set xs \<subseteq> {2281697280}"
  using kalloc_hands_out_distinct_pages [OF one_free_wf(1), of 2] by (auto simp: one_free_pages)

text \<open>C21: a double free goes unnoticed. The underflow test of \<open>decref\<close> compares the count before the
  decrement with 0, so freeing a page twice does not panic: it links the page to itself, and the
  next two calls of \<open>kalloc\<close> return the same page.\<close>

theorem double_kfree_hands_out_page_twice:
  assumes "kmem_wf s" and "p \<in> owned_pages s"
  shows "\<exists>s1 s2 s3 s4. kfree p s = Ok s1 \<and> kfree p s1 = Ok s2 \<and>
    kalloc s2 = Ok (p, s3) \<and> kalloc s3 = Ok (p, s4)"
proof -
  have p: "page_ok s p" "refcount s (pageidx p) = 1" "p \<noteq> 0"
    using assms page_ok_nonzero by (auto simp: owned_pages_def)
  obtain s1 where s1: "kfree p s = Ok s1" "freelist s1 = p" "refcount s1 (pageidx p) = 0"
      "kend s1 = kend s"
    using kfree_last [OF p(1)] p(2) by auto
  then have p1: "page_ok s1 p"
    using p(1) by (simp add: page_ok_def)
  obtain s2 where s2: "kfree p s1 = Ok s2" "freelist s2 = p" "ld64 (phys s2) p = p"
      "refcount s2 (pageidx p) = - 1" "kend s2 = kend s"
    using kfree_last [OF p1] s1 by auto
  have ix: "pa2pageindex p = Ok (pageidx p)"
    using p(1) by (intro pa2pageindex_ok) (simp add: page_ok_def)
  from s2 p(3) ix obtain s3 where s3: "kalloc s2 = Ok (p, s3)" "freelist s3 = p"
    by (auto simp: kalloc_def incref_def Let_def)
  from s3 p(3) ix obtain s4 where "kalloc s3 = Ok (p, s4)"
    by (auto simp: kalloc_def incref_def Let_def)
  with s1 s2 s3 show ?thesis by blast
qed

theorem double_kfree_hands_out_page_twice_witness:
  "\<exists>s1 s2 s3 s4. kfree 2281697280 one_used = Ok s1 \<and> kfree 2281697280 s1 = Ok s2 \<and>
    kalloc s2 = Ok (2281697280, s3) \<and> kalloc s3 = Ok (2281697280, s4)"
  using double_kfree_hands_out_page_twice [OF one_free_wf(2)] by (simp add: one_free_pages)

end
