(* ===== verification/XvVm.thy ===== *)
theory XvVm
  imports XvKalloc
begin

text \<open>
  kernel/vm.c: page tables and user memory. A page table is the physical address of its root
  page, a page-table entry is a 64-bit load from or store to physical memory, and the null
  pointer is 0. Loops over addresses end because \<open>walk\<close> panics at \<open>MAXVA\<close>.

  The kernel side of a copy is a list of bytes: \<open>copyout\<close> takes the bytes at \<open>src\<close>, and \<open>copyin\<close> and
  \<open>copyinstr\<close> return the bytes they have stored from \<open>dst\<close> on, on failure those stored before it.
  \<open>myproc()->pagetable\<close> and \<open>myproc()->sz\<close>, which \<open>vmfault\<close> reads, are the arguments \<open>ppt\<close> and \<open>psz\<close>.
\<close>

section \<open>Page-table walks\<close>

definition get_pte :: "'a kmem_state_scheme \<Rightarrow> uint64 \<Rightarrow> uint64" where
  "get_pte s pte = ld64 (phys s) pte"

definition set_pte :: "uint64 \<Rightarrow> uint64 \<Rightarrow> 'a kmem_state_scheme \<Rightarrow> 'a kmem_state_scheme" where
  "set_pte pte v s = s\<lparr>phys := st64 (phys s) pte v\<rparr>"

definition zero_page :: "uint64 \<Rightarrow> 'a kmem_state_scheme \<Rightarrow> 'a kmem_state_scheme" where
  "zero_page p s = s\<lparr>phys := memset (phys s) p 0 4096\<rparr>"

primrec walk_loop :: "nat \<Rightarrow> uint64 \<Rightarrow> uint64 \<Rightarrow> bool \<Rightarrow> 'a kmem_state_scheme \<Rightarrow>
    (uint64 \<times> 'a kmem_state_scheme) res" where
  "walk_loop 0 pagetable va alloc s = Ok (entry pagetable (PX 0 va), s)"
| "walk_loop (Suc l) pagetable va alloc s =
     (let pte = entry pagetable (PX (Suc l) va)
      in if get_pte s pte AND PTE_V \<noteq> 0 then walk_loop l (PTE2PA (get_pte s pte)) va alloc s
         else if \<not> alloc then Ok (0, s)
         else bindr (kalloc s) (\<lambda>(pt, s1).
           if pt = 0 then Ok (0, s1)
           else walk_loop l pt va alloc (set_pte pte (PA2PTE pt OR PTE_V) (zero_page pt s1))))"

definition walk :: "uint64 \<Rightarrow> uint64 \<Rightarrow> bool \<Rightarrow> 'a kmem_state_scheme \<Rightarrow>
    (uint64 \<times> 'a kmem_state_scheme) res" where
  "walk pagetable va alloc s =
     (if MAXVA \<le> va then Panic ''walk'' else walk_loop 2 pagetable va alloc s)"

definition walkaddr :: "uint64 \<Rightarrow> uint64 \<Rightarrow> 'a kmem_state_scheme \<Rightarrow> uint64 res" where
  "walkaddr pagetable va s =
     (if MAXVA \<le> va then Ok 0
      else bindr (walk pagetable va False s) (\<lambda>(pte, s1).
        if pte = 0 then Ok 0
        else if get_pte s1 pte AND PTE_V = 0 then Ok 0
        else if get_pte s1 pte AND PTE_U = 0 then Ok 0
        else Ok (PTE2PA (get_pte s1 pte))))"

definition ismapped :: "uint64 \<Rightarrow> uint64 \<Rightarrow> 'a kmem_state_scheme \<Rightarrow> bool res" where
  "ismapped pagetable va s =
     bindr (walk pagetable va False s) (\<lambda>(pte, s1).
       Ok (pte \<noteq> 0 \<and> get_pte s1 pte AND PTE_V \<noteq> 0))"

section \<open>Mapping and unmapping\<close>

lemma walk_Ok_less: "walk pt va al s = Ok x \<Longrightarrow> unat va < unat MAXVA"
  by (auto simp: walk_def word_le_nat_alt split: if_splits)

lemma unat_page_step:
  assumes "unat a < unat MAXVA"
  shows "unat (a + PGSIZE) = unat a + 4096"
  using assms unat_plus64 [of a PGSIZE] by simp

function mappages_loop :: "uint64 \<Rightarrow> uint64 \<Rightarrow> uint64 \<Rightarrow> uint64 \<Rightarrow> uint64 \<Rightarrow> 'a kmem_state_scheme \<Rightarrow>
    (int \<times> 'a kmem_state_scheme) res" where
  "mappages_loop pagetable a lst pa perm s =
     bindr (walk pagetable a True s) (\<lambda>(pte, s1).
       if pte = 0 then Ok (-1, s1)
       else if get_pte s1 pte AND PTE_V \<noteq> 0 then Panic ''mappages: remap''
       else let s2 = set_pte pte (PA2PTE pa OR perm OR PTE_V) s1
         in if a = lst then Ok (0, s2)
            else mappages_loop pagetable (a + PGSIZE) lst (pa + PGSIZE) perm s2)"
  by pat_completeness auto
termination
proof (relation "measure (\<lambda>(pt, a, lst, pa, perm, s). unat MAXVA - unat a)", goal_cases)
  case 1
  show ?case by simp
next
  case (2 pagetable a lst pa perm s x pte s1)
  then have "unat a < unat MAXVA"
    by (intro walk_Ok_less) auto
  then show ?case
    by (simp add: unat_page_step)
qed

declare mappages_loop.simps [simp del]

definition mappages :: "uint64 \<Rightarrow> uint64 \<Rightarrow> uint64 \<Rightarrow> uint64 \<Rightarrow> uint64 \<Rightarrow> 'a kmem_state_scheme \<Rightarrow>
    (int \<times> 'a kmem_state_scheme) res" where
  "mappages pagetable va sz pa perm s =
     (if va mod PGSIZE \<noteq> 0 then Panic ''mappages: va not aligned''
      else if sz mod PGSIZE \<noteq> 0 then Panic ''mappages: size not aligned''
      else if sz = 0 then Panic ''mappages: size''
      else mappages_loop pagetable va (va + sz - PGSIZE) pa perm s)"

lemma mappages_Ok_less:
  assumes "mappages pt va sz pa perm s = Ok x"
  shows "unat va < unat MAXVA"
proof -
  from assms have "mappages_loop pt va (va + sz - PGSIZE) pa perm s = Ok x"
    by (simp only: mappages_def split: if_splits) auto
  then obtain y where "walk pt va True s = Ok y"
    by (simp only: mappages_loop.simps [of pt va] bindr_Ok_iff) blast
  then show ?thesis by (rule walk_Ok_less)
qed

text \<open>The body of the loop of \<open>uvmunmap\<close>, with \<open>continue\<close> as the unchanged state.\<close>

definition uvmunmap_pte :: "uint64 \<Rightarrow> bool \<Rightarrow> 'a kmem_state_scheme \<Rightarrow> 'a kmem_state_scheme res" where
  "uvmunmap_pte pte do_free s =
     (if pte = 0 then Ok s
      else if get_pte s pte AND PTE_V = 0 then Ok s
      else bindr (if do_free then kfree (PTE2PA (get_pte s pte)) s else Ok s)
        (\<lambda>s1. Ok (set_pte pte 0 s1)))"

function uvmunmap_loop :: "uint64 \<Rightarrow> uint64 \<Rightarrow> uint64 \<Rightarrow> bool \<Rightarrow> 'a kmem_state_scheme \<Rightarrow>
    'a kmem_state_scheme res" where
  "uvmunmap_loop pagetable a lim do_free s =
     (if a < lim
      then bindr (walk pagetable a False s) (\<lambda>(pte, s1).
        bindr (uvmunmap_pte pte do_free s1) (\<lambda>s2.
          uvmunmap_loop pagetable (a + PGSIZE) lim do_free s2))
      else Ok s)"
  by pat_completeness auto
termination
proof (relation "measure (\<lambda>(pt, a, lim, do_free, s). unat MAXVA - unat a)", goal_cases)
  case 1
  show ?case by simp
next
  case (2 pagetable a lim do_free s x pte s1 s2)
  then have "unat a < unat MAXVA"
    by (intro walk_Ok_less) auto
  then show ?case
    by (simp add: unat_page_step)
qed

declare uvmunmap_loop.simps [simp del]

definition uvmunmap :: "uint64 \<Rightarrow> uint64 \<Rightarrow> uint64 \<Rightarrow> bool \<Rightarrow> 'a kmem_state_scheme \<Rightarrow>
    'a kmem_state_scheme res" where
  "uvmunmap pagetable va npages do_free s =
     (if va mod PGSIZE \<noteq> 0 then Panic ''uvmunmap: not aligned''
      else uvmunmap_loop pagetable va (va + npages * PGSIZE) do_free s)"

definition uvmclear :: "uint64 \<Rightarrow> uint64 \<Rightarrow> 'a kmem_state_scheme \<Rightarrow> 'a kmem_state_scheme res" where
  "uvmclear pagetable va s =
     bindr (walk pagetable va False s) (\<lambda>(pte, s1).
       if pte = 0 then Panic ''uvmclear''
       else Ok (set_pte pte (get_pte s1 pte AND NOT PTE_U) s1))"

section \<open>Kernel page table\<close>

definition kvmmap :: "uint64 \<Rightarrow> uint64 \<Rightarrow> uint64 \<Rightarrow> uint64 \<Rightarrow> uint64 \<Rightarrow> 'a kmem_state_scheme \<Rightarrow>
    'a kmem_state_scheme res" where
  "kvmmap kpgtbl va pa sz perm s =
     bindr (mappages kpgtbl va sz pa perm s) (\<lambda>(r, s1).
       if r \<noteq> 0 then Panic ''kvmmap'' else Ok s1)"

text \<open>\<open>proc_mapstacks\<close> of kernel/proc.c.\<close>

definition proc_mapstacks :: "uint64 \<Rightarrow> 'a kmem_state_scheme \<Rightarrow> 'a kmem_state_scheme res" where
  "proc_mapstacks kpgtbl s =
     foldM (\<lambda>i s. bindr (kalloc s) (\<lambda>(pa, s1).
       if pa = 0 then Panic ''kalloc''
       else kvmmap kpgtbl (KSTACK (of_nat i)) pa PGSIZE (PTE_R OR PTE_W) s1)) [0..<64] s"

abbreviation (input) UART0 :: uint64 where "UART0 \<equiv> 0x10000000"
abbreviation (input) VIRTIO0 :: uint64 where "VIRTIO0 \<equiv> 0x10001000"
abbreviation (input) PLIC :: uint64 where "PLIC \<equiv> 0x0c000000"

text \<open>\<open>etext\<close> and \<open>trampoline\<close> are linker symbols.\<close>

definition kvmmake :: "uint64 \<Rightarrow> uint64 \<Rightarrow> 'a kmem_state_scheme \<Rightarrow>
    (uint64 \<times> 'a kmem_state_scheme) res" where
  "kvmmake etext trampoline s =
     bindr (kalloc s) (\<lambda>(kpgtbl, s0).
     bindr (kvmmap kpgtbl UART0 UART0 PGSIZE (PTE_R OR PTE_W) (zero_page kpgtbl s0)) (\<lambda>s1.
     bindr (kvmmap kpgtbl VIRTIO0 VIRTIO0 PGSIZE (PTE_R OR PTE_W) s1) (\<lambda>s2.
     bindr (kvmmap kpgtbl PLIC PLIC 0x4000000 (PTE_R OR PTE_W) s2) (\<lambda>s3.
     bindr (kvmmap kpgtbl KERNBASE KERNBASE (etext - KERNBASE) (PTE_R OR PTE_X) s3) (\<lambda>s4.
     bindr (kvmmap kpgtbl etext etext (PHYSTOP - etext) (PTE_R OR PTE_W) s4) (\<lambda>s5.
     bindr (kvmmap kpgtbl TRAMPOLINE trampoline PGSIZE (PTE_R OR PTE_X) s5) (\<lambda>s6.
     bindr (proc_mapstacks kpgtbl s6) (\<lambda>s7. Ok (kpgtbl, s7)))))))))"

section \<open>Growing, shrinking and freeing user memory\<close>

definition uvmcreate :: "'a kmem_state_scheme \<Rightarrow> (uint64 \<times> 'a kmem_state_scheme) res" where
  "uvmcreate s =
     bindr (kalloc s) (\<lambda>(pagetable, s1).
       if pagetable = 0 then Ok (0, s1) else Ok (pagetable, zero_page pagetable s1))"

text \<open>The page count is an \<open>int\<close>: it is truncated to 32 bits and passed on sign-extended.\<close>

definition uvmdealloc :: "uint64 \<Rightarrow> uint64 \<Rightarrow> uint64 \<Rightarrow> 'a kmem_state_scheme \<Rightarrow>
    (uint64 \<times> 'a kmem_state_scheme) res" where
  "uvmdealloc pagetable oldsz newsz s =
     (if oldsz \<le> newsz then Ok (oldsz, s)
      else if PGROUNDUP newsz < PGROUNDUP oldsz
      then let npages = (ucast ((PGROUNDUP oldsz - PGROUNDUP newsz) div PGSIZE) :: uint32)
        in bindr (uvmunmap pagetable (PGROUNDUP newsz) (scast npages) True s)
             (\<lambda>s1. Ok (newsz, s1))
      else Ok (newsz, s))"

function uvmalloc_loop :: "uint64 \<Rightarrow> uint64 \<Rightarrow> uint64 \<Rightarrow> uint64 \<Rightarrow> uint64 \<Rightarrow> 'a kmem_state_scheme \<Rightarrow>
    (uint64 \<times> 'a kmem_state_scheme) res" where
  "uvmalloc_loop pagetable a oldsz newsz xperm s =
     (if a < newsz
      then bindr (kalloc s) (\<lambda>(mem, s1).
        if mem = 0
        then bindr (uvmdealloc pagetable a oldsz s1) (\<lambda>(r, s2). Ok (0, s2))
        else bindr (mappages pagetable a PGSIZE mem (PTE_R OR PTE_U OR xperm) (zero_page mem s1))
          (\<lambda>(r, s2).
            if r \<noteq> 0
            then bindr (kfree mem s2) (\<lambda>s3.
              bindr (uvmdealloc pagetable a oldsz s3) (\<lambda>(r, s4). Ok (0, s4)))
            else uvmalloc_loop pagetable (a + PGSIZE) oldsz newsz xperm s2))
      else Ok (newsz, s))"
  by pat_completeness auto
termination
proof (relation "measure (\<lambda>(pt, a, oldsz, newsz, xperm, s). unat MAXVA - unat a)", goal_cases)
  case 1
  show ?case by simp
next
  case (2 pagetable a oldsz newsz xperm s x mem s1 y r s2)
  then have "unat a < unat MAXVA"
    by (intro mappages_Ok_less) auto
  then show ?case
    by (simp add: unat_page_step)
qed

declare uvmalloc_loop.simps [simp del]

definition uvmalloc :: "uint64 \<Rightarrow> uint64 \<Rightarrow> uint64 \<Rightarrow> uint64 \<Rightarrow> 'a kmem_state_scheme \<Rightarrow>
    (uint64 \<times> 'a kmem_state_scheme) res" where
  "uvmalloc pagetable oldsz newsz xperm s =
     (if newsz < oldsz then Ok (oldsz, s)
      else uvmalloc_loop pagetable (PGROUNDUP oldsz) (PGROUNDUP oldsz) newsz xperm s)"

text \<open>The recursion of \<open>freewalk\<close> is bounded by the depth of the tree, which is 3 for Sv39.\<close>

primrec freewalk :: "nat \<Rightarrow> uint64 \<Rightarrow> 'a kmem_state_scheme \<Rightarrow> 'a kmem_state_scheme res" where
  "freewalk 0 pagetable s = Diverge"
| "freewalk (Suc d) pagetable s =
     bindr (foldM (\<lambda>i s.
         let pte = get_pte s (entry pagetable (of_nat i))
         in if pte AND PTE_V \<noteq> 0 \<and> pte AND (PTE_R OR PTE_W OR PTE_X) = 0
            then bindr (freewalk d (PTE2PA pte) s) (\<lambda>s1.
              Ok (set_pte (entry pagetable (of_nat i)) 0 s1))
            else if pte AND PTE_V \<noteq> 0 then Panic ''freewalk: leaf''
            else Ok s) [0..<512] s)
       (\<lambda>s1. kfree pagetable s1)"

definition uvmfree :: "uint64 \<Rightarrow> uint64 \<Rightarrow> 'a kmem_state_scheme \<Rightarrow> 'a kmem_state_scheme res" where
  "uvmfree pagetable sz s =
     bindr (if 0 < sz then uvmunmap pagetable 0 (PGROUNDUP sz div PGSIZE) True s else Ok s)
       (\<lambda>s1. freewalk 3 pagetable s1)"

section \<open>Copying an address space\<close>

function uvmcopy_loop :: "uint64 \<Rightarrow> uint64 \<Rightarrow> uint64 \<Rightarrow> uint64 \<Rightarrow> 'a kmem_state_scheme \<Rightarrow>
    (int \<times> 'a kmem_state_scheme) res" where
  "uvmcopy_loop old new i sz s =
     (if i < sz
      then bindr (walk old i False s) (\<lambda>(pte, s1).
        if pte = 0 then uvmcopy_loop old new (i + PGSIZE) sz s1
        else if get_pte s1 pte AND PTE_V = 0 then uvmcopy_loop old new (i + PGSIZE) sz s1
        else let pa = PTE2PA (get_pte s1 pte); flags = PTE_FLAGS (get_pte s1 pte)
          in bindr (kalloc s1) (\<lambda>(mem, s2).
            if mem = 0
            then bindr (uvmunmap new 0 (i div PGSIZE) True s2) (\<lambda>s3. Ok (-1, s3))
            else bindr (mappages new i PGSIZE mem flags
                (s2\<lparr>phys := memmove (phys s2) mem pa 4096\<rparr>)) (\<lambda>(r, s3).
              if r \<noteq> 0
              then bindr (kfree mem s3) (\<lambda>s4.
                bindr (uvmunmap new 0 (i div PGSIZE) True s4) (\<lambda>s5. Ok (-1, s5)))
              else uvmcopy_loop old new (i + PGSIZE) sz s3)))
      else Ok (0, s))"
  by pat_completeness auto
termination
proof (relation "measure (\<lambda>(old, new, i, sz, s). unat MAXVA - unat i)", goal_cases)
  case 1
  show ?case by simp
next
  case (2 old new i sz s x pte s1)
  then have "unat i < unat MAXVA" by (intro walk_Ok_less) auto
  then show ?case by (simp add: unat_page_step)
next
  case (3 old new i sz s x pte s1)
  then have "unat i < unat MAXVA" by (intro walk_Ok_less) auto
  then show ?case by (simp add: unat_page_step)
next
  case (4 old new i sz s x pte s1)
  then have "unat i < unat MAXVA" by (intro walk_Ok_less) auto
  then show ?case by (simp add: unat_page_step)
qed

declare uvmcopy_loop.simps [simp del]

definition uvmcopy :: "uint64 \<Rightarrow> uint64 \<Rightarrow> uint64 \<Rightarrow> 'a kmem_state_scheme \<Rightarrow>
    (int \<times> 'a kmem_state_scheme) res" where
  "uvmcopy old new sz s = uvmcopy_loop old new 0 sz s"

section \<open>Copies between kernel and user memory\<close>

definition vmfault :: "uint64 \<Rightarrow> uint64 \<Rightarrow> uint64 \<Rightarrow> uint64 \<Rightarrow> 'a kmem_state_scheme \<Rightarrow>
    (uint64 \<times> 'a kmem_state_scheme) res" where
  "vmfault ppt psz pagetable va s =
     (if psz \<le> va then Ok (0, s)
      else bindr (ismapped pagetable (PGROUNDDOWN va) s) (\<lambda>mapped.
        if mapped then Ok (0, s)
        else bindr (kalloc s) (\<lambda>(ka, s1).
          if ka = 0 then Ok (0, s1)
          else bindr (mappages ppt (PGROUNDDOWN va) PGSIZE ka (PTE_W OR PTE_U OR PTE_R)
              (zero_page ka s1)) (\<lambda>(r, s2).
            if r \<noteq> 0 then bindr (kfree ka s2) (\<lambda>s3. Ok (0, s3))
            else Ok (ka, s2)))))"

text \<open>
  \<open>user_page\<close> is the common head of the loops of \<open>copyout\<close> and \<open>copyin\<close>: the physical page behind
  \<open>va0\<close>, allocated on demand, or 0. The number of bytes copied in one round is at least 1.
\<close>

definition user_page :: "uint64 \<Rightarrow> uint64 \<Rightarrow> uint64 \<Rightarrow> uint64 \<Rightarrow> 'a kmem_state_scheme \<Rightarrow>
    (uint64 \<times> 'a kmem_state_scheme) res" where
  "user_page ppt psz pagetable va0 s =
     bindr (walkaddr pagetable va0 s) (\<lambda>pa0.
       if pa0 = 0 then vmfault ppt psz pagetable va0 s else Ok (pa0, s))"

definition chunk :: "uint64 \<Rightarrow> nat \<Rightarrow> nat" where
  "chunk va len = (let n = 4096 - unat (va - PGROUNDDOWN va) in if len < n then len else n)"

lemma chunk_pos: "0 < len \<Longrightarrow> 0 < chunk va len"
  by (simp add: chunk_def Let_def unat_page_diff)

lemma chunk_le: "chunk va len \<le> len"
  by (simp add: chunk_def Let_def)

text \<open>A load from a null \<open>pte\<close> traps in the kernel, and \<open>kerneltrap\<close> panics.\<close>

function copyout :: "uint64 \<Rightarrow> uint64 \<Rightarrow> uint64 \<Rightarrow> uint64 \<Rightarrow> uint8 list \<Rightarrow> 'a kmem_state_scheme \<Rightarrow>
    (int \<times> 'a kmem_state_scheme) res" where
  "copyout ppt psz pagetable dstva src s =
     (if src = [] then Ok (0, s)
      else let va0 = PGROUNDDOWN dstva in
        if MAXVA \<le> va0 then Ok (-1, s)
        else bindr (user_page ppt psz pagetable va0 s) (\<lambda>(pa0, s1).
          if pa0 = 0 then Ok (-1, s1)
          else bindr (walk pagetable va0 False s1) (\<lambda>(pte, s2).
            if pte = 0 then Panic ''kerneltrap''
            else if get_pte s2 pte AND PTE_W = 0 then Ok (-1, s2)
            else let n = chunk dstva (length src) in
              copyout ppt psz pagetable (va0 + PGSIZE) (drop n src)
                (s2\<lparr>phys := wr_bytes (phys s2) (pa0 + (dstva - va0)) (take n src)\<rparr>))))"
  by pat_completeness auto
termination
  by (relation "measure (\<lambda>(ppt, psz, pt, dstva, src, s). length src)") (auto simp: chunk_pos)

declare copyout.simps [simp del]

function copyin :: "uint64 \<Rightarrow> uint64 \<Rightarrow> uint64 \<Rightarrow> uint64 \<Rightarrow> nat \<Rightarrow> 'a kmem_state_scheme \<Rightarrow>
    (int \<times> uint8 list \<times> 'a kmem_state_scheme) res" where
  "copyin ppt psz pagetable srcva len s =
     (if len = 0 then Ok (0, [], s)
      else let va0 = PGROUNDDOWN srcva in
        bindr (user_page ppt psz pagetable va0 s) (\<lambda>(pa0, s1).
          if pa0 = 0 then Ok (-1, [], s1)
          else let n = chunk srcva len;
                   bs = rd_bytes (phys s1) (pa0 + (srcva - va0)) n in
            bindr (copyin ppt psz pagetable (va0 + PGSIZE) (len - n) s1)
              (\<lambda>(r, bs', s2). Ok (r, bs @ bs', s2))))"
  by pat_completeness auto
termination
  by (relation "measure (\<lambda>(ppt, psz, pt, srcva, len, s). len)") (auto simp: chunk_pos)

declare copyin.simps [simp del]

text \<open>The inner loop of \<open>copyinstr\<close>: the bytes stored and whether a NUL was among them.\<close>

primrec copyinstr_page :: "memory \<Rightarrow> uint64 \<Rightarrow> nat \<Rightarrow> uint8 list \<times> bool" where
  "copyinstr_page m p 0 = ([], False)"
| "copyinstr_page m p (Suc n) =
     (if m p = 0 then ([0], True)
      else let (bs, got_null) = copyinstr_page m (p + 1) n in (m p # bs, got_null))"

function copyinstr :: "uint64 \<Rightarrow> uint64 \<Rightarrow> nat \<Rightarrow> 'a kmem_state_scheme \<Rightarrow> (int \<times> uint8 list) res" where
  "copyinstr pagetable srcva mx s =
     (if mx = 0 then Ok (-1, [])
      else let va0 = PGROUNDDOWN srcva in
        bindr (walkaddr pagetable va0 s) (\<lambda>pa0.
          if pa0 = 0 then Ok (-1, [])
          else let n = chunk srcva mx;
                   (bs, got_null) = copyinstr_page (phys s) (pa0 + (srcva - va0)) n in
            if got_null then Ok (0, bs)
            else bindr (copyinstr pagetable (va0 + PGSIZE) (mx - n) s)
              (\<lambda>(r, bs'). Ok (r, bs @ bs'))))"
  by pat_completeness auto
termination
  by (relation "measure (\<lambda>(pt, srcva, mx, s). mx)") (auto simp: chunk_pos)

declare copyinstr.simps [simp del]

section \<open>What the operations leave alone\<close>

text \<open>No operation of this component touches the fields that later components add to the state.\<close>

abbreviation keeps :: "'a kmem_state_scheme \<Rightarrow> 'a kmem_state_scheme \<Rightarrow> bool" where
  "keeps s s' \<equiv> kmem_state.more s' = kmem_state.more s"

lemma keeps_kalloc: "kalloc s = Ok (p, s') \<Longrightarrow> keeps s s'"
  by (auto simp: kalloc_def incref_def Let_def split: if_splits)

lemma keeps_kfree: "kfree p s = Ok s' \<Longrightarrow> keeps s s'"
  by (auto simp: kfree_def decref_def getref_def split: if_splits)

lemma keeps_simps [simp]:
  "keeps s (set_pte a v s') \<longleftrightarrow> keeps s s'" "keeps s (zero_page p s') \<longleftrightarrow> keeps s s'"
  "keeps s (s'\<lparr>phys := m\<rparr>) \<longleftrightarrow> keeps s s'"
  by (simp_all add: set_pte_def zero_page_def)

lemma keeps_walk_loop: "walk_loop l p va al s = Ok (a, s') \<Longrightarrow> keeps s s'"
proof (induction l arbitrary: p s)
  case (Suc l)
  then show ?case
    by (auto simp: Let_def split: if_splits dest!: Suc.IH keeps_kalloc)
qed simp

lemma keeps_walk: "walk p va al s = Ok (a, s') \<Longrightarrow> keeps s s'"
  by (auto simp: walk_def split: if_splits dest: keeps_walk_loop)

lemma keeps_mappages_loop: "mappages_loop p a lst pa perm s = Ok (r, s') \<Longrightarrow> keeps s s'"
proof (induction p a lst pa perm s rule: mappages_loop.induct)
  case (1 p a lst pa perm s)
  from "1.prems" obtain pte s1 where w: "walk p a True s = Ok (pte, s1)"
    by (subst (asm) mappages_loop.simps) auto
  note k = keeps_walk [OF w]
  from "1.prems" w k show ?case
    by (subst (asm) mappages_loop.simps)
      (auto simp: Let_def split: if_splits dest: "1.IH" [OF w refl])
qed

lemma keeps_mappages: "mappages p va sz pa perm s = Ok (r, s') \<Longrightarrow> keeps s s'"
  by (auto simp: mappages_def split: if_splits dest: keeps_mappages_loop)

lemma keeps_uvmunmap_pte: "uvmunmap_pte pte df s = Ok s' \<Longrightarrow> keeps s s'"
  by (auto simp: uvmunmap_pte_def split: if_splits dest: keeps_kfree)

lemma keeps_uvmunmap_loop: "uvmunmap_loop p a lim df s = Ok s' \<Longrightarrow> keeps s s'"
proof (induction p a lim df s rule: uvmunmap_loop.induct)
  case (1 p a lim df s)
  show ?case
  proof (cases "a < lim")
    case True
    with "1.prems" obtain pte s1 s2 where w: "walk p a False s = Ok (pte, s1)"
      "uvmunmap_pte pte df s1 = Ok s2" "uvmunmap_loop p (a + PGSIZE) lim df s2 = Ok s'"
      by (subst (asm) uvmunmap_loop.simps) auto
    from "1.IH" [OF True w(1) refl w(2,3)] keeps_walk [OF w(1)] keeps_uvmunmap_pte [OF w(2)]
    show ?thesis by simp
  next
    case False
    with "1.prems" show ?thesis by (subst (asm) uvmunmap_loop.simps) simp
  qed
qed

lemma keeps_uvmunmap: "uvmunmap p va n df s = Ok s' \<Longrightarrow> keeps s s'"
  by (auto simp: uvmunmap_def split: if_splits dest: keeps_uvmunmap_loop)

lemma keeps_vmfault: "vmfault ppt psz pt va s = Ok (r, s') \<Longrightarrow> keeps s s'"
  by (auto simp: vmfault_def split: if_splits dest!: keeps_kalloc keeps_kfree keeps_mappages)

lemma keeps_user_page: "user_page ppt psz pt va s = Ok (r, s') \<Longrightarrow> keeps s s'"
  by (auto simp: user_page_def split: if_splits dest!: keeps_vmfault)

lemma keeps_copyout: "copyout ppt psz pt va src s = Ok (r, s') \<Longrightarrow> keeps s s'"
proof (induction ppt psz pt va src s rule: copyout.induct)
  case (1 ppt psz pt va src s)
  show ?case
  proof (cases "src = [] \<or> MAXVA \<le> PGROUNDDOWN va")
    case True
    with "1.prems" show ?thesis by (subst (asm) copyout.simps) (auto simp: Let_def split: if_splits)
  next
    case False
    with "1.prems" obtain pa0 s1 where u: "user_page ppt psz pt (PGROUNDDOWN va) s = Ok (pa0, s1)"
      by (subst (asm) copyout.simps) (auto simp: Let_def)
    note k = keeps_user_page [OF u]
    show ?thesis
    proof (cases "pa0 = 0")
      case True
      with "1.prems" False u k show ?thesis by (subst (asm) copyout.simps) (auto simp: Let_def)
    next
      case pa: False
      with "1.prems" False u obtain pte s2 where w: "walk pt (PGROUNDDOWN va) False s1 = Ok (pte, s2)"
        by (subst (asm) copyout.simps) (auto simp: Let_def)
      note k2 = keeps_walk [OF w]
      show ?thesis
      proof (cases "pte \<noteq> 0 \<and> get_pte s2 pte AND PTE_W \<noteq> 0")
        case True
        with "1.prems" False u pa w have "copyout ppt psz pt (PGROUNDDOWN va + PGSIZE)
            (drop (chunk va (length src)) src)
            (s2\<lparr>phys := wr_bytes (phys s2) (pa0 + (va - PGROUNDDOWN va))
               (take (chunk va (length src)) src)\<rparr>) = Ok (r, s')"
          by (subst (asm) copyout.simps) (auto simp: Let_def)
        from "1.IH" [OF _ refl _ u refl pa w refl _ _ refl this] True False k k2 show ?thesis
          by simp
      next
        case c: False
        with "1.prems" False u pa w k k2 show ?thesis
          by (subst (asm) copyout.simps) (auto simp: Let_def split: if_splits)
      qed
    qed
  qed
qed

lemma keeps_copyin: "copyin ppt psz pt va len s = Ok (r, bs, s') \<Longrightarrow> keeps s s'"
proof (induction ppt psz pt va len s arbitrary: bs rule: copyin.induct)
  case (1 ppt psz pt va len s)
  show ?case
  proof (cases "len = 0")
    case True
    with "1.prems" show ?thesis by (subst (asm) copyin.simps) auto
  next
    case False
    with "1.prems" obtain pa0 s1 where u: "user_page ppt psz pt (PGROUNDDOWN va) s = Ok (pa0, s1)"
      by (subst (asm) copyin.simps) (auto simp: Let_def)
    note k = keeps_user_page [OF u]
    show ?thesis
    proof (cases "pa0 = 0")
      case True
      with "1.prems" False u k show ?thesis by (subst (asm) copyin.simps) (auto simp: Let_def)
    next
      case pa: False
      with "1.prems" False u obtain bs' where
        "copyin ppt psz pt (PGROUNDDOWN va + PGSIZE) (len - chunk va len) s1 = Ok (r, bs', s')"
        by (subst (asm) copyin.simps) (auto simp: Let_def)
      from "1.IH" [OF False refl u refl pa refl refl this] k show ?thesis by simp
    qed
  qed
qed

lemma length_copyin: "copyin ppt psz pt va len s = Ok (r, bs, s') \<Longrightarrow> r \<noteq> -1 \<Longrightarrow> r = 0 \<and> length bs = len"
proof (induction ppt psz pt va len s arbitrary: bs rule: copyin.induct)
  case (1 ppt psz pt va len s)
  show ?case
  proof (cases "len = 0")
    case True
    with "1.prems" show ?thesis by (subst (asm) copyin.simps) auto
  next
    case False
    with "1.prems" obtain pa0 s1 where u: "user_page ppt psz pt (PGROUNDDOWN va) s = Ok (pa0, s1)"
      by (subst (asm) copyin.simps) (auto simp: Let_def)
    have pa: "pa0 \<noteq> 0"
      using "1.prems" False u by (subst (asm) copyin.simps) (auto simp: Let_def)
    with "1.prems" False u obtain bs' where
      c: "copyin ppt psz pt (PGROUNDDOWN va + PGSIZE) (len - chunk va len) s1 = Ok (r, bs', s')"
        "length bs = chunk va len + length bs'"
      by (subst (asm) copyin.simps) (auto simp: Let_def)
    from "1.IH" [OF False refl u refl pa refl refl c(1) "1.prems"(2)] c(2) chunk_le [of va len]
    show ?thesis by simp
  qed
qed

lemma keeps_uvmcreate: "uvmcreate s = Ok (pt, s') \<Longrightarrow> keeps s s'"
  by (auto simp: uvmcreate_def split: if_splits dest!: keeps_kalloc)

lemma keeps_freewalk: "freewalk d pt s = Ok s' \<Longrightarrow> keeps s s'"
proof (induction d arbitrary: pt s s')
  case (Suc d)
  let ?f = "\<lambda>i s. let pte = get_pte s (entry pt (of_nat i))
         in if pte AND PTE_V \<noteq> 0 \<and> pte AND (PTE_R OR PTE_W OR PTE_X) = 0
            then bindr (freewalk d (PTE2PA pte) s) (\<lambda>s1. Ok (set_pte (entry pt (of_nat i)) 0 s1))
            else if pte AND PTE_V \<noteq> 0 then Panic ''freewalk: leaf''
            else Ok s"
  from Suc.prems obtain s1 where f: "foldM ?f [0..<512] s = Ok s1" and k: "kfree pt s1 = Ok s'"
    by auto
  have "keeps s s1"
    by (rule foldM_keep [where P = "\<lambda>t. keeps s t", OF f])
      (auto simp: Let_def split: if_splits dest!: Suc.IH)
  with keeps_kfree [OF k] show ?case by simp
qed simp

lemma keeps_uvmfree: "uvmfree pt sz s = Ok s' \<Longrightarrow> keeps s s'"
  by (auto simp: uvmfree_def split: if_splits dest!: keeps_freewalk keeps_uvmunmap simp del: freewalk.simps)

end
