(* ===== verification/XvPtree.thy ===== *)
theory XvPtree
  imports XvVm
begin

text \<open>
  The tree behind a page table. \<open>ptnodes\<close> are the pages that make up the table, \<open>pt_wf\<close> says that
  they form a tree, and \<open>pte_val\<close> is the abstract page table: the entry of each virtual address,
  0 where no leaf table exists. The lemmas show what \<open>walk\<close>, \<open>mappages\<close>, \<open>uvmunmap\<close> and \<open>freewalk\<close>
  do to the abstract table and to the page allocator.
\<close>

section \<open>Tree structure\<close>

definition pvalid :: "uint64 \<Rightarrow> bool" where
  "pvalid pte \<longleftrightarrow> pte AND PTE_V \<noteq> 0"

abbreviation pte_of :: "memory \<Rightarrow> uint64 \<Rightarrow> uint64 \<Rightarrow> uint64" where
  "pte_of m p i \<equiv> ld64 m (entry p i)"

definition pt_idx :: "memory \<Rightarrow> uint64 \<Rightarrow> uint64 set" where
  "pt_idx m p = {i. i < 512 \<and> pvalid (pte_of m p i)}"

definition pt_child :: "memory \<Rightarrow> uint64 \<Rightarrow> uint64 \<Rightarrow> uint64" where
  "pt_child m p i = PTE2PA (pte_of m p i)"

primrec ptnodes :: "memory \<Rightarrow> nat \<Rightarrow> uint64 \<Rightarrow> uint64 set" where
  "ptnodes m 0 p = {p}"
| "ptnodes m (Suc l) p = insert p (\<Union>i\<in>pt_idx m p. ptnodes m l (pt_child m p i))"

primrec ptleaves :: "memory \<Rightarrow> nat \<Rightarrow> uint64 \<Rightarrow> uint64 set" where
  "ptleaves m 0 p = {p}"
| "ptleaves m (Suc l) p = (\<Union>i\<in>pt_idx m p. ptleaves m l (pt_child m p i))"

primrec pt_wf :: "memory \<Rightarrow> nat \<Rightarrow> uint64 \<Rightarrow> bool" where
  "pt_wf m 0 p \<longleftrightarrow> pg_aligned p"
| "pt_wf m (Suc l) p \<longleftrightarrow> pg_aligned p \<and>
     (\<forall>i\<in>pt_idx m p. pt_wf m l (pt_child m p i) \<and> p \<notin> ptnodes m l (pt_child m p i)) \<and>
     (\<forall>i\<in>pt_idx m p. \<forall>j\<in>pt_idx m p. i \<noteq> j \<longrightarrow>
        ptnodes m l (pt_child m p i) \<inter> ptnodes m l (pt_child m p j) = {})"

primrec pte_at :: "memory \<Rightarrow> nat \<Rightarrow> uint64 \<Rightarrow> uint64 \<Rightarrow> uint64 option" where
  "pte_at m 0 p va = Some (entry p (PX 0 va))"
| "pte_at m (Suc l) p va =
     (if PX (Suc l) va \<in> pt_idx m p then pte_at m l (pt_child m p (PX (Suc l) va)) va else None)"

definition pte_val :: "memory \<Rightarrow> nat \<Rightarrow> uint64 \<Rightarrow> uint64 \<Rightarrow> uint64" where
  "pte_val m l p va = (case pte_at m l p va of None \<Rightarrow> 0 | Some a \<Rightarrow> ld64 m a)"

lemma pvalid_0 [simp]: "\<not> pvalid 0"
  by (simp add: pvalid_def)

lemma PX_in_pt_idx: "PX l va \<in> pt_idx m p \<longleftrightarrow> pvalid (pte_of m p (PX l va))"
  by (simp add: pt_idx_def)

lemma pt_idxD: "i \<in> pt_idx m p \<Longrightarrow> i < 512"
  by (simp add: pt_idx_def)

lemma pt_wf_aligned: "pt_wf m l p \<Longrightarrow> pg_aligned p"
  by (cases l) auto

lemma root_in_ptnodes [simp]: "p \<in> ptnodes m l p"
  by (cases l) auto

lemma ptleaves_sub: "ptleaves m l p \<subseteq> ptnodes m l p"
  by (induction l arbitrary: p) auto

lemma pt_wf_nodes_aligned: "pt_wf m l p \<Longrightarrow> q \<in> ptnodes m l p \<Longrightarrow> pg_aligned q"
  by (induction l arbitrary: p) auto

lemma pt_wf_child:
  assumes "pt_wf m (Suc l) p" and "i \<in> pt_idx m p"
  shows "pt_wf m l (pt_child m p i)" and "p \<notin> ptnodes m l (pt_child m p i)"
    and "ptnodes m l (pt_child m p i) \<subseteq> ptnodes m (Suc l) p"
    and "\<And>j. j \<in> pt_idx m p \<Longrightarrow> i \<noteq> j \<Longrightarrow>
      ptnodes m l (pt_child m p i) \<inter> ptnodes m l (pt_child m p j) = {}"
  using assms by auto

lemma pte_at_leaf_ex:
  "pte_at m l p va = Some a \<Longrightarrow> \<exists>q\<in>ptleaves m l p. a = entry q (PX 0 va)"
proof (induction l arbitrary: p)
  case (Suc l)
  then show ?case by (fastforce split: if_splits)
qed simp

lemma pte_at_leaf:
  assumes "pte_at m l p va = Some a"
  obtains q where "q \<in> ptleaves m l p" and "a = entry q (PX 0 va)"
  using pte_at_leaf_ex [OF assms] by blast

text \<open>Tables of invalid entries: a zeroed page is an empty tree.\<close>

lemma pt_empty:
  assumes "pg_aligned p" and "\<And>a. a \<in> page p \<Longrightarrow> m a = 0"
  shows "ptnodes m l p = {p}" and "pt_wf m l p" and "pte_val m l p va = 0"
    and "pt_idx m p = {}"
proof -
  have z: "pte_of m p i = 0" if "i < 512" for i
    using ld64_page_frame [OF assms(1) that, of m "\<lambda>_. 0"] assms(2) by (simp add: ld64_def)
  then show idx: "pt_idx m p = {}"
    by (auto simp: pt_idx_def)
  show "ptnodes m l p = {p}"
    by (cases l) (simp_all add: idx)
  show "pt_wf m l p"
    by (cases l) (simp_all add: idx assms)
  show "pte_val m l p va = 0"
    by (cases l) (simp_all add: pte_val_def idx z)
qed

subsection \<open>Frames\<close>

lemma pt_idx_cong:
  assumes "pg_aligned p" and "\<And>a. a \<in> page p \<Longrightarrow> m' a = m a"
  shows "pt_idx m' p = pt_idx m p" and "i < 512 \<Longrightarrow> pt_child m' p i = pt_child m p i"
  using ld64_page_frame [OF assms(1) _ assms(2)] by (auto simp: pt_idx_def pt_child_def)

text \<open>The tree depends only on its inner nodes; leaf tables may change.\<close>

lemma pt_frame:
  assumes "pt_wf m l p"
    and "\<And>a. PGROUNDDOWN a \<in> ptnodes m l p - ptleaves m l p \<Longrightarrow> m' a = m a"
  shows "ptnodes m' l p = ptnodes m l p \<and> ptleaves m' l p = ptleaves m l p \<and> pt_wf m' l p \<and>
    (\<forall>va. pte_at m' l p va = pte_at m l p va)"
  using assms
proof (induction l arbitrary: p)
  case 0
  then show ?case by simp
next
  case (Suc l)
  have notleaf: "p \<notin> ptleaves m (Suc l) p"
    using Suc.prems(1) ptleaves_sub by fastforce
  have idx: "pt_idx m' p = pt_idx m p" and ch: "\<And>i. i \<in> pt_idx m p \<Longrightarrow> pt_child m' p i = pt_child m p i"
    using pt_idx_cong [of p m' m] Suc.prems notleaf
    by (auto simp: in_page_iff dest: pt_idxD pt_wf_aligned)
  have inner: "x \<in> ptnodes m (Suc l) p - ptleaves m (Suc l) p"
    if i: "i \<in> pt_idx m p"
      and x: "x \<in> ptnodes m l (pt_child m p i) - ptleaves m l (pt_child m p i)" for i x
  proof -
    have "x \<notin> ptleaves m l (pt_child m p j)" if "j \<in> pt_idx m p" for j
      using x that pt_wf_child(4) [OF Suc.prems(1) i, of j]
        ptleaves_sub [of m l "pt_child m p j"] by blast
    with i x show ?thesis by auto
  qed
  have IH: "ptnodes m' l (pt_child m p i) = ptnodes m l (pt_child m p i) \<and>
      ptleaves m' l (pt_child m p i) = ptleaves m l (pt_child m p i) \<and> pt_wf m' l (pt_child m p i) \<and>
      (\<forall>va. pte_at m' l (pt_child m p i) va = pte_at m l (pt_child m p i) va)"
    if "i \<in> pt_idx m p" for i
    using Suc.IH [of "pt_child m p i"] pt_wf_child(1) [OF Suc.prems(1) that] inner [OF that]
      Suc.prems(2) by blast
  then show ?case
    using Suc.prems(1) by (auto simp: idx ch)
qed

lemma pt_frame_all:
  assumes "pt_wf m l p" and "\<And>a. PGROUNDDOWN a \<in> ptnodes m l p \<Longrightarrow> m' a = m a"
  shows "ptnodes m' l p = ptnodes m l p" and "pt_wf m' l p" and "pte_val m' l p va = pte_val m l p va"
    and "pte_at m' l p va = pte_at m l p va" and "ptleaves m' l p = ptleaves m l p"
proof -
  have f: "ptnodes m' l p = ptnodes m l p \<and> ptleaves m' l p = ptleaves m l p \<and> pt_wf m' l p \<and>
    (\<forall>va. pte_at m' l p va = pte_at m l p va)"
    using assms by (intro pt_frame) auto
  then show "ptnodes m' l p = ptnodes m l p" "pt_wf m' l p" "pte_at m' l p va = pte_at m l p va"
    "ptleaves m' l p = ptleaves m l p"
    by auto
  have "ld64 m' a = ld64 m a" if "pte_at m l p va = Some a" for a
  proof -
    from that obtain q where q: "q \<in> ptleaves m l p" "a = entry q (PX 0 va)"
      by (rule pte_at_leaf)
    have qn: "q \<in> ptnodes m l p"
      using q(1) ptleaves_sub by blast
    show ?thesis
      unfolding q(2)
    proof (rule ld64_page_frame)
      show "pg_aligned q"
        using qn by (rule pt_wf_nodes_aligned [OF assms(1)])
      show "m' a = m a" if "a \<in> page q" for a
        using that qn by (intro assms(2)) (simp add: in_page_iff)
    qed simp
  qed
  then show "pte_val m' l p va = pte_val m l p va"
    using f by (auto simp: pte_val_def split: option.split)
qed

subsection \<open>Distinct pages have distinct entries\<close>

lemma pte_at_inject:
  assumes "pt_wf m l p" and "pte_at m l p va = Some a" and "pte_at m l p va' = Some a'"
    and "k \<le> l" and "PX k va \<noteq> PX k va'"
  shows "span8 a \<inter> span8 a' = {}"
  using assms
proof (induction l arbitrary: p)
  case 0
  then show ?case
    using entry_span_disjoint [of p "PX 0 va" "PX 0 va'"] by simp
next
  case (Suc l)
  let ?i = "PX (Suc l) va" and ?j = "PX (Suc l) va'"
  from Suc.prems have ij: "?i \<in> pt_idx m p" "?j \<in> pt_idx m p"
    "pte_at m l (pt_child m p ?i) va = Some a" "pte_at m l (pt_child m p ?j) va' = Some a'"
    by (auto split: if_splits)
  show ?case
  proof (cases "?i = ?j")
    case True
    with Suc.prems(4,5) have "k \<le> l"
      by (metis le_SucE)
    with Suc.IH [OF pt_wf_child(1) [OF Suc.prems(1) ij(1)] ij(3)] ij(4) True Suc.prems(5)
    show ?thesis by simp
  next
    case False
    from ij(3) obtain q where q: "q \<in> ptleaves m l (pt_child m p ?i)" "a = entry q (PX 0 va)"
      by (rule pte_at_leaf)
    from ij(4) obtain q' where q': "q' \<in> ptleaves m l (pt_child m p ?j)" "a' = entry q' (PX 0 va')"
      by (rule pte_at_leaf)
    have nodes: "q \<in> ptnodes m l (pt_child m p ?i)" "q' \<in> ptnodes m l (pt_child m p ?j)"
      using q(1) q'(1) ptleaves_sub by blast+
    then have "q \<noteq> q'"
      using pt_wf_child(4) [OF Suc.prems(1) ij(1,2) False] by blast
    moreover have "pg_aligned q" "pg_aligned q'"
      using nodes pt_wf_child(1) [OF Suc.prems(1)] ij(1,2) pt_wf_nodes_aligned by blast+
    ultimately show ?thesis
      using entry_span_in_page [of q "PX 0 va"] entry_span_in_page [of q' "PX 0 va'"]
        pages_disjoint [of q q'] by (auto simp: q(2) q'(2))
  qed
qed

text \<open>Writing one leaf entry changes the entry of its own page only.\<close>

lemma pte_val_update:
  assumes "pt_wf m l p" and "pte_at m l p va = Some a" and m'_def: "m' = st64 m a v"
  shows "ptnodes m' l p = ptnodes m l p" and "pt_wf m' l p"
    and "pte_val m' l p va = v"
    and "k \<le> l \<Longrightarrow> PX k va' \<noteq> PX k va \<Longrightarrow> pte_val m' l p va' = pte_val m l p va'"
    and "pte_at m' l p va' = pte_at m l p va'"
    and "PGROUNDDOWN x \<notin> ptnodes m l p \<Longrightarrow> m' x = m x"
proof -
  from assms(2) obtain q where q: "q \<in> ptleaves m l p" "a = entry q (PX 0 va)"
    by (rule pte_at_leaf)
  then have qn: "q \<in> ptnodes m l p"
    using ptleaves_sub by blast
  then have al: "pg_aligned q"
    by (rule pt_wf_nodes_aligned [OF assms(1)])
  have out: "m' x = m x" if "PGROUNDDOWN x \<noteq> q" for x
    using that al by (simp add: m'_def q(2) st64_page_frame in_page_iff)
  have f: "ptnodes m' l p = ptnodes m l p \<and> ptleaves m' l p = ptleaves m l p \<and> pt_wf m' l p \<and>
    (\<forall>va. pte_at m' l p va = pte_at m l p va)"
    by (intro pt_frame assms(1) out) (use q(1) in blast)
  then show "ptnodes m' l p = ptnodes m l p" "pt_wf m' l p" "pte_at m' l p va' = pte_at m l p va'"
    by auto
  show "pte_val m' l p va = v"
    using f assms(2) by (simp add: pte_val_def m'_def)
  show "m' x = m x" if "PGROUNDDOWN x \<notin> ptnodes m l p"
    using that qn by (intro out) auto
  show "pte_val m' l p va' = pte_val m l p va'" if "k \<le> l" "PX k va' \<noteq> PX k va"
  proof (cases "pte_at m l p va'")
    case None
    with f show ?thesis by (simp add: pte_val_def)
  next
    case (Some a')
    have "span8 a' \<inter> span8 a = {}"
      using pte_at_inject [OF assms(1) Some assms(2) that] .
    with f Some show ?thesis
      using ld64_st64_disjoint [of a a' m v] by (simp add: pte_val_def m'_def Int_commute)
  qed
qed

subsection \<open>Growing a tree\<close>

lemma pte_val_Suc:
  "pte_val m (Suc l) p va =
    (if PX (Suc l) va \<in> pt_idx m p then pte_val m l (pt_child m p (PX (Suc l) va)) va else 0)"
  by (simp add: pte_val_def)

text \<open>A change confined to one subtree and to pages outside the tree.\<close>

lemma pt_child_update:
  assumes wf: "pt_wf m (Suc l) p" and i: "i \<in> pt_idx m p" and c: "c = pt_child m p i"
    and outside: "\<forall>a. PGROUNDDOWN a \<notin> ptnodes m l c \<union> F \<longrightarrow> m' a = m a"
    and F: "F \<inter> ptnodes m (Suc l) p = {}"
    and wf': "pt_wf m' l c" and sub: "ptnodes m l c \<subseteq> ptnodes m' l c"
    and sup: "ptnodes m' l c \<subseteq> ptnodes m l c \<union> F"
  shows "pt_wf m' (Suc l) p"
    and "ptnodes m' (Suc l) p = ptnodes m (Suc l) p \<union> ptnodes m' l c"
    and "pte_val m' (Suc l) p va =
      (if PX (Suc l) va = i then pte_val m' l c va else pte_val m (Suc l) p va)"
    and "pt_idx m' p = pt_idx m p" and "pt_child m' p i = c"
proof -
  have out: "m' a = m a" if "PGROUNDDOWN a \<notin> ptnodes m l c \<union> F" for a
    using outside that by blast
  have pout: "p \<notin> ptnodes m l c \<union> F"
    using pt_wf_child(2) [OF wf i] F by (auto simp: c)
  have page_p: "m' a = m a" if "a \<in> page p" for a
    using that pout by (intro out) (simp add: in_page_iff)
  have idx: "pt_idx m' p = pt_idx m p"
    and ch: "\<And>j. j < 512 \<Longrightarrow> pt_child m' p j = pt_child m p j"
    using pt_idx_cong [OF pt_wf_aligned [OF wf] page_p] by auto
  have chc: "pt_child m' p j = (if j = i then c else pt_child m p j)" if "j \<in> pt_idx m p" for j
    using that ch [of j] by (auto simp: c dest: pt_idxD)
  have other: "ptnodes m l (pt_child m p j) \<inter> (ptnodes m l c \<union> F) = {}"
    if "j \<in> pt_idx m p" "j \<noteq> i" for j
    using pt_wf_child(3,4) [OF wf, of j] that i F unfolding c by blast
  have fr: "\<And>a. PGROUNDDOWN a \<in> ptnodes m l (pt_child m p j) \<Longrightarrow> m' a = m a"
    if "j \<in> pt_idx m p" "j \<noteq> i" for j
    using other [OF that] by (intro out) blast
  have oth: "ptnodes m' l (pt_child m p j) = ptnodes m l (pt_child m p j)"
    "pt_wf m' l (pt_child m p j)"
    "\<And>va. pte_val m' l (pt_child m p j) va = pte_val m l (pt_child m p j) va"
    if "j \<in> pt_idx m p" "j \<noteq> i" for j
    using pt_frame_all [OF pt_wf_child(1) [OF wf that(1)] fr [OF that]] by auto
  show "pt_idx m' p = pt_idx m p" "pt_child m' p i = c"
    using idx chc [OF i] by auto
  have nodes': "ptnodes m' l (pt_child m' p j) =
      (if j = i then ptnodes m' l c else ptnodes m l (pt_child m p j))" if "j \<in> pt_idx m p" for j
    using that oth(1) by (simp add: chc)
  show nodes: "ptnodes m' (Suc l) p = ptnodes m (Suc l) p \<union> ptnodes m' l c"
    using i sub nodes' by (auto simp: idx c split: if_splits)
  have "pt_wf m' l (pt_child m' p j)" if "j \<in> pt_idx m p" for j
    using that oth(2) wf' by (simp add: chc)
  moreover have "p \<notin> ptnodes m' l (pt_child m' p j)" if "j \<in> pt_idx m p" for j
    using that pout sup pt_wf_child(2) [OF wf that] by (auto simp: nodes' split: if_splits)
  moreover have "ptnodes m' l (pt_child m' p j) \<inter> ptnodes m' l (pt_child m' p k) = {}"
    if jk: "j \<in> pt_idx m p" "k \<in> pt_idx m p" "j \<noteq> k" for j k
  proof -
    have "ptnodes m l (pt_child m p j) \<inter> ptnodes m l (pt_child m p k) = {}"
      by (rule pt_wf_child(4) [OF wf jk])
    then show ?thesis
      using nodes' [OF jk(1)] nodes' [OF jk(2)] other [OF jk(1)] other [OF jk(2)] jk(3) sup
      by (auto split: if_splits)
  qed
  ultimately show "pt_wf m' (Suc l) p"
    using pt_wf_aligned [OF wf] by (simp add: idx)
  show "pte_val m' (Suc l) p va =
      (if PX (Suc l) va = i then pte_val m' l c va else pte_val m (Suc l) p va)"
    using i oth(3) by (auto simp: pte_val_Suc idx chc)
qed

text \<open>Linking a zeroed page under an invalid entry.\<close>

lemma pt_link:
  assumes wf: "pt_wf m (Suc l) p" and i: "i < 512" "i \<notin> pt_idx m p"
    and q: "q \<notin> ptnodes m (Suc l) p" "pg_aligned q" "q < 2 ^ 56"
    and m1: "m1 = st64 (\<lambda>a. if a \<in> page q then 0 else m a) (entry p i) (PA2PTE q OR PTE_V)"
  shows "pt_wf m1 (Suc l) p" and "ptnodes m1 (Suc l) p = insert q (ptnodes m (Suc l) p)"
    and "pte_val m1 (Suc l) p va = pte_val m (Suc l) p va"
    and "i \<in> pt_idx m1 p" and "pt_child m1 p i = q"
proof -
  have al: "pg_aligned p"
    by (rule pt_wf_aligned [OF wf])
  have pq: "p \<noteq> q"
    using q(1) by auto
  have outp: "m1 a = (if a \<in> page q then 0 else m a)" if "a \<notin> page p" for a
    using that al i(1) by (simp add: m1 st64_page_frame)
  have qz: "m1 a = 0" if "a \<in> page q" for a
    using that pq outp [of a] by (simp add: in_page_iff)
  have self: "pte_of m1 p i = PA2PTE q OR PTE_V"
    by (simp add: m1)
  have oth: "pte_of m1 p j = pte_of m p j" if "j < 512" "j \<noteq> i" for j
  proof -
    have "pte_of m1 p j = ld64 (\<lambda>a. if a \<in> page q then 0 else m a) (entry p j)"
      using that i(1) al by (simp add: m1)
    also have "\<dots> = pte_of m p j"
      using that(1) al pages_disjoint [OF pq] by (intro ld64_page_frame) auto
    finally show ?thesis .
  qed
  show idx_i: "i \<in> pt_idx m1 p"
    using i(1) self by (simp add: pt_idx_def pvalid_def)
  have idx: "pt_idx m1 p = insert i (pt_idx m p)"
  proof -
    have "j \<in> pt_idx m1 p \<longleftrightarrow> j = i \<or> j \<in> pt_idx m p" for j
      using idx_i oth [of j] by (cases "j = i") (auto simp: pt_idx_def)
    then show ?thesis by blast
  qed
  have "PTE2PA (PA2PTE q OR PTE_V) = q"
    using q by (intro PTE2PA_PA2PTE) simp_all
  then show chi: "pt_child m1 p i = q"
    by (simp add: pt_child_def self)
  have ne: "j \<noteq> i" "j < 512" if "j \<in> pt_idx m p" for j
    using that i(2) by (auto dest: pt_idxD)
  have ch: "pt_child m1 p j = pt_child m p j" if "j \<in> pt_idx m p" for j
    using ne [OF that] oth by (simp add: pt_child_def)
  note e = pt_empty [where m = m1, OF q(2) qz]
  have fr: "m1 a = m a" if j: "j \<in> pt_idx m p" and a: "PGROUNDDOWN a \<in> ptnodes m l (pt_child m p j)" for j a
  proof -
    have "PGROUNDDOWN a \<noteq> p" "PGROUNDDOWN a \<noteq> q"
      using a q(1) pt_wf_child(2,3) [OF wf j] by auto
    then show ?thesis
      by (simp add: outp in_page_iff)
  qed
  have sub: "ptnodes m1 l (pt_child m p j) = ptnodes m l (pt_child m p j)"
    "pt_wf m1 l (pt_child m p j)"
    "\<And>va. pte_val m1 l (pt_child m p j) va = pte_val m l (pt_child m p j) va"
    if "j \<in> pt_idx m p" for j
    using pt_frame_all [OF pt_wf_child(1) [OF wf that] fr [OF that]] by auto
  show "ptnodes m1 (Suc l) p = insert q (ptnodes m (Suc l) p)"
    by (auto simp: idx ch chi sub e)
  have "q \<notin> ptnodes m l (pt_child m p j)" if "j \<in> pt_idx m p" for j
    using q(1) that by auto
  then show "pt_wf m1 (Suc l) p"
    using wf pq by (auto simp: idx ch chi sub e)
  show "pte_val m1 (Suc l) p va = pte_val m (Suc l) p va"
    using i(2) by (auto simp: pte_val_Suc idx ch chi sub e)
qed

section \<open>Page tables of the allocator\<close>

text \<open>The pages of a table are allocated, and nobody else holds a reference to them.\<close>

definition pt_ok :: "'a kmem_state_scheme \<Rightarrow> nat \<Rightarrow> uint64 \<Rightarrow> bool" where
  "pt_ok s l p \<longleftrightarrow> pt_wf (phys s) l p \<and> ptnodes (phys s) l p \<subseteq> owned_pages s"

text \<open>\<open>grows l p s s'\<close>: between \<open>s\<close> and \<open>s'\<close> the table \<open>p\<close> has at most taken free pages as new nodes, and
  only its nodes have been written.\<close>

definition grows :: "nat \<Rightarrow> uint64 \<Rightarrow> 'a kmem_state_scheme \<Rightarrow> 'a kmem_state_scheme \<Rightarrow> bool" where
  "grows l p s s' \<longleftrightarrow> kmem_wf s' \<and> pt_ok s' l p \<and> kend s' = kend s \<and>
     kmem_state.more s' = kmem_state.more s \<and>
     ptnodes (phys s) l p \<subseteq> ptnodes (phys s') l p \<and>
     ptnodes (phys s') l p \<subseteq> ptnodes (phys s) l p \<union> free_pages s \<and>
     free_pages s' = free_pages s - ptnodes (phys s') l p \<and>
     owned_pages s' = owned_pages s \<union> ptnodes (phys s') l p \<and>
     (\<forall>a. PGROUNDDOWN a \<notin> ptnodes (phys s) l p \<union> free_pages s \<longrightarrow> phys s' a = phys s a)"

lemma pt_okD:
  assumes "pt_ok s l p"
  shows "pt_wf (phys s) l p" and "ptnodes (phys s) l p \<subseteq> owned_pages s"
    and "ptnodes (phys s) l p \<inter> free_pages s = {}"
  using assms by (auto simp: pt_ok_def owned_pages_def free_pages_def)

lemma growsD:
  assumes "grows l p s s'"
  shows "kmem_wf s'" and "pt_ok s' l p" and "kend s' = kend s"
    and "kmem_state.more s' = kmem_state.more s"
    and "ptnodes (phys s) l p \<subseteq> ptnodes (phys s') l p"
    and "ptnodes (phys s') l p \<subseteq> ptnodes (phys s) l p \<union> free_pages s"
    and "free_pages s' = free_pages s - ptnodes (phys s') l p"
    and "owned_pages s' = owned_pages s \<union> ptnodes (phys s') l p"
    and "PGROUNDDOWN a \<notin> ptnodes (phys s) l p \<union> free_pages s \<Longrightarrow> phys s' a = phys s a"
  using assms unfolding grows_def by blast+

lemma grows_refl: "kmem_wf s \<Longrightarrow> pt_ok s l p \<Longrightarrow> grows l p s s"
  using pt_okD [of s l p] unfolding grows_def by blast

lemma grows_trans:
  assumes "grows l p s s1" and "grows l p s1 s2"
  shows "grows l p s s2"
proof -
  note a = growsD [OF assms(1)] and b = growsD [OF assms(2)]
  have "phys s2 x = phys s x" if "PGROUNDDOWN x \<notin> ptnodes (phys s) l p \<union> free_pages s" for x
  proof -
    have "PGROUNDDOWN x \<notin> ptnodes (phys s1) l p \<union> free_pages s1"
      using that a(6,7) by blast
    with that a(9) b(9) show ?thesis by metis
  qed
  moreover have "free_pages s2 = free_pages s - ptnodes (phys s2) l p"
    using a(7) b(5,7) by blast
  moreover have "owned_pages s2 = owned_pages s \<union> ptnodes (phys s2) l p"
    using a(8) b(5,8) by blast
  moreover have "ptnodes (phys s2) l p \<subseteq> ptnodes (phys s) l p \<union> free_pages s"
    using a(6,7) b(6) by blast
  ultimately show ?thesis
    using a(3,4,5) b(1-5) unfolding grows_def by auto
qed

lemma entry_nonzero:
  assumes "pg_aligned q" and "i < 512" and "q \<noteq> 0"
  shows "entry q i \<noteq> 0"
  using unat_entry [OF assms(1,2), of 0] assms(3) by (auto simp: word_unat_eq_iff)

lemma pte_at_nonzero:
  assumes "kmem_wf s" and "pt_ok s l p" and "pte_at (phys s) l p va = Some a"
  shows "a \<noteq> 0"
proof -
  from assms(3) obtain q where q: "q \<in> ptleaves (phys s) l p" "a = entry q (PX 0 va)"
    by (rule pte_at_leaf)
  have "page_ok s q"
    using q(1) ptleaves_sub pt_okD(2) [OF assms(2)] by (fastforce simp: owned_pages_def)
  then show ?thesis
    using q(2) page_ok_nonzero [OF assms(1)] entry_nonzero by (simp add: page_ok_def)
qed

lemma walk_loop_ro:
  "walk_loop l p va False s =
     Ok (case pte_at (phys s) l p va of None \<Rightarrow> 0 | Some a \<Rightarrow> a, s)"
  by (induction l arbitrary: p)
    (simp_all add: Let_def get_pte_def PX_in_pt_idx pvalid_def pt_child_def)

lemma walk_ro:
  "va < MAXVA \<Longrightarrow> walk pt va False s =
     Ok (case pte_at (phys s) 2 pt va of None \<Rightarrow> 0 | Some a \<Rightarrow> a, s)"
  by (simp add: walk_def walk_loop_ro not_le)

text \<open>A walk into a subtree grows the whole tree.\<close>

lemma grows_child:
  assumes ok: "pt_ok s (Suc l) p" and i: "i \<in> pt_idx (phys s) p"
    and c: "c = pt_child (phys s) p i" and g: "grows l c s s'"
    and v: "\<And>va. pte_val (phys s') l c va = pte_val (phys s) l c va"
  shows "grows (Suc l) p s s'" and "pte_val (phys s') (Suc l) p va = pte_val (phys s) (Suc l) p va"
    and "PX (Suc l) va = i \<Longrightarrow> pte_at (phys s') (Suc l) p va = pte_at (phys s') l c va"
proof -
  note wf = pt_okD(1) [OF ok]
  have sub: "ptnodes (phys s) l c \<subseteq> ptnodes (phys s) (Suc l) p"
    using pt_wf_child(3) [OF wf i] by (simp add: c)
  have F: "free_pages s \<inter> ptnodes (phys s) (Suc l) p = {}"
    using pt_okD(3) [OF ok] by blast
  have out: "\<forall>a. PGROUNDDOWN a \<notin> ptnodes (phys s) l c \<union> free_pages s \<longrightarrow> phys s' a = phys s a"
    using growsD(9) [OF g] by blast
  note u = pt_child_update [OF wf i c out F pt_okD(1) [OF growsD(2) [OF g]]
      growsD(5,6) [OF g]]
  show "pte_val (phys s') (Suc l) p va = pte_val (phys s) (Suc l) p va"
    unfolding u(3) using i c v by (simp add: pte_val_Suc)
  show "pte_at (phys s') (Suc l) p va = pte_at (phys s') l c va" if "PX (Suc l) va = i"
    using that u(4,5) i by simp
  have fr: "phys s' a = phys s a" if "PGROUNDDOWN a \<notin> ptnodes (phys s) (Suc l) p \<union> free_pages s" for a
    using that sub by (intro growsD(9) [OF g]) blast
  have nodes: "ptnodes (phys s') (Suc l) p \<subseteq> owned_pages s'"
    using u(2) pt_okD(2) [OF ok] growsD(8) [OF g] by blast
  then have "pt_ok s' (Suc l) p"
    using u(1) by (simp add: pt_ok_def)
  moreover have "free_pages s' = free_pages s - ptnodes (phys s') (Suc l) p"
    using u(2) F growsD(7) [OF g] by blast
  moreover have "owned_pages s' = owned_pages s \<union> ptnodes (phys s') (Suc l) p"
    using u(2) pt_okD(2) [OF ok] growsD(8) [OF g] by blast
  moreover have "ptnodes (phys s') (Suc l) p \<subseteq> ptnodes (phys s) (Suc l) p \<union> free_pages s"
    using u(2) growsD(6) [OF g] sub by blast
  ultimately show "grows (Suc l) p s s'"
    using fr growsD(1,3,4) [OF g] u(2) unfolding grows_def by blast
qed

text \<open>Taking a free page as a new, empty node.\<close>

lemma owned_page_lt: "x \<in> owned_pages s \<Longrightarrow> x < 2 ^ 56"
  by (simp add: owned_pages_def page_ok_def word_less_nat_alt)

lemma kmem_frame:
  assumes "kend s' = kend s" and "refcount s' = refcount s"
  shows "free_pages s' = free_pages s" and "owned_pages s' = owned_pages s"
  using assms by (auto simp: free_pages_def owned_pages_def page_ok_def)

lemma kalloc_zero_page:
  assumes "kmem_wf s" and "kalloc s = Ok (q, s1)" and "q \<noteq> 0"
  shows "kmem_wf (zero_page q s1)" and "kend (zero_page q s1) = kend s"
    and "kmem_state.more (zero_page q s1) = kmem_state.more s"
    and "free_pages (zero_page q s1) = free_pages s - {q}"
    and "owned_pages (zero_page q s1) = insert q (owned_pages s)"
    and "phys (zero_page q s1) = (\<lambda>a. if a \<in> page q then 0 else phys s a)"
    and "q \<in> free_pages s" and "pg_aligned q"
proof -
  note k = kalloc_wf [OF assms(1,2)]
  show q: "q \<in> free_pages s" "pg_aligned q"
    using k(4) assms(3) by (auto simp: free_pages_def page_ok_def)
  show ph: "phys (zero_page q s1) = (\<lambda>a. if a \<in> page q then 0 else phys s a)"
    using q(2) by (auto simp: zero_page_def memset_page k(8))
  have same: "kend (zero_page q s1) = kend s1" "freelist (zero_page q s1) = freelist s1"
    "refcount (zero_page q s1) = refcount s1" "kmem_state.more (zero_page q s1) = kmem_state.more s1"
    by (simp_all add: zero_page_def)
  show "kmem_wf (zero_page q s1)"
  proof (rule kmem_wf_frame [OF k(1) same(1-3)])
    fix x a
    assume "x \<in> free_pages s1" and "a \<in> page x"
    then have "a \<notin> page q"
      using k(6) assms(3) pages_disjoint [of x q] by auto
    then show "phys (zero_page q s1) a = phys s1 a"
      unfolding ph by (simp add: k(8))
  qed
  show "kend (zero_page q s1) = kend s" "kmem_state.more (zero_page q s1) = kmem_state.more s"
    using same k(2,3) by simp_all
  show "free_pages (zero_page q s1) = free_pages s - {q}"
    "owned_pages (zero_page q s1) = insert q (owned_pages s)"
    using kmem_frame [OF same(1,3)] k(6,7) assms(3) by simp_all
qed

lemma set_pte_wf:
  assumes "kmem_wf s" and "q \<in> owned_pages s" and "i < 512"
  shows "kmem_wf (set_pte (entry q i) v s)"
    and "free_pages (set_pte pte v s) = free_pages s"
    and "owned_pages (set_pte pte v s) = owned_pages s"
    and "PGROUNDDOWN a \<noteq> q \<Longrightarrow> phys (set_pte (entry q i) v s) a = phys s a"
proof -
  have q: "pg_aligned q" "q \<notin> free_pages s"
    using assms(2) by (auto simp: owned_pages_def free_pages_def page_ok_def)
  show out: "phys (set_pte (entry q i) v s) a = phys s a" if "PGROUNDDOWN a \<noteq> q" for a
    using that st64_page_frame [OF q(1) assms(3)] by (simp add: set_pte_def in_page_iff)
  show "kmem_wf (set_pte (entry q i) v s)"
  proof (rule kmem_wf_frame [OF assms(1)])
    show "phys (set_pte (entry q i) v s) a = phys s a" if "x \<in> free_pages s" "a \<in> page x" for x a
      using that q(2) by (intro out) (auto simp: in_page_iff)
  qed (simp_all add: set_pte_def)
  show "free_pages (set_pte pte v s) = free_pages s" "owned_pages (set_pte pte v s) = owned_pages s"
    by (rule kmem_frame; simp add: set_pte_def)+
qed

lemma grows_link:
  assumes wf: "kmem_wf s" and ok: "pt_ok s (Suc l) p" and i: "i < 512" "i \<notin> pt_idx (phys s) p"
    and k: "kalloc s = Ok (q, s1)" and q: "q \<noteq> 0"
  defines "s2 \<equiv> set_pte (entry p i) (PA2PTE q OR PTE_V) (zero_page q s1)"
  shows "grows (Suc l) p s s2" and "pte_val (phys s2) (Suc l) p va = pte_val (phys s) (Suc l) p va"
    and "i \<in> pt_idx (phys s2) p" and "pt_child (phys s2) p i = q"
proof -
  note z = kalloc_zero_page [OF wf k q]
  have qn: "q \<notin> ptnodes (phys s) (Suc l) p"
    using z(7) pt_okD(3) [OF ok] by blast
  have lt: "q < 2 ^ 56"
    using z(5) by (intro owned_page_lt [of q "zero_page q s1"]) simp
  have p2: "phys s2 = st64 (\<lambda>a. if a \<in> page q then 0 else phys s a) (entry p i) (PA2PTE q OR PTE_V)"
    by (simp add: s2_def set_pte_def z(6))
  note L = pt_link [OF pt_okD(1) [OF ok] i qn z(8) lt p2]
  show "pte_val (phys s2) (Suc l) p va = pte_val (phys s) (Suc l) p va"
    "i \<in> pt_idx (phys s2) p" "pt_child (phys s2) p i = q"
    by (rule L)+
  have p: "p \<in> owned_pages (zero_page q s1)"
    using z(5) pt_okD(2) [OF ok] by auto
  note sp = set_pte_wf [OF z(1) p i(1), folded s2_def]
  have "phys s2 a = phys s a" if "PGROUNDDOWN a \<notin> ptnodes (phys s) (Suc l) p \<union> free_pages s" for a
  proof -
    have "PGROUNDDOWN a \<noteq> p" "a \<notin> page q"
      using that z(7) by (auto simp: in_page_iff)
    then show ?thesis
      using sp(4) by (simp add: s2_def z(6))
  qed
  moreover have "free_pages s2 = free_pages s - {q}" "owned_pages s2 = insert q (owned_pages s)"
    using sp(2,3) z(4,5) by (simp_all add: s2_def)
  moreover have "kend s2 = kend s" "kmem_state.more s2 = kmem_state.more s"
    using z(2,3) by (simp_all add: s2_def set_pte_def)
  moreover have "kmem_wf s2"
    unfolding s2_def by (rule sp(1))
  ultimately show "grows (Suc l) p s s2"
    using L(1) pt_okD(2,3) [OF ok] z(7) unfolding grows_def pt_ok_def L(2) by blast
qed

text \<open>
  \<open>walk\<close> with \<open>alloc\<close> set: it returns the address of the entry for \<open>va\<close>, or null when memory is
  exhausted, and in both cases the abstract page table is unchanged.
\<close>

lemma walk_loop_alloc:
  fixes s :: "'a kmem_state_scheme"
  assumes "kmem_wf s" and "pt_ok s l p"
  shows "\<exists>a s'. walk_loop l p va True s = Ok (a, s') \<and> grows l p s s' \<and>
    (\<forall>va'. pte_val (phys s') l p va' = pte_val (phys s) l p va') \<and>
    (if a = 0 then free_pages s' = {} else pte_at (phys s') l p va = Some a)"
  using assms
proof (induction l arbitrary: p s)
  case 0
  have "entry p (PX 0 va) \<noteq> 0"
    using pte_at_nonzero [OF 0] by simp
  with 0 show ?case
    by (simp add: grows_refl)
next
  case (Suc l)
  let ?i = "PX (Suc l) va"
  have descend: "\<exists>a s'. walk_loop l (pt_child (phys s) p ?i) va True s = Ok (a, s') \<and>
      grows (Suc l) p s s' \<and>
      (\<forall>va'. pte_val (phys s') (Suc l) p va' = pte_val (phys s) (Suc l) p va') \<and>
      (if a = 0 then free_pages s' = {} else pte_at (phys s') (Suc l) p va = Some a)"
    if s: "kmem_wf s" "pt_ok s (Suc l) p" "?i \<in> pt_idx (phys s) p" for s :: "'a kmem_state_scheme"
  proof -
    let ?c = "pt_child (phys s) p ?i"
    have "pt_ok s l ?c"
      using pt_wf_child [OF pt_okD(1) [OF s(2)] s(3)] pt_okD(2) [OF s(2)]
      unfolding pt_ok_def by blast
    from Suc.IH [OF s(1) this] obtain a s' where
      w: "walk_loop l ?c va True s = Ok (a, s')" "grows l ?c s s'"
        "\<And>va'. pte_val (phys s') l ?c va' = pte_val (phys s) l ?c va'"
        "if a = 0 then free_pages s' = {} else pte_at (phys s') l ?c va = Some a"
      by blast
    note g = grows_child [OF s(2,3) refl w(2,3)]
    have "if a = 0 then free_pages s' = {} else pte_at (phys s') (Suc l) p va = Some a"
      using w(4) g(3) by simp
    with w(1) g(1,2) show ?thesis
      by blast
  qed
  show ?case
  proof (cases "?i \<in> pt_idx (phys s) p")
    case True
    then have "walk_loop (Suc l) p va True s = walk_loop l (pt_child (phys s) p ?i) va True s"
      by (simp add: Let_def get_pte_def PX_in_pt_idx pvalid_def pt_child_def)
    with descend [OF Suc.prems True] show ?thesis
      by simp
  next
    case False
    then have inv: "pte_of (phys s) p ?i AND PTE_V = 0"
      by (simp add: PX_in_pt_idx pvalid_def)
    show ?thesis
    proof (cases "free_pages s = {}")
      case True
      then have "walk_loop (Suc l) p va True s = Ok (0, s)"
        using inv kalloc_empty [OF Suc.prems(1)] by (simp add: Let_def get_pte_def)
      with True Suc.prems show ?thesis
        by (simp add: grows_refl del: walk_loop.simps)
    next
      case ne: False
      from kalloc_nonempty [OF Suc.prems(1) ne] obtain q s1 where
        k: "kalloc s = Ok (q, s1)" "q \<noteq> 0"
        by blast
      let ?s2 = "set_pte (entry p ?i) (PA2PTE q OR PTE_V) (zero_page q s1)"
      have w: "walk_loop (Suc l) p va True s = walk_loop l q va True ?s2"
        using inv k by (simp add: Let_def get_pte_def)
      note L = grows_link [OF Suc.prems PX_less False k]
      from descend [OF growsD(1,2) [OF L(1)] L(3)] obtain a s' where
        d: "walk_loop l q va True ?s2 = Ok (a, s')" "grows (Suc l) p ?s2 s'"
          "\<And>va'. pte_val (phys s') (Suc l) p va' = pte_val (phys ?s2) (Suc l) p va'"
          "if a = 0 then free_pages s' = {} else pte_at (phys s') (Suc l) p va = Some a"
        unfolding L(4) by blast
      from w d(1,4) grows_trans [OF L(1) d(2)] d(3) L(2) show ?thesis
        by (simp del: walk_loop.simps)
    qed
  qed
qed

section \<open>The abstract page table\<close>

abbreviation pgtbl :: "'a kmem_state_scheme \<Rightarrow> uint64 \<Rightarrow> uint64 \<Rightarrow> uint64" where
  "pgtbl s pt va \<equiv> pte_val (phys s) 2 pt va"

lemma PX_PGROUNDDOWN [simp]: "PX l (PGROUNDDOWN va) = PX l va"
proof (rule bit_word_eqI)
  fix n :: nat
  assume "n < LENGTH(64)"
  show "bit (PX l (PGROUNDDOWN va)) n = bit (PX l va) n"
    unfolding PX_bit PGROUNDDOWN_def by (auto simp: bit_simps mask12 dest: bit_imp_le_length)
qed

lemma pte_at_PGROUNDDOWN [simp]: "pte_at m l p (PGROUNDDOWN va) = pte_at m l p va"
  by (induction l arbitrary: p) simp_all

lemma pte_val_PGROUNDDOWN [simp]: "pte_val m l p (PGROUNDDOWN va) = pte_val m l p va"
  by (simp add: pte_val_def)

lemma pte_val_same_page: "PGROUNDDOWN va = PGROUNDDOWN va' \<Longrightarrow> pte_val m l p va = pte_val m l p va'"
  by (metis pte_val_PGROUNDDOWN)

lemma PX_differ:
  assumes "va < MAXVA" and "va' < MAXVA" and "PGROUNDDOWN va \<noteq> PGROUNDDOWN va'"
  obtains k where "k \<le> 2" and "PX k va \<noteq> PX k va'"
proof -
  have "\<exists>k\<le>2. PX k va \<noteq> PX k va'"
  proof (rule ccontr)
    assume "\<not> ?thesis"
    then have "PX 2 va = PX 2 va'" "PX 1 va = PX 1 va'" "PX 0 va = PX 0 va'"
      by auto
    with PX_inject [OF assms(1,2)] assms(3) show False by blast
  qed
  with that show ?thesis by blast
qed

text \<open>Storing a leaf entry.\<close>

lemma set_leaf:
  assumes wf: "kmem_wf s" and ok: "pt_ok s 2 pt" and a: "pte_at (phys s) 2 pt va = Some a"
  shows "grows 2 pt s (set_pte a v s)"
    and "pt_ok (set_pte a v s) 2 pt"
    and "ptnodes (phys (set_pte a v s)) 2 pt = ptnodes (phys s) 2 pt"
    and "free_pages (set_pte a v s) = free_pages s"
    and "owned_pages (set_pte a v s) = owned_pages s"
    and "va < MAXVA \<Longrightarrow> va' < MAXVA \<Longrightarrow>
      pgtbl (set_pte a v s) pt va' =
        (if PGROUNDDOWN va' = PGROUNDDOWN va then v else pgtbl s pt va')"
    and "PGROUNDDOWN x \<notin> ptnodes (phys s) 2 pt \<Longrightarrow> phys (set_pte a v s) x = phys s x"
proof -
  have ph: "phys (set_pte a v s) = st64 (phys s) a v"
    by (simp add: set_pte_def)
  note u = pte_val_update [OF pt_okD(1) [OF ok] a ph]
  from a obtain q where q: "q \<in> ptleaves (phys s) 2 pt" "a = entry q (PX 0 va)"
    by (rule pte_at_leaf)
  then have "q \<in> owned_pages s"
    using ptleaves_sub pt_okD(2) [OF ok] by blast
  note w = set_pte_wf [OF wf this PX_less [of 0 va]]
  show fp: "free_pages (set_pte a v s) = free_pages s" "owned_pages (set_pte a v s) = owned_pages s"
    by (rule w)+
  show nodes: "ptnodes (phys (set_pte a v s)) 2 pt = ptnodes (phys s) 2 pt"
    by (rule u)
  show ok': "pt_ok (set_pte a v s) 2 pt"
    using u(2) pt_okD(2) [OF ok] by (simp add: pt_ok_def nodes fp)
  show fr: "phys (set_pte a v s) x = phys s x" if "PGROUNDDOWN x \<notin> ptnodes (phys s) 2 pt" for x
    by (rule u(6) [OF that])
  have "kmem_wf (set_pte a v s)"
    unfolding q(2) by (rule w(1))
  moreover have "kend (set_pte a v s) = kend s" "kmem_state.more (set_pte a v s) = kmem_state.more s"
    by (simp_all add: set_pte_def)
  ultimately show "grows 2 pt s (set_pte a v s)"
    using ok' fr pt_okD(2,3) [OF ok] unfolding grows_def nodes fp by blast
  show "pgtbl (set_pte a v s) pt va' = (if PGROUNDDOWN va' = PGROUNDDOWN va then v else pgtbl s pt va')"
    if "va < MAXVA" "va' < MAXVA"
  proof (cases "PGROUNDDOWN va' = PGROUNDDOWN va")
    case True
    then show ?thesis
      using u(3) pte_val_same_page [OF True] by simp
  next
    case False
    with that obtain k where "k \<le> 2" "PX k va' \<noteq> PX k va"
      by (metis PX_differ)
    with u(4) False show ?thesis
      by simp
  qed
qed

lemma walk_alloc:
  assumes "kmem_wf s" and "pt_ok s 2 pt" and "va < MAXVA"
  shows "\<exists>a s'. walk pt va True s = Ok (a, s') \<and> grows 2 pt s s' \<and>
    (\<forall>va'. pgtbl s' pt va' = pgtbl s pt va') \<and>
    (if a = 0 then free_pages s' = {} else pte_at (phys s') 2 pt va = Some a)"
  using walk_loop_alloc [OF assms(1,2), of va] assms(3) by (simp add: walk_def not_le)

lemma get_pte_at: "pte_at (phys s) 2 pt va = Some a \<Longrightarrow> get_pte s a = pgtbl s pt va"
  by (simp add: get_pte_def pte_val_def)

section \<open>mappages\<close>

text \<open>\<open>map_range f a n pa perm\<close>: the table \<open>f\<close> with \<open>n\<close> pages from \<open>a\<close> on mapped to those from \<open>pa\<close> on.\<close>

definition map_range :: "(uint64 \<Rightarrow> uint64) \<Rightarrow> uint64 \<Rightarrow> nat \<Rightarrow> uint64 \<Rightarrow> uint64 \<Rightarrow> uint64 \<Rightarrow> uint64" where
  "map_range f a n pa perm va =
     (if unat a \<le> unat va \<and> unat va < unat a + 4096 * n
      then PA2PTE (pa + (PGROUNDDOWN va - a)) OR perm OR PTE_V else f va)"

lemma map_range_0 [simp]: "map_range f a 0 pa perm = f"
  by (rule ext) (auto simp: map_range_def)

lemma map_range_Suc:
  assumes "unat (a + PGSIZE) = unat a + 4096"
  shows "map_range (map_range f a 1 pa perm) (a + PGSIZE) n (pa + PGSIZE) perm va =
    map_range f a (Suc n) pa perm va"
  unfolding map_range_def assms by (auto simp: algebra_simps)

lemma page_range_1:
  assumes "pg_aligned a" and "unat a + 4096 \<le> 2 ^ 64"
  shows "PGROUNDDOWN va = a \<longleftrightarrow> unat a \<le> unat va \<and> unat va < unat a + 4096"
proof -
  from assms(1) obtain k where k: "unat a = 4096 * k"
    by (rule pg_alignedE)
  have "PGROUNDDOWN va = a \<longleftrightarrow> unat va - unat va mod 4096 = 4096 * k"
    by (simp add: word_unat_eq_iff unat_PGROUNDDOWN k)
  also have "\<dots> \<longleftrightarrow> unat va div 4096 = k"
    by (simp add: minus_mod_eq_mult_div)
  also have "\<dots> \<longleftrightarrow> 4096 * k \<le> unat va \<and> unat va < 4096 * k + 4096"
    by (auto simp: div_nat_eqI intro: div_nat_eqI)
  finally show ?thesis
    by (simp add: k)
qed

lemma map_range_1:
  assumes "pg_aligned a" and "unat a + 4096 \<le> 2 ^ 64"
  shows "map_range f a 1 pa perm va =
    (if PGROUNDDOWN va = a then PA2PTE pa OR perm OR PTE_V else f va)"
  using page_range_1 [OF assms, of va]
  by (cases "PGROUNDDOWN va = a") (auto simp: map_range_def)

lemma mappages_step:
  assumes wf: "kmem_wf s" and ok: "pt_ok s 2 pt" and al: "pg_aligned a" and lt: "a < MAXVA"
    and inv: "\<not> pvalid (pgtbl s pt a)"
  obtains (nomem) s1 where "walk pt a True s = Ok (0, s1)" "grows 2 pt s s1" "free_pages s1 = {}"
      "\<And>va. pgtbl s1 pt va = pgtbl s pt va"
  | (mapped) pte s1 where "walk pt a True s = Ok (pte, s1)" "pte \<noteq> 0" "get_pte s1 pte AND PTE_V = 0"
      "grows 2 pt s (set_pte pte (PA2PTE pa OR perm OR PTE_V) s1)"
      "\<And>va. va < MAXVA \<Longrightarrow> pgtbl (set_pte pte (PA2PTE pa OR perm OR PTE_V) s1) pt va =
        map_range (pgtbl s pt) a 1 pa perm va"
proof -
  from walk_alloc [OF wf ok lt] obtain pte s1 where
    w: "walk pt a True s = Ok (pte, s1)" "grows 2 pt s s1"
      "\<And>va'. pgtbl s1 pt va' = pgtbl s pt va'"
      "if pte = 0 then free_pages s1 = {} else pte_at (phys s1) 2 pt a = Some pte"
    by blast
  show ?thesis
  proof (cases "pte = 0")
    case True
    with w show ?thesis by (intro nomem [of s1]) simp_all
  next
    case False
    with w(4) have at: "pte_at (phys s1) 2 pt a = Some pte"
      by simp
    let ?s2 = "set_pte pte (PA2PTE pa OR perm OR PTE_V) s1"
    note L = set_leaf [OF growsD(1,2) [OF w(2)] at]
    have "unat a + 4096 \<le> 2 ^ 64"
      using lt by (simp add: word_less_nat_alt)
    then have "pgtbl ?s2 pt va = map_range (pgtbl s pt) a 1 pa perm va" if "va < MAXVA" for va
      unfolding L(6) [OF lt that] map_range_1 [OF al \<open>unat a + 4096 \<le> 2 ^ 64\<close>] using al w(3) by simp
    moreover have "grows 2 pt s ?s2"
      using grows_trans [OF w(2) L(1)] .
    moreover have "get_pte s1 pte AND PTE_V = 0"
      using inv by (simp add: get_pte_at [OF at] w(3) pvalid_def)
    ultimately show ?thesis
      using mapped [OF w(1) False] by blast
  qed
qed

lemma mappages_loop_ok:
  assumes "kmem_wf s" and "pt_ok s 2 pt" and "pg_aligned a" and "unat a + 4096 * n < unat MAXVA"
    and "lst = a + of_nat n * PGSIZE"
    and "\<And>va. va < MAXVA \<Longrightarrow> unat a \<le> unat va \<Longrightarrow> unat va < unat a + 4096 * Suc n \<Longrightarrow>
      \<not> pvalid (pgtbl s pt va)"
  shows "\<exists>s' j. mappages_loop pt a lst pa perm s = Ok (if j = Suc n then 0 else -1, s') \<and>
    j \<le> Suc n \<and> grows 2 pt s s' \<and> (j \<noteq> Suc n \<longrightarrow> free_pages s' = {}) \<and>
    (\<forall>va<MAXVA. pgtbl s' pt va = map_range (pgtbl s pt) a j pa perm va)"
  using assms
proof (induction n arbitrary: a pa s)
  case 0
  have lt: "a < MAXVA" and inv: "\<not> pvalid (pgtbl s pt a)"
    using 0(4) 0(6) [of a] by (simp_all add: word_less_nat_alt)
  show ?case
    using 0(1-3) lt inv
  proof (cases rule: mappages_step [where pa = pa and perm = perm])
    case (nomem s1)
    then have "mappages_loop pt a lst pa perm s = Ok (-1, s1)"
      by (simp add: mappages_loop.simps [of pt a])
    with nomem show ?thesis by (intro exI [of _ s1] exI [of _ 0]) simp
  next
    case (mapped pte s1)
    then have "mappages_loop pt a lst pa perm s =
        Ok (0, set_pte pte (PA2PTE pa OR perm OR PTE_V) s1)"
      using 0(5) by (simp add: mappages_loop.simps [of pt a] Let_def)
    with mapped show ?thesis
      by (intro exI [of _ "set_pte pte (PA2PTE pa OR perm OR PTE_V) s1"] exI [of _ "Suc 0"]) simp
  qed
next
  case (Suc n)
  have lt: "a < MAXVA" and inv: "\<not> pvalid (pgtbl s pt a)"
    using Suc.prems(4) Suc.prems(6) [of a] by (simp_all add: word_less_nat_alt)
  have b: "unat (a + PGSIZE) = unat a + 4096" "pg_aligned (a + PGSIZE)"
    using pg_aligned_next [OF Suc.prems(3)] Suc.prems(4) by simp_all
  have lst: "lst = (a + PGSIZE) + of_nat n * PGSIZE"
    using Suc.prems(5) by (simp add: algebra_simps)
  have "unat (of_nat (Suc n) * PGSIZE :: uint64) = 4096 * Suc n"
    using Suc.prems(4) by (simp add: unat_word_ariths unsigned_of_nat take_bit_nat_eq_self)
  then have "a \<noteq> lst"
    using Suc.prems(5) by (metis add_cancel_right_right mult_is_0 nat.distinct(1) numeral_eq_one_iff
        unsigned_0 zero_neq_numeral)
  show ?case
    using Suc.prems(1-3) lt inv
  proof (cases rule: mappages_step [where pa = pa and perm = perm])
    case (nomem s1)
    then have "mappages_loop pt a lst pa perm s = Ok (-1, s1)"
      by (simp add: mappages_loop.simps [of pt a])
    with nomem show ?thesis by (intro exI [of _ s1] exI [of _ 0]) simp
  next
    case (mapped pte s1)
    let ?s2 = "set_pte pte (PA2PTE pa OR perm OR PTE_V) s1"
    have loop: "mappages_loop pt a lst pa perm s =
        mappages_loop pt (a + PGSIZE) lst (pa + PGSIZE) perm ?s2"
      using mapped(1-3) \<open>a \<noteq> lst\<close> by (simp add: mappages_loop.simps [of pt a] Let_def)
    have inv2: "\<not> pvalid (pgtbl ?s2 pt va)"
      if "va < MAXVA" "unat (a + PGSIZE) \<le> unat va" "unat va < unat (a + PGSIZE) + 4096 * Suc n" for va
      using that mapped(5) [OF that(1)] Suc.prems(6) [OF that(1)] b(1) by (simp add: map_range_def)
    have "unat (a + PGSIZE) + 4096 * n < unat MAXVA"
      using Suc.prems(4) b(1) by simp
    from Suc.IH [OF growsD(1,2) [OF mapped(4)] b(2) this lst inv2, of "pa + PGSIZE"]
    obtain s' j where IH: "mappages_loop pt (a + PGSIZE) lst (pa + PGSIZE) perm ?s2 =
        Ok (if j = Suc n then 0 else -1, s')" "j \<le> Suc n" "grows 2 pt ?s2 s'"
      "j \<noteq> Suc n \<longrightarrow> free_pages s' = {}"
      "\<And>va. va < MAXVA \<Longrightarrow>
        pgtbl s' pt va = map_range (pgtbl ?s2 pt) (a + PGSIZE) j (pa + PGSIZE) perm va"
      by blast
    have "pgtbl s' pt va = map_range (pgtbl s pt) a (Suc j) pa perm va" if "va < MAXVA" for va
    proof -
      have "pgtbl s' pt va =
          map_range (map_range (pgtbl s pt) a 1 pa perm) (a + PGSIZE) j (pa + PGSIZE) perm va"
        using IH(5) [OF that] mapped(5) [OF that] by (simp add: map_range_def)
      then show ?thesis
        by (simp only: map_range_Suc [OF b(1)])
    qed
    with IH(1,2,4) loop grows_trans [OF mapped(4) IH(3)] show ?thesis
      by (intro exI [of _ s'] exI [of _ "Suc j"]) simp
  qed
qed

lemma mappages_page:
  assumes "kmem_wf s" and "pt_ok s 2 pt" and "pg_aligned va" and "va < MAXVA"
    and "\<not> pvalid (pgtbl s pt va)"
  shows "\<exists>r s'. mappages pt va PGSIZE pa perm s = Ok (r, s') \<and> grows 2 pt s s' \<and>
    (if r = 0 then \<forall>va'<MAXVA. pgtbl s' pt va' =
         (if PGROUNDDOWN va' = va then PA2PTE pa OR perm OR PTE_V else pgtbl s pt va')
     else r = -1 \<and> free_pages s' = {} \<and> (\<forall>va'<MAXVA. pgtbl s' pt va' = pgtbl s pt va'))"
proof -
  have m: "mappages pt va PGSIZE pa perm s = mappages_loop pt va va pa perm s"
    using assms(3) by (simp add: mappages_def pg_aligned_def)
  have u: "unat va < unat MAXVA" "unat va + 4096 \<le> 2 ^ 64"
    using assms(4) by (simp_all add: word_less_nat_alt)
  note r1 = page_range_1 [OF assms(3) u(2)]
  have inv: "\<not> pvalid (pgtbl s pt va')"
    if "va' < MAXVA" "unat va \<le> unat va'" "unat va' < unat va + 4096 * Suc 0" for va'
    using that r1 [of va'] assms(5) pte_val_PGROUNDDOWN [of "phys s" 2 pt va'] by simp
  from mappages_loop_ok [OF assms(1-3) _ _ inv, of 0 va pa perm] u(1) obtain s' j where
    "mappages_loop pt va va pa perm s = Ok (if j = Suc 0 then 0 else -1, s')" "j \<le> Suc 0"
    "grows 2 pt s s'" "j \<noteq> Suc 0 \<longrightarrow> free_pages s' = {}"
    "\<forall>va'<MAXVA. pgtbl s' pt va' = map_range (pgtbl s pt) va j pa perm va'"
    by auto
  then show ?thesis
    using m map_range_1 [OF assms(3) u(2)] by (cases j) (auto simp flip: One_nat_def)
qed

end
