(* ===== verification/XvUvm.thy ===== *)
theory XvUvm
  imports XvPtree
begin

text \<open>
  User memory on top of the abstract page table: unmapping and freeing, growing and shrinking,
  copying an address space, and the copies between kernel and user memory.
\<close>

section \<open>Unmapping\<close>

text \<open>\<open>unmapped f lo hi\<close>: the table \<open>f\<close> with the valid entries of the addresses in \<open>[lo, hi)\<close> cleared.\<close>

definition unmapped :: "(uint64 \<Rightarrow> uint64) \<Rightarrow> nat \<Rightarrow> nat \<Rightarrow> uint64 \<Rightarrow> uint64" where
  "unmapped f lo hi va = (if lo \<le> unat va \<and> unat va < hi \<and> pvalid (f va) then 0 else f va)"

lemma unmapped_out: "\<not> (lo \<le> unat va \<and> unat va < hi) \<Longrightarrow> unmapped f lo hi va = f va"
  by (auto simp: unmapped_def)

lemma unmapped_in: "lo \<le> unat va \<Longrightarrow> unat va < hi \<Longrightarrow> \<not> pvalid (unmapped f lo hi va)"
  by (simp add: unmapped_def)

text \<open>The addresses in \<open>[lo, hi)\<close> that are mapped, and the pages behind them.\<close>

definition mapped_vas :: "(uint64 \<Rightarrow> uint64) \<Rightarrow> nat \<Rightarrow> nat \<Rightarrow> uint64 set" where
  "mapped_vas f lo hi = {va. va < MAXVA \<and> lo \<le> unat va \<and> unat va < hi \<and> pvalid (f va)}"

definition data_pages :: "(uint64 \<Rightarrow> uint64) \<Rightarrow> nat \<Rightarrow> nat \<Rightarrow> uint64 set" where
  "data_pages f lo hi = (\<lambda>va. PTE2PA (f va)) ` mapped_vas f lo hi"

text \<open>The address range is backed by pages that belong to it alone.\<close>

definition owns :: "'a kmem_state_scheme \<Rightarrow> uint64 \<Rightarrow> nat \<Rightarrow> nat \<Rightarrow> bool" where
  "owns s pt lo hi \<longleftrightarrow>
     data_pages (pgtbl s pt) lo hi \<subseteq> owned_pages s - ptnodes (phys s) 2 pt \<and>
     (\<forall>va\<in>mapped_vas (pgtbl s pt) lo hi. \<forall>va'\<in>mapped_vas (pgtbl s pt) lo hi.
        PTE2PA (pgtbl s pt va) = PTE2PA (pgtbl s pt va') \<longrightarrow> PGROUNDDOWN va = PGROUNDDOWN va')"

lemma pt_ok_kfree:
  assumes wf: "kmem_wf s" and ok: "pt_ok s 2 pt"
    and q: "q \<in> owned_pages s" "q \<notin> ptnodes (phys s) 2 pt"
  obtains s' where "kfree q s = Ok s'" "kmem_wf s'" "pt_ok s' 2 pt"
    "ptnodes (phys s') 2 pt = ptnodes (phys s) 2 pt" "kend s' = kend s"
    "kmem_state.more s' = kmem_state.more s"
    "\<And>va. pgtbl s' pt va = pgtbl s pt va"
    "\<And>va. pte_at (phys s') 2 pt va = pte_at (phys s) 2 pt va"
    "free_pages s' = insert q (free_pages s)" "owned_pages s' = owned_pages s - {q}"
    "\<And>a. a \<notin> page q \<Longrightarrow> phys s' a = phys s a"
proof -
  from kfree_owned [OF wf q(1)] obtain s' where s': "kfree q s = Ok s'" "kmem_wf s'"
    "free_pages s' = insert q (free_pages s)" "owned_pages s' = owned_pages s - {q}"
    "kend s' = kend s" "kmem_state.more s' = kmem_state.more s"
    "\<And>a. a \<notin> page q \<Longrightarrow> phys s' a = phys s a"
    by blast
  have fr: "phys s' a = phys s a" if "PGROUNDDOWN a \<in> ptnodes (phys s) 2 pt" for a
    using that q(2) by (intro s'(7)) (auto simp: in_page_iff)
  have f: "ptnodes (phys s') 2 pt = ptnodes (phys s) 2 pt" "pt_wf (phys s') 2 pt"
    "\<And>va. pgtbl s' pt va = pgtbl s pt va" "\<And>va. pte_at (phys s') 2 pt va = pte_at (phys s) 2 pt va"
    by (rule pt_frame_all [OF pt_okD(1) [OF ok] fr], assumption)+
  have "pt_ok s' 2 pt"
    using f(1,2) q(2) pt_okD(2) [OF ok] by (auto simp: pt_ok_def s'(4))
  with s' f show ?thesis by (intro that)
qed

text \<open>The state after one round of the loop of \<open>uvmunmap\<close>; \<open>F\<close> are the pages freed.\<close>

definition shrinks :: "uint64 \<Rightarrow> uint64 set \<Rightarrow> 'a kmem_state_scheme \<Rightarrow> 'a kmem_state_scheme \<Rightarrow> bool" where
  "shrinks pt F s s' \<longleftrightarrow> kmem_wf s' \<and> pt_ok s' 2 pt \<and> kend s' = kend s \<and>
     kmem_state.more s' = kmem_state.more s \<and> ptnodes (phys s') 2 pt = ptnodes (phys s) 2 pt \<and>
     free_pages s' = free_pages s \<union> F \<and> owned_pages s' = owned_pages s - F \<and>
     (\<forall>x. PGROUNDDOWN x \<notin> ptnodes (phys s) 2 pt \<union> F \<longrightarrow> phys s' x = phys s x)"

lemma shrinksD:
  assumes "shrinks pt F s s'"
  shows "kmem_wf s'" and "pt_ok s' 2 pt" and "kend s' = kend s"
    and "kmem_state.more s' = kmem_state.more s"
    and "ptnodes (phys s') 2 pt = ptnodes (phys s) 2 pt"
    and "free_pages s' = free_pages s \<union> F" and "owned_pages s' = owned_pages s - F"
    and "PGROUNDDOWN x \<notin> ptnodes (phys s) 2 pt \<union> F \<Longrightarrow> phys s' x = phys s x"
  using assms unfolding shrinks_def by blast+

lemma shrinks_refl: "kmem_wf s \<Longrightarrow> pt_ok s 2 pt \<Longrightarrow> shrinks pt {} s s"
  by (simp add: shrinks_def)

lemma shrinks_trans: "shrinks pt F s s1 \<Longrightarrow> shrinks pt G s1 s2 \<Longrightarrow> shrinks pt (F \<union> G) s s2"
  unfolding shrinks_def by auto

lemma uvmunmap_step:
  assumes wf: "kmem_wf s" and ok: "pt_ok s 2 pt" and a: "pg_aligned a" "a < MAXVA"
    and own: "do_free \<Longrightarrow> owns s pt (unat a) (unat a + 4096)"
  shows "\<exists>pte s'. walk pt a False s = Ok (pte, s) \<and> uvmunmap_pte pte do_free s = Ok s' \<and>
    shrinks pt (if do_free then data_pages (pgtbl s pt) (unat a) (unat a + 4096) else {}) s s' \<and>
    (\<forall>va<MAXVA. pgtbl s' pt va = unmapped (pgtbl s pt) (unat a) (unat a + 4096) va)"
proof -
  have "unat a + 4096 \<le> 2 ^ 64"
    using a(2) by (simp add: word_less_nat_alt)
  note r1 = page_range_1 [OF a(1) this]
  have same: "pgtbl s pt va = pgtbl s pt a" if "PGROUNDDOWN va = a" for va
    using that pte_val_PGROUNDDOWN [of "phys s" 2 pt va] by simp
  have vas: "mapped_vas (pgtbl s pt) (unat a) (unat a + 4096) =
      (if pvalid (pgtbl s pt a) then {va. va < MAXVA \<and> PGROUNDDOWN va = a} else {})"
  proof -
    have "va \<in> mapped_vas (pgtbl s pt) (unat a) (unat a + 4096) \<longleftrightarrow>
        va < MAXVA \<and> PGROUNDDOWN va = a \<and> pvalid (pgtbl s pt a)" for va
      unfolding mapped_vas_def mem_Collect_eq using r1 [of va] same [of va] by metis
    then show ?thesis by auto
  qed
  have un: "unmapped (pgtbl s pt) (unat a) (unat a + 4096) va =
      (if PGROUNDDOWN va = a \<and> pvalid (pgtbl s pt a) then 0 else pgtbl s pt va)" for va
    unfolding unmapped_def using same [of va] r1 [of va] by metis
  show ?thesis
  proof (cases "pvalid (pgtbl s pt a)")
    case False
    have "uvmunmap_pte (case pte_at (phys s) 2 pt a of None \<Rightarrow> 0 | Some x \<Rightarrow> x) do_free s = Ok s"
      using False get_pte_at [of s pt a]
      by (auto simp: uvmunmap_pte_def pvalid_def split: option.split)
    moreover have "data_pages (pgtbl s pt) (unat a) (unat a + 4096) = {}"
      by (simp add: data_pages_def vas False)
    ultimately show ?thesis
      using False shrinks_refl [OF wf ok] by (simp add: walk_ro [OF a(2)] un)
  next
    case True
    then obtain pte where at: "pte_at (phys s) 2 pt a = Some pte"
      by (cases "pte_at (phys s) 2 pt a") (auto simp: pte_val_def)
    note nz = pte_at_nonzero [OF wf ok at]
    let ?q = "PTE2PA (pgtbl s pt a)"
    have "{va. va < MAXVA \<and> PGROUNDDOWN va = a} \<noteq> {}"
      using a PGROUNDDOWN_aligned by blast
    then have dp: "data_pages (pgtbl s pt) (unat a) (unat a + 4096) = {?q}"
      using True same by (auto simp: data_pages_def vas)
    have v: "get_pte s pte AND PTE_V \<noteq> 0"
      using True by (simp add: get_pte_at [OF at] pvalid_def)
    define s1F where "s1F = (if do_free then {?q} else {})"
    obtain s1 where s1: "(if do_free then kfree ?q s else Ok s) = Ok s1" "kmem_wf s1" "pt_ok s1 2 pt"
      "ptnodes (phys s1) 2 pt = ptnodes (phys s) 2 pt" "kend s1 = kend s"
      "kmem_state.more s1 = kmem_state.more s"
      "\<And>va. pgtbl s1 pt va = pgtbl s pt va" "pte_at (phys s1) 2 pt a = Some pte"
      "free_pages s1 = free_pages s \<union> s1F" "owned_pages s1 = owned_pages s - s1F"
      "\<And>x. PGROUNDDOWN x \<notin> s1F \<Longrightarrow> phys s1 x = phys s x"
    proof (cases do_free)
      case True
      with own dp have "?q \<in> owned_pages s" "?q \<notin> ptnodes (phys s) 2 pt"
        by (auto simp: owns_def)
      with wf ok show thesis
      proof (rule pt_ok_kfree, goal_cases)
        case (1 s1)
        then show thesis
          by (intro that [of s1]) (simp_all add: True s1F_def at in_page_iff)
      qed
    next
      case False
      with wf ok at that show thesis
        by (auto simp: s1F_def)
    qed
    note L = set_leaf [OF s1(2,3,8)]
    have "phys (set_pte pte 0 s1) x = phys s x" if "PGROUNDDOWN x \<notin> ptnodes (phys s) 2 pt \<union> s1F" for x
      using that L(7) [of x 0] s1(11) [of x] by (simp add: s1(4))
    moreover have "kmem_wf (set_pte pte 0 s1)"
      using growsD(1) [OF L(1)] .
    ultimately have "shrinks pt s1F s (set_pte pte 0 s1)"
      using L(2,3,4,5) s1(4-6,9,10) growsD(3,4) [OF L(1)] unfolding shrinks_def by simp
    moreover have "pgtbl (set_pte pte 0 s1) pt va = unmapped (pgtbl s pt) (unat a) (unat a + 4096) va"
      if "va < MAXVA" for va
      using L(6) [OF a(2) that, of 0] a(1) True by (simp add: un s1(7))
    moreover have "uvmunmap_pte pte do_free s = Ok (set_pte pte 0 s1)"
      using nz v s1(1) by (auto simp: uvmunmap_pte_def get_pte_at [OF at] split: if_splits)
    ultimately show ?thesis
      using at unfolding dp s1F_def by (auto simp: walk_ro [OF a(2)])
  qed
qed

lemma mapped_vas_split:
  "lo \<le> mid \<Longrightarrow> mid \<le> hi \<Longrightarrow> mapped_vas f lo hi = mapped_vas f lo mid \<union> mapped_vas f mid hi"
  by (auto simp: mapped_vas_def)

lemma mapped_vas_mono: "lo \<le> lo' \<Longrightarrow> hi' \<le> hi \<Longrightarrow> mapped_vas f lo' hi' \<subseteq> mapped_vas f lo hi"
  by (auto simp: mapped_vas_def)

lemma data_pages_mono: "lo \<le> lo' \<Longrightarrow> hi' \<le> hi \<Longrightarrow> data_pages f lo' hi' \<subseteq> data_pages f lo hi"
  unfolding data_pages_def by (intro image_mono mapped_vas_mono)

lemma data_pages_split:
  "lo \<le> mid \<Longrightarrow> mid \<le> hi \<Longrightarrow> data_pages f lo hi = data_pages f lo mid \<union> data_pages f mid hi"
  unfolding data_pages_def using mapped_vas_split [of lo mid hi f] by (simp add: image_Un)

lemma mapped_vas_cong:
  assumes "\<And>va. va < MAXVA \<Longrightarrow> lo \<le> unat va \<Longrightarrow> unat va < hi \<Longrightarrow> f va = g va"
  shows "mapped_vas f lo hi = mapped_vas g lo hi" and "data_pages f lo hi = data_pages g lo hi"
proof -
  show v: "mapped_vas f lo hi = mapped_vas g lo hi"
    using assms by (auto simp: mapped_vas_def)
  show "data_pages f lo hi = data_pages g lo hi"
    unfolding data_pages_def v using assms by (intro image_cong) (auto simp: mapped_vas_def)
qed

lemma owns_sub: "owns s pt lo hi \<Longrightarrow> lo \<le> lo' \<Longrightarrow> hi' \<le> hi \<Longrightarrow> owns s pt lo' hi'"
  unfolding owns_def using mapped_vas_mono [of lo lo' hi' hi] data_pages_mono [of lo lo' hi' hi] by blast

text \<open>What is left of a range after its head has been freed still owns its pages.\<close>

lemma owns_shrinks:
  assumes own: "owns s pt lo hi" and mid: "pg_aligned a" "unat a = mid" "lo \<le> mid" "mid \<le> hi"
    and sh: "shrinks pt F s s'" and F: "F \<subseteq> data_pages (pgtbl s pt) lo mid"
    and eq: "\<And>va. va < MAXVA \<Longrightarrow> mid \<le> unat va \<Longrightarrow> pgtbl s' pt va = pgtbl s pt va"
  shows "owns s' pt mid hi" and "data_pages (pgtbl s' pt) mid hi = data_pages (pgtbl s pt) mid hi"
proof -
  have v: "mapped_vas (pgtbl s' pt) mid hi = mapped_vas (pgtbl s pt) mid hi"
    and d: "data_pages (pgtbl s' pt) mid hi = data_pages (pgtbl s pt) mid hi"
    using eq by (intro mapped_vas_cong; simp)+
  then show "data_pages (pgtbl s' pt) mid hi = data_pages (pgtbl s pt) mid hi"
    by simp
  have "data_pages (pgtbl s pt) mid hi \<inter> F = {}"
  proof (rule ccontr)
    assume "\<not> ?thesis"
    then obtain va va' where va: "va \<in> mapped_vas (pgtbl s pt) mid hi"
      "va' \<in> mapped_vas (pgtbl s pt) lo mid" "PTE2PA (pgtbl s pt va) = PTE2PA (pgtbl s pt va')"
      using F unfolding data_pages_def by blast
    then have "PGROUNDDOWN va = PGROUNDDOWN va'"
      using own mid(3,4) mapped_vas_split [OF mid(3,4)] unfolding owns_def by blast
    moreover have "mid \<le> unat (PGROUNDDOWN va)"
      using va(1) mid(2) PGROUNDDOWN_ge [OF mid(1), of va] by (simp add: mapped_vas_def)
    moreover have "unat (PGROUNDDOWN va') < mid"
      using va(2) by (auto simp: mapped_vas_def unat_PGROUNDDOWN)
    ultimately show False by simp
  qed
  moreover have "data_pages (pgtbl s pt) mid hi \<subseteq> owned_pages s - ptnodes (phys s) 2 pt"
    using owns_sub [OF own mid(3) order_refl] by (simp add: owns_def)
  moreover have "PTE2PA (pgtbl s' pt va) = PTE2PA (pgtbl s' pt va') \<longrightarrow> PGROUNDDOWN va = PGROUNDDOWN va'"
    if "va \<in> mapped_vas (pgtbl s pt) mid hi" "va' \<in> mapped_vas (pgtbl s pt) mid hi" for va va'
  proof -
    have "pgtbl s' pt va = pgtbl s pt va" "pgtbl s' pt va' = pgtbl s pt va'"
      using that by (intro eq; simp add: mapped_vas_def)+
    with that owns_sub [OF own mid(3) order_refl] show ?thesis
      unfolding owns_def by metis
  qed
  ultimately show "owns s' pt mid hi"
    unfolding owns_def v d shrinksD(5,7) [OF sh] by blast
qed

lemma uvmunmap_loop_ok:
  assumes "kmem_wf s" and "pt_ok s 2 pt" and "pg_aligned a" and "unat a + 4096 * n \<le> unat MAXVA"
    and "lim = a + of_nat n * PGSIZE"
    and "do_free \<Longrightarrow> owns s pt (unat a) (unat a + 4096 * n)"
  shows "\<exists>s'. uvmunmap_loop pt a lim do_free s = Ok s' \<and>
    shrinks pt (if do_free then data_pages (pgtbl s pt) (unat a) (unat a + 4096 * n) else {}) s s' \<and>
    (\<forall>va<MAXVA. pgtbl s' pt va = unmapped (pgtbl s pt) (unat a) (unat a + 4096 * n) va)"
  using assms
proof (induction n arbitrary: a s)
  case 0
  moreover have "data_pages (pgtbl s pt) (unat a) (unat a) = {}"
    by (auto simp: data_pages_def mapped_vas_def)
  moreover have "unmapped (pgtbl s pt) (unat a) (unat a) va = pgtbl s pt va" for va
    by (auto simp: unmapped_def)
  ultimately show ?case
    by (simp add: uvmunmap_loop.simps [of pt a] shrinks_refl)
next
  case (Suc n)
  let ?D = "\<lambda>s lo hi. if do_free then data_pages (pgtbl s pt) lo hi else {}"
  let ?hi = "unat a + 4096 * Suc n"
  have lt: "a < MAXVA"
    using Suc.prems(4) by (simp add: word_less_nat_alt)
  have b: "unat (a + PGSIZE) = unat a + 4096" "pg_aligned (a + PGSIZE)"
    using pg_aligned_next [OF Suc.prems(3)] Suc.prems(4) by simp_all
  have lim: "lim = (a + PGSIZE) + of_nat n * PGSIZE"
    using Suc.prems(5) by (simp add: algebra_simps)
  have "unat lim = ?hi"
  proof -
    have "unat (of_nat (Suc n) * PGSIZE :: uint64) = 4096 * Suc n"
      using Suc.prems(4) by (simp add: unat_word_ariths unsigned_of_nat take_bit_nat_eq_self)
    then show ?thesis
      unfolding Suc.prems(5) using Suc.prems(4) by (subst unat_plus64) simp_all
  qed
  then have "a < lim"
    by (simp add: word_less_nat_alt)
  have "do_free \<Longrightarrow> owns s pt (unat a) (unat a + 4096)"
    using Suc.prems(6) by (rule owns_sub) simp_all
  from uvmunmap_step [OF Suc.prems(1-3) lt this] obtain pte s1 where
    s1: "walk pt a False s = Ok (pte, s)" "uvmunmap_pte pte do_free s = Ok s1"
      "shrinks pt (?D s (unat a) (unat a + 4096)) s s1"
      "\<And>va. va < MAXVA \<Longrightarrow> pgtbl s1 pt va = unmapped (pgtbl s pt) (unat a) (unat a + 4096) va"
    by blast
  have same: "pgtbl s1 pt va = pgtbl s pt va" if "va < MAXVA" "unat (a + PGSIZE) \<le> unat va" for va
    using that s1(4) [OF that(1)] b(1) by (simp add: unmapped_def)
  have own: "owns s1 pt (unat (a + PGSIZE)) ?hi" "?D s1 (unat (a + PGSIZE)) ?hi = ?D s (unat (a + PGSIZE)) ?hi"
    if do_free
    using owns_shrinks [OF Suc.prems(6) [OF that] b(2) refl _ _ s1(3) _ same] that b(1) by auto
  have hi: "unat (a + PGSIZE) + 4096 * n = ?hi"
    using b(1) by simp
  from Suc.IH [OF shrinksD(1,2) [OF s1(3)] b(2) _ lim] own(1) Suc.prems(4)
  obtain s' where s': "uvmunmap_loop pt (a + PGSIZE) lim do_free s1 = Ok s'"
      "shrinks pt (?D s1 (unat (a + PGSIZE)) ?hi) s1 s'"
      "\<And>va. va < MAXVA \<Longrightarrow> pgtbl s' pt va = unmapped (pgtbl s1 pt) (unat (a + PGSIZE)) ?hi va"
    unfolding hi by blast
  have "?D s (unat a) (unat a + 4096) \<union> ?D s1 (unat (a + PGSIZE)) ?hi = ?D s (unat a) ?hi"
    using own(2) data_pages_split [of "unat a" "unat a + 4096" ?hi "pgtbl s pt"] b(1) by simp
  then have "shrinks pt (?D s (unat a) ?hi) s s'"
    using shrinks_trans [OF s1(3) s'(2)] by simp
  moreover have "pgtbl s' pt va = unmapped (pgtbl s pt) (unat a) ?hi va" if "va < MAXVA" for va
    using s'(3) [OF that] s1(4) [OF that] b(1) by (auto simp: unmapped_def)
  moreover have "uvmunmap_loop pt a lim do_free s = Ok s'"
    using \<open>a < lim\<close> s1(1,2) s'(1) by (simp add: uvmunmap_loop.simps [of pt a])
  ultimately show ?case by blast
qed

section \<open>Mapping a fresh page\<close>

text \<open>
  \<open>uvmalloc\<close>, \<open>uvmcopy\<close> and \<open>vmfault\<close> all allocate a page, fill it and map it, and free it again if
  the mapping fails.
\<close>

lemma fresh_page:
  assumes wf: "kmem_wf s" and ok: "pt_ok s 2 pt" and k: "kalloc s = Ok (mem, s1)" "mem \<noteq> 0"
    and m: "\<forall>x. x \<notin> page mem \<longrightarrow> m x = phys s x"
  defines "z \<equiv> s1\<lparr>phys := m\<rparr>"
  shows "kmem_wf z" and "pt_ok z 2 pt" and "kend z = kend s"
    and "kmem_state.more z = kmem_state.more s"
    and "free_pages z = free_pages s - {mem}" and "owned_pages z = insert mem (owned_pages s)"
    and "ptnodes (phys z) 2 pt = ptnodes (phys s) 2 pt" and "pgtbl z pt va = pgtbl s pt va"
    and "mem \<in> free_pages s" and "mem \<notin> ptnodes (phys s) 2 pt"
proof -
  note kw = kalloc_wf [OF wf k(1)]
  show mem: "mem \<in> free_pages s"
    using kw(4) k(2) .
  then show notin: "mem \<notin> ptnodes (phys s) 2 pt"
    using pt_okD(3) [OF ok] by blast
  show "kmem_wf z"
  proof (rule kmem_wf_frame [OF kw(1)])
    fix x a
    assume "x \<in> free_pages s1" and "a \<in> page x"
    then have "a \<notin> page mem"
      using kw(6) k(2) pages_disjoint [of x mem] by auto
    then show "phys z a = phys s1 a"
      by (simp add: z_def m kw(8))
  qed (simp_all add: z_def)
  show "kend z = kend s" "kmem_state.more z = kmem_state.more s"
    using kw(2,3) by (simp_all add: z_def)
  have fo: "free_pages z = free_pages s1" "owned_pages z = owned_pages s1"
    by (rule kmem_frame; simp add: z_def)+
  show "free_pages z = free_pages s - {mem}"
    using fo(1) kw(6) k(2) by simp
  show ow: "owned_pages z = insert mem (owned_pages s)"
    using fo(2) kw(7) k(2) by simp
  have fr: "phys z a = phys s a" if "PGROUNDDOWN a \<in> ptnodes (phys s) 2 pt" for a
    unfolding z_def using that notin m by (auto simp: in_page_iff)
  have f: "ptnodes (phys z) 2 pt = ptnodes (phys s) 2 pt" "pt_wf (phys z) 2 pt"
    "\<And>va. pgtbl z pt va = pgtbl s pt va"
    by (rule pt_frame_all [OF pt_okD(1) [OF ok] fr], assumption)+
  then show "ptnodes (phys z) 2 pt = ptnodes (phys s) 2 pt" "pgtbl z pt va = pgtbl s pt va"
    by auto
  show "pt_ok z 2 pt"
    using f(1,2) pt_okD(2) [OF ok] by (auto simp: pt_ok_def ow)
qed

text \<open>
  \<open>holds pt D s0 s\<close>: since \<open>s0\<close>, free pages have become nodes of the table \<open>pt\<close> or the data pages \<open>D\<close>,
  and nothing else has been written.
\<close>

definition holds :: "uint64 \<Rightarrow> uint64 set \<Rightarrow> 'a kmem_state_scheme \<Rightarrow> 'a kmem_state_scheme \<Rightarrow> bool" where
  "holds pt D s0 s \<longleftrightarrow> kmem_wf s \<and> pt_ok s 2 pt \<and> kend s = kend s0 \<and>
     kmem_state.more s = kmem_state.more s0 \<and>
     ptnodes (phys s0) 2 pt \<subseteq> ptnodes (phys s) 2 pt \<and>
     ptnodes (phys s) 2 pt \<subseteq> ptnodes (phys s0) 2 pt \<union> free_pages s0 \<and>
     D \<subseteq> free_pages s0 \<and> D \<inter> ptnodes (phys s) 2 pt = {} \<and>
     free_pages s = free_pages s0 - ptnodes (phys s) 2 pt - D \<and>
     owned_pages s = owned_pages s0 \<union> ptnodes (phys s) 2 pt \<union> D \<and>
     (\<forall>x. PGROUNDDOWN x \<notin> ptnodes (phys s0) 2 pt \<union> free_pages s0 \<longrightarrow> phys s x = phys s0 x)"

lemma holdsD:
  assumes "holds pt D s0 s"
  shows "kmem_wf s" and "pt_ok s 2 pt" and "kend s = kend s0"
    and "kmem_state.more s = kmem_state.more s0"
    and "ptnodes (phys s0) 2 pt \<subseteq> ptnodes (phys s) 2 pt"
    and "ptnodes (phys s) 2 pt \<subseteq> ptnodes (phys s0) 2 pt \<union> free_pages s0"
    and "D \<subseteq> free_pages s0" and "D \<inter> ptnodes (phys s) 2 pt = {}"
    and "free_pages s = free_pages s0 - ptnodes (phys s) 2 pt - D"
    and "owned_pages s = owned_pages s0 \<union> ptnodes (phys s) 2 pt \<union> D"
    and "PGROUNDDOWN x \<notin> ptnodes (phys s0) 2 pt \<union> free_pages s0 \<Longrightarrow> phys s x = phys s0 x"
  using assms unfolding holds_def by blast+

lemma free_owned_disjoint: "free_pages s \<inter> owned_pages s = {}"
  by (auto simp: free_pages_def owned_pages_def)

lemma holds_empty: "holds pt {} s0 s \<longleftrightarrow> grows 2 pt s0 s"
  by (simp add: holds_def grows_def)

lemma holds_refl: "kmem_wf s \<Longrightarrow> pt_ok s 2 pt \<Longrightarrow> holds pt {} s s"
  by (simp add: holds_empty grows_refl)

lemma holds_trans:
  assumes "holds pt D s0 s" and "holds pt E s s'"
  shows "holds pt (D \<union> E) s0 s'"
proof -
  note h = holdsD [OF assms(1)] and g = holdsD [OF assms(2)]
  have fr: "phys s' x = phys s0 x" if "PGROUNDDOWN x \<notin> ptnodes (phys s0) 2 pt \<union> free_pages s0" for x
  proof -
    have "PGROUNDDOWN x \<notin> ptnodes (phys s) 2 pt \<union> free_pages s"
      using that h(6,9) by blast
    then show ?thesis
      using g(11) [of x] h(11) [OF that] by simp
  qed
  have "D \<inter> free_pages s = {}"
    using h(9) by blast
  then have "(D \<union> E) \<inter> ptnodes (phys s') 2 pt = {}"
    using g(6,8) h(8) by blast
  moreover have "free_pages s' = free_pages s0 - ptnodes (phys s') 2 pt - (D \<union> E)"
    using g(5,9) h(9) by blast
  moreover have "owned_pages s' = owned_pages s0 \<union> ptnodes (phys s') 2 pt \<union> (D \<union> E)"
    using g(5,10) h(10) by blast
  moreover have "ptnodes (phys s') 2 pt \<subseteq> ptnodes (phys s0) 2 pt \<union> free_pages s0"
    using g(6) h(6,9) by blast
  moreover have "D \<union> E \<subseteq> free_pages s0"
    using g(7) h(7,9) by blast
  ultimately show ?thesis
    using fr g(1-5) h(3-5) unfolding holds_def by auto
qed

lemma holds_grows: "holds pt D s0 s \<Longrightarrow> grows 2 pt s s' \<Longrightarrow> holds pt D s0 s'"
  using holds_trans [of pt D s0 s "{}" s'] by (simp add: holds_empty)

lemma holds_shrinks:
  assumes "holds pt D s0 s" and "shrinks pt F s s'" and "F \<subseteq> D"
  shows "holds pt (D - F) s0 s'"
proof -
  note h = holdsD [OF assms(1)] and g = shrinksD [OF assms(2)]
  have fr: "phys s' x = phys s0 x" if "PGROUNDDOWN x \<notin> ptnodes (phys s0) 2 pt \<union> free_pages s0" for x
  proof -
    have "PGROUNDDOWN x \<notin> ptnodes (phys s) 2 pt \<union> F"
      using that h(6,7) assms(3) by blast
    then show ?thesis
      using g(8) [of x] h(11) [OF that] by simp
  qed
  have "free_pages s' = free_pages s0 - ptnodes (phys s') 2 pt - (D - F)"
    unfolding g(5,6) h(9) using h(7,8) assms(3) by blast
  moreover have "owned_pages s' = owned_pages s0 \<union> ptnodes (phys s') 2 pt \<union> (D - F)"
    unfolding g(5,7) h(10) using h(7,8) assms(3) free_owned_disjoint [of s0] by blast
  ultimately show ?thesis
    using fr g(1-5) h(3-8) unfolding holds_def by auto
qed

lemma map_fresh:
  assumes wf: "kmem_wf s" and ok: "pt_ok s 2 pt" and k: "kalloc s = Ok (mem, s1)" "mem \<noteq> 0"
    and m: "\<forall>x. x \<notin> page mem \<longrightarrow> m x = phys s x"
    and a: "pg_aligned a" "a < MAXVA" "\<not> pvalid (pgtbl s pt a)"
  obtains (mapped) s' where "mappages pt a PGSIZE mem perm (s1\<lparr>phys := m\<rparr>) = Ok (0, s')"
      "holds pt {mem} s s'"
      "\<And>va. va < MAXVA \<Longrightarrow> pgtbl s' pt va =
        (if PGROUNDDOWN va = a then PA2PTE mem OR perm OR PTE_V else pgtbl s pt va)"
      "\<And>x. x \<in> page mem \<Longrightarrow> phys s' x = m x"
  | (nomem) r s' s3 where "mappages pt a PGSIZE mem perm (s1\<lparr>phys := m\<rparr>) = Ok (r, s')" "r \<noteq> 0"
      "kfree mem s' = Ok s3" "grows 2 pt s s3" "\<And>va. va < MAXVA \<Longrightarrow> pgtbl s3 pt va = pgtbl s pt va"
proof -
  define z where "z = s1\<lparr>phys := m\<rparr>"
  note f = fresh_page [OF wf ok k m, folded z_def]
  have "\<not> pvalid (pgtbl z pt a)"
    using a(3) by (simp add: f(8))
  from mappages_page [OF f(1,2) a(1,2) this, of mem perm] obtain r s' where
    s': "mappages pt a PGSIZE mem perm z = Ok (r, s')" "grows 2 pt z s'"
    "if r = 0 then \<forall>va<MAXVA. pgtbl s' pt va =
         (if PGROUNDDOWN va = a then PA2PTE mem OR perm OR PTE_V else pgtbl z pt va)
     else r = -1 \<and> free_pages s' = {} \<and> (\<forall>va<MAXVA. pgtbl s' pt va = pgtbl z pt va)"
    by blast
  note g = growsD [OF s'(2), unfolded f(5,6,7)]
  have memn: "mem \<notin> ptnodes (phys s') 2 pt"
    using g(6) f(10) by blast
  have phz: "phys z x = m x" for x
    by (simp add: z_def)
  have inmem: "phys s' x = m x" if "x \<in> page mem" for x
    using that g(9) [of x] f(10) by (simp add: in_page_iff phz)
  have out: "phys s' x = phys s x" if "PGROUNDDOWN x \<notin> ptnodes (phys s) 2 pt \<union> free_pages s" for x
  proof -
    have "x \<notin> page mem"
      using that f(9) by (auto simp: in_page_iff)
    then show ?thesis
      using that g(9) [of x] by (simp add: phz m)
  qed
  show ?thesis
  proof (cases "r = 0")
    case True
    show ?thesis
    proof (rule mapped)
      show "mappages pt a PGSIZE mem perm (s1\<lparr>phys := m\<rparr>) = Ok (0, s')"
        using s'(1) True by (simp add: z_def)
      show "pgtbl s' pt va = (if PGROUNDDOWN va = a then PA2PTE mem OR perm OR PTE_V else pgtbl s pt va)"
        if "va < MAXVA" for va
        using s'(3) that True by (simp add: f(8))
      have "free_pages s' = free_pages s - ptnodes (phys s') 2 pt - {mem}"
        "owned_pages s' = owned_pages s \<union> ptnodes (phys s') 2 pt \<union> {mem}"
        "ptnodes (phys s') 2 pt \<subseteq> ptnodes (phys s) 2 pt \<union> free_pages s"
        using g(6,7,8) by blast+
      then show "holds pt {mem} s s'"
        using g(1-5) f(3,4,9) memn out unfolding holds_def by auto
    qed (rule inmem)
  next
    case False
    have "mem \<in> owned_pages s'"
      using g(8) by blast
    from pt_ok_kfree [OF g(1,2) this memn] obtain s3 where
      s3: "kfree mem s' = Ok s3" "kmem_wf s3" "pt_ok s3 2 pt"
        "ptnodes (phys s3) 2 pt = ptnodes (phys s') 2 pt" "kend s3 = kend s'"
        "kmem_state.more s3 = kmem_state.more s'" "\<And>va. pgtbl s3 pt va = pgtbl s' pt va"
        "free_pages s3 = insert mem (free_pages s')" "owned_pages s3 = owned_pages s' - {mem}"
        "\<And>x. x \<notin> page mem \<Longrightarrow> phys s3 x = phys s' x"
      by metis
    have nown: "mem \<notin> owned_pages s"
      using f(9) by (auto simp: owned_pages_def free_pages_def)
    have "free_pages s3 = free_pages s - ptnodes (phys s3) 2 pt"
      unfolding s3(4,8) g(7) using f(9) memn by blast
    moreover have "owned_pages s3 = owned_pages s \<union> ptnodes (phys s3) 2 pt"
      unfolding s3(4,9) g(8) using nown memn by blast
    moreover have "phys s3 x = phys s x" if "PGROUNDDOWN x \<notin> ptnodes (phys s) 2 pt \<union> free_pages s" for x
      using that f(9) s3(10) [of x] out [of x] by (auto simp: in_page_iff)
    moreover have "ptnodes (phys s3) 2 pt \<subseteq> ptnodes (phys s) 2 pt \<union> free_pages s"
      unfolding s3(4) using g(6) by blast
    ultimately have "grows 2 pt s s3"
      using s3(2,3,5,6) g(3-5) f(3,4) unfolding grows_def s3(4) by simp
    moreover have "pgtbl s3 pt va = pgtbl s pt va" if "va < MAXVA" for va
      using s'(3) False that by (simp add: s3(7) f(8))
    ultimately show ?thesis
      using nomem s'(1) False s3(1) unfolding z_def by blast
  qed
qed

section \<open>Shrinking\<close>

lemma unat_PGROUNDUP_MAXVA:
  assumes "unat a \<le> unat MAXVA"
  shows "unat (PGROUNDUP a) \<le> unat MAXVA" and "unat a \<le> unat (PGROUNDUP a)"
    and "unat (PGROUNDUP a) < unat a + 4096"
proof -
  have b: "unat a + 4095 < 2 ^ 64"
    using assms by simp
  then show "unat a \<le> unat (PGROUNDUP a)" "unat (PGROUNDUP a) < unat a + 4096"
    by (simp_all add: unat_PGROUNDUP less_imp_le_nat)
  have "PGROUNDUP a \<le> MAXVA"
    using assms by (subst PGROUNDUP_le_iff [OF b]) (simp_all add: pg_aligned_iff word_le_nat_alt)
  then show "unat (PGROUNDUP a) \<le> unat MAXVA"
    by (simp add: word_le_nat_alt)
qed

lemma PGROUNDUP_aligned: "pg_aligned a \<Longrightarrow> a \<le> MAXVA \<Longrightarrow> PGROUNDUP a = a"
proof -
  assume a: "pg_aligned a" "a \<le> MAXVA"
  then have "unat a \<le> unat MAXVA"
    by (simp add: word_le_nat_alt)
  note u = unat_PGROUNDUP_MAXVA [OF this]
  have "unat (PGROUNDUP a) \<le> unat a"
    using pg_aligned_le_next [OF pg_aligned_PGROUNDUP a(1)] u(3) by simp
  with u(2) show "PGROUNDUP a = a"
    by (simp add: word_unat_eq_iff)
qed

lemma uvmunmap_ok:
  assumes "kmem_wf s" and "pt_ok s 2 pt" and "pg_aligned a" and "unat a + 4096 * unat n \<le> unat MAXVA"
    and "do_free \<Longrightarrow> owns s pt (unat a) (unat a + 4096 * unat n)"
  shows "\<exists>s'. uvmunmap pt a n do_free s = Ok s' \<and>
    shrinks pt (if do_free then data_pages (pgtbl s pt) (unat a) (unat a + 4096 * unat n) else {}) s s' \<and>
    (\<forall>va<MAXVA. pgtbl s' pt va = unmapped (pgtbl s pt) (unat a) (unat a + 4096 * unat n) va)"
proof -
  have "uvmunmap pt a n do_free s = uvmunmap_loop pt a (a + of_nat (unat n) * PGSIZE) do_free s"
    using assms(3) by (simp add: uvmunmap_def pg_aligned_def)
  then show ?thesis
    using uvmunmap_loop_ok [OF assms(1-4) refl assms(5)] by simp
qed

lemma uvmdealloc_ok:
  assumes "kmem_wf s" and "pt_ok s 2 pt" and "newsz < oldsz" and "oldsz \<le> MAXVA"
    and own: "owns s pt (unat (PGROUNDUP newsz)) (unat (PGROUNDUP oldsz))"
  shows "\<exists>s'. uvmdealloc pt oldsz newsz s = Ok (newsz, s') \<and>
    shrinks pt (data_pages (pgtbl s pt) (unat (PGROUNDUP newsz)) (unat (PGROUNDUP oldsz))) s s' \<and>
    (\<forall>va<MAXVA. pgtbl s' pt va =
       unmapped (pgtbl s pt) (unat (PGROUNDUP newsz)) (unat (PGROUNDUP oldsz)) va)"
proof -
  let ?lo = "PGROUNDUP newsz" and ?hi = "PGROUNDUP oldsz"
  have le: "unat newsz < unat oldsz" "unat oldsz \<le> unat MAXVA"
    using assms(3,4) by (simp_all add: word_less_nat_alt word_le_nat_alt)
  have nle: "\<not> oldsz \<le> newsz"
    using assms(3) by (simp only: not_le)
  have hi: "unat ?hi \<le> unat MAXVA"
    by (rule unat_PGROUNDUP_MAXVA(1) [OF le(2)])
  show ?thesis
  proof (cases "?lo < ?hi")
    case False
    have none: "mapped_vas f (unat ?lo) (unat ?hi) = {}" for f
      using False by (auto simp: mapped_vas_def word_less_nat_alt)
    have "unmapped (pgtbl s pt) (unat ?lo) (unat ?hi) va = pgtbl s pt va" for va
      using False by (auto simp: unmapped_def word_less_nat_alt)
    moreover have "uvmdealloc pt oldsz newsz s = Ok (newsz, s)"
      using False nle by (simp add: uvmdealloc_def)
    ultimately show ?thesis
      using shrinks_refl [OF assms(1,2)] by (simp add: data_pages_def none)
  next
    case True
    define n where "n = (?hi - ?lo) div PGSIZE"
    obtain i j where ij: "unat ?lo = 4096 * i" "unat ?hi = 4096 * j"
      by (metis pg_alignedE pg_aligned_PGROUNDUP)
    have "unat (?hi - ?lo) = 4096 * (j - i)"
      using True ij by (simp add: word_less_nat_alt unat_sub word_le_nat_alt diff_mult_distrib2)
    then have un: "unat n = j - i"
      by (simp add: n_def unat_div)
    then have "unat n < 2 ^ 31"
      using hi ij(2) by simp
    note sc = scast_ucast_32_64 [OF this]
    have bound: "unat ?lo + 4096 * unat n = unat ?hi"
      using True ij un by (simp add: word_less_nat_alt)
    from uvmunmap_ok [OF assms(1,2) pg_aligned_PGROUNDUP, of newsz n True] own hi
    obtain s' where "uvmunmap pt ?lo n True s = Ok s'"
      "shrinks pt (data_pages (pgtbl s pt) (unat ?lo) (unat ?hi)) s s'"
      "\<forall>va<MAXVA. pgtbl s' pt va = unmapped (pgtbl s pt) (unat ?lo) (unat ?hi) va"
      unfolding bound by auto
    moreover have "uvmdealloc pt oldsz newsz s =
        bindr (uvmunmap pt ?lo n True s) (\<lambda>s1. Ok (newsz, s1))"
      using True nle sc by (simp add: uvmdealloc_def Let_def n_def)
    ultimately show ?thesis by simp
  qed
qed

section \<open>Filling an address range\<close>

text \<open>
  \<open>filled s0 pt lo hi spec s\<close>: starting from \<open>s0\<close>, the pages of \<open>[lo, hi)\<close> have been mapped to fresh pages
  with the flags and contents that \<open>spec\<close> gives for each page address, or left alone where it
  gives none.
\<close>

definition page_is :: "'a kmem_state_scheme \<Rightarrow> uint64 \<Rightarrow> uint64 \<Rightarrow> (uint64 \<Rightarrow> uint8) \<Rightarrow> bool" where
  "page_is s pte fl c \<longleftrightarrow> pvalid pte \<and> PTE_FLAGS pte = fl \<and>
     (\<forall>off<PGSIZE. phys s (PTE2PA pte + off) = c off)"

definition filled :: "'a kmem_state_scheme \<Rightarrow> uint64 \<Rightarrow> nat \<Rightarrow> nat \<Rightarrow>
    (uint64 \<Rightarrow> (uint64 \<times> (uint64 \<Rightarrow> uint8)) option) \<Rightarrow> 'a kmem_state_scheme \<Rightarrow> bool" where
  "filled s0 pt lo hi spec s \<longleftrightarrow>
     holds pt (data_pages (pgtbl s pt) lo hi) s0 s \<and> owns s pt lo hi \<and>
     (\<forall>va<MAXVA. if lo \<le> unat va \<and> unat va < hi
        then (case spec (PGROUNDDOWN va) of None \<Rightarrow> pgtbl s pt va = pgtbl s0 pt va
              | Some (fl, c) \<Rightarrow> page_is s (pgtbl s pt va) fl c)
        else pgtbl s pt va = pgtbl s0 pt va)"

lemma filledD:
  assumes "filled s0 pt lo hi spec s"
  shows "holds pt (data_pages (pgtbl s pt) lo hi) s0 s" and "owns s pt lo hi"
    and "va < MAXVA \<Longrightarrow> \<not> (lo \<le> unat va \<and> unat va < hi) \<Longrightarrow> pgtbl s pt va = pgtbl s0 pt va"
    and "va < MAXVA \<Longrightarrow> lo \<le> unat va \<Longrightarrow> unat va < hi \<Longrightarrow>
      (case spec (PGROUNDDOWN va) of None \<Rightarrow> pgtbl s pt va = pgtbl s0 pt va
       | Some (fl, c) \<Rightarrow> page_is s (pgtbl s pt va) fl c)"
  using assms unfolding filled_def by (blast, blast, metis, metis)

lemma filled_start:
  assumes "kmem_wf s" and "pt_ok s 2 pt"
  shows "filled s pt lo lo spec s"
proof -
  have none: "mapped_vas (pgtbl s pt) lo lo = {}"
    by (auto simp: mapped_vas_def)
  then have "data_pages (pgtbl s pt) lo lo = {}"
    by (simp add: data_pages_def)
  then show ?thesis
    using holds_refl [OF assms] none by (auto simp: filled_def owns_def)
qed

lemma page_va_less_MAXVA:
  assumes "PGROUNDDOWN va = a" and "a < MAXVA"
  shows "va < MAXVA"
proof -
  have "unat va < unat a + 4096"
    using unat_page_diff [of va] unat_PGROUNDDOWN [of va] assms(1) by (auto simp: le_mod_geq)
  moreover have "unat a + 4096 \<le> unat MAXVA"
  proof -
    have "unat a < unat MAXVA" "pg_aligned a"
      using assms pg_aligned_PGROUNDDOWN [of va] by (simp_all add: word_less_nat_alt)
    then obtain k where "unat a = 4096 * k" "4096 * k < 274877906944"
      by (auto elim: pg_alignedE)
    then show ?thesis by simp
  qed
  ultimately show ?thesis
    by (simp add: word_less_nat_alt)
qed

text \<open>How the mapped addresses of a range extend by one page.\<close>

lemma mapped_vas_page:
  assumes "pg_aligned a" and "a < MAXVA"
    and same: "\<And>va. PGROUNDDOWN va = a \<Longrightarrow> f va = f a"
  shows "mapped_vas f (unat a) (unat a + 4096) = (if pvalid (f a) then {va. PGROUNDDOWN va = a} else {})"
    and "data_pages f (unat a) (unat a + 4096) = (if pvalid (f a) then {PTE2PA (f a)} else {})"
proof -
  have "unat a + 4096 \<le> 2 ^ 64"
    using assms(2) by (simp add: word_less_nat_alt)
  note r1 = page_range_1 [OF assms(1) this]
  have "va \<in> mapped_vas f (unat a) (unat a + 4096) \<longleftrightarrow> PGROUNDDOWN va = a \<and> pvalid (f a)" for va
    unfolding mapped_vas_def mem_Collect_eq
    using r1 [of va] same [of va] page_va_less_MAXVA [OF _ assms(2), of va] by metis
  then show v: "mapped_vas f (unat a) (unat a + 4096) =
      (if pvalid (f a) then {va. PGROUNDDOWN va = a} else {})"
    by auto
  have "a \<in> {va. PGROUNDDOWN va = a}"
    using assms(1) by simp
  moreover have "(\<lambda>va. PTE2PA (f va)) ` {va. PGROUNDDOWN va = a} =
      (\<lambda>va. PTE2PA (f a)) ` {va. PGROUNDDOWN va = a}"
    by (intro image_cong refl arg_cong [of _ _ PTE2PA] same) simp
  ultimately have "(\<lambda>va. PTE2PA (f va)) ` {va. PGROUNDDOWN va = a} = {PTE2PA (f a)}"
    by (auto simp: image_constant_conv)
  then show "data_pages f (unat a) (unat a + 4096) = (if pvalid (f a) then {PTE2PA (f a)} else {})"
    by (simp add: data_pages_def v)
qed

lemma owns_extend:
  assumes own: "owns s pt lo (unat a)" and a: "pg_aligned a" "a < MAXVA" "lo \<le> unat a"
    and q: "pvalid (pgtbl s pt a) \<Longrightarrow> PTE2PA (pgtbl s pt a) \<in> owned_pages s - ptnodes (phys s) 2 pt"
      "pvalid (pgtbl s pt a) \<Longrightarrow> PTE2PA (pgtbl s pt a) \<notin> data_pages (pgtbl s pt) lo (unat a)"
  shows "owns s pt lo (unat a + 4096)"
proof -
  have same: "pgtbl s pt va = pgtbl s pt a" if "PGROUNDDOWN va = a" for va
    using that pte_val_PGROUNDDOWN [of "phys s" 2 pt va] by simp
  note p = mapped_vas_page [of a "pgtbl s pt", OF a(1,2) same]
  have v: "mapped_vas (pgtbl s pt) lo (unat a + 4096) = mapped_vas (pgtbl s pt) lo (unat a) \<union>
      (if pvalid (pgtbl s pt a) then {va. PGROUNDDOWN va = a} else {})"
    using mapped_vas_split [of lo "unat a" "unat a + 4096"] a(3) p(1) by simp
  have d: "data_pages (pgtbl s pt) lo (unat a + 4096) = data_pages (pgtbl s pt) lo (unat a) \<union>
      (if pvalid (pgtbl s pt a) then {PTE2PA (pgtbl s pt a)} else {})"
    using data_pages_split [of lo "unat a" "unat a + 4096"] a(3) p(2) by simp
  have new: "PTE2PA (pgtbl s pt va) \<noteq> PTE2PA (pgtbl s pt va')"
    if "va \<in> mapped_vas (pgtbl s pt) lo (unat a)" "PGROUNDDOWN va' = a" "pvalid (pgtbl s pt a)" for va va'
    using that q(2) same [OF that(2)] unfolding data_pages_def by (metis imageI)
  have inj: "PGROUNDDOWN va = PGROUNDDOWN va'"
    if "va \<in> mapped_vas (pgtbl s pt) lo (unat a)" "va' \<in> mapped_vas (pgtbl s pt) lo (unat a)"
      "PTE2PA (pgtbl s pt va) = PTE2PA (pgtbl s pt va')" for va va'
    using own that unfolding owns_def by blast
  show ?thesis
  proof (cases "pvalid (pgtbl s pt a)")
    case True
    have inj2: "PGROUNDDOWN va = PGROUNDDOWN va'"
      if "va \<in> mapped_vas (pgtbl s pt) lo (unat a) \<union> {va. PGROUNDDOWN va = a}"
        "va' \<in> mapped_vas (pgtbl s pt) lo (unat a) \<union> {va. PGROUNDDOWN va = a}"
        "PTE2PA (pgtbl s pt va) = PTE2PA (pgtbl s pt va')" for va va'
      using that inj new [OF _ _ True] unfolding Un_iff mem_Collect_eq by metis
    have "data_pages (pgtbl s pt) lo (unat a) \<subseteq> owned_pages s - ptnodes (phys s) 2 pt"
      using own unfolding owns_def by blast
    with q(1) [OF True] inj2 show ?thesis
      unfolding owns_def v d if_P [OF True] by blast
  next
    case False
    show ?thesis
      using own unfolding owns_def v d if_not_P [OF False] Un_empty_right .
  qed
qed

lemma page_is_frame:
  assumes "page_is s pte fl c" and "\<And>x. x \<in> page (PTE2PA pte) \<Longrightarrow> phys s' x = phys s x"
  shows "page_is s' pte fl c"
  using assms page_off_in_page [OF pg_aligned_PTE2PA] by (simp add: page_is_def word_less_nat_alt)

lemma filled_skip:
  assumes f: "filled s0 pt lo (unat a) spec s" and a: "pg_aligned a" "a < MAXVA" "lo \<le> unat a"
    and spec: "spec a = None" and inv: "\<not> pvalid (pgtbl s0 pt a)"
  shows "filled s0 pt lo (unat a + 4096) spec s"
proof -
  note D = filledD [OF f]
  have ne: "\<not> pvalid (pgtbl s pt a)"
    using D(3) [of a] a(2) inv by simp
  have same: "pgtbl s pt va = pgtbl s pt a" if "PGROUNDDOWN va = a" for va
    using that pte_val_PGROUNDDOWN [of "phys s" 2 pt va] by simp
  have d: "data_pages (pgtbl s pt) lo (unat a + 4096) = data_pages (pgtbl s pt) lo (unat a)"
    using data_pages_split [of lo "unat a" "unat a + 4096" "pgtbl s pt"]
      mapped_vas_page(2) [of a "pgtbl s pt", OF a(1,2) same] ne a(3) by simp
  have o: "owns s pt lo (unat a + 4096)"
    using D(2) a ne by (intro owns_extend) simp_all
  have le: "unat a + 4096 \<le> 2 ^ 64"
    using a(2) by (simp add: word_less_nat_alt)
  have t: "if lo \<le> unat va \<and> unat va < unat a + 4096
      then (case spec (PGROUNDDOWN va) of None \<Rightarrow> pgtbl s pt va = pgtbl s0 pt va
            | Some (fl, c) \<Rightarrow> page_is s (pgtbl s pt va) fl c)
      else pgtbl s pt va = pgtbl s0 pt va" if va: "va < MAXVA" for va
  proof (cases "PGROUNDDOWN va = a")
    case True
    then show ?thesis
      using D(3) [OF va] page_range_1 [OF a(1) le, of va] spec by simp
  next
    case False
    then show ?thesis
      using D(3) [OF va] D(4) [OF va] page_range_1 [OF a(1) le, of va] a(3) by auto
  qed
  show ?thesis
    unfolding filled_def d using D(1) o t by blast
qed

lemma PTE_of_map:
  assumes "pg_aligned mem" and "mem < 2 ^ 56" and "perm < 1024"
  shows "pvalid (PA2PTE mem OR perm OR PTE_V)" and "PTE2PA (PA2PTE mem OR perm OR PTE_V) = mem"
    and "PTE_FLAGS (PA2PTE mem OR perm OR PTE_V) = perm OR PTE_V"
proof -
  have fl: "perm OR PTE_V < 1024"
    using assms(3) by (intro or_less_1024) simp_all
  show "PTE2PA (PA2PTE mem OR perm OR PTE_V) = mem"
    by (rule PTE2PA_PA2PTE [OF assms(1,2) fl])
  show "PTE_FLAGS (PA2PTE mem OR perm OR PTE_V) = perm OR PTE_V"
    by (rule PTE_FLAGS_PA2PTE [OF fl])
  show "pvalid (PA2PTE mem OR perm OR PTE_V)"
    unfolding pvalid_def and_PTE_V_iff by (simp add: bit_simps)
qed

text \<open>The tables before and after a fresh page is mapped at \<open>a\<close>.\<close>

lemma filled_map:
  assumes f: "filled s0 pt lo (unat a) spec s" and a: "pg_aligned a" "a < MAXVA" "lo \<le> unat a"
    and spec: "spec a = Some (perm OR PTE_V, c)" and perm: "perm < 1024"
    and h: "holds pt {mem} s s'"
    and t: "\<And>va. va < MAXVA \<Longrightarrow> pgtbl s' pt va =
        (if PGROUNDDOWN va = a then PA2PTE mem OR perm OR PTE_V else pgtbl s pt va)"
    and c: "\<And>off. off < PGSIZE \<Longrightarrow> phys s' (mem + off) = c off"
  shows "filled s0 pt lo (unat a + 4096) spec s'"
proof -
  note D = filledD [OF f] and H = holdsD [OF h]
  have memf: "mem \<in> free_pages s"
    using H(7) by blast
  then have mem: "pg_aligned mem" "mem < 2 ^ 56"
    by (auto simp: free_pages_def page_ok_def word_less_nat_alt)
  note P = PTE_of_map [OF mem perm]
  have le: "unat a + 4096 \<le> 2 ^ 64"
    using a(2) by (simp add: word_less_nat_alt)
  note r1 = page_range_1 [OF a(1) le]
  have ta: "pgtbl s' pt a = PA2PTE mem OR perm OR PTE_V"
    using t [OF a(2)] a(1) by simp
  have old: "pgtbl s' pt va = pgtbl s pt va" if "va < MAXVA" "PGROUNDDOWN va \<noteq> a" for va
    using t [OF that(1)] that(2) by simp
  have oldr: "pgtbl s' pt va = pgtbl s pt va" if "va < MAXVA" "unat va < unat a" for va
    using that r1 [of va] by (intro old) auto
  have v: "mapped_vas (pgtbl s' pt) lo (unat a) = mapped_vas (pgtbl s pt) lo (unat a)"
    and d0: "data_pages (pgtbl s' pt) lo (unat a) = data_pages (pgtbl s pt) lo (unat a)"
    by (rule mapped_vas_cong; erule (1) oldr)+
  have sub: "data_pages (pgtbl s pt) lo (unat a) \<subseteq> owned_pages s - ptnodes (phys s) 2 pt"
    using D(2) unfolding owns_def by blast
  then have disj: "data_pages (pgtbl s pt) lo (unat a) \<inter> (ptnodes (phys s) 2 pt \<union> free_pages s) = {}"
    using free_owned_disjoint [of s] by blast
  have "owns s' pt lo (unat a)"
  proof -
    have "data_pages (pgtbl s pt) lo (unat a) \<subseteq> owned_pages s' - ptnodes (phys s') 2 pt"
      using sub disj H(6,10) by blast
    moreover have "PGROUNDDOWN va = PGROUNDDOWN va'"
      if m: "va \<in> mapped_vas (pgtbl s pt) lo (unat a)" "va' \<in> mapped_vas (pgtbl s pt) lo (unat a)"
        and e: "PTE2PA (pgtbl s' pt va) = PTE2PA (pgtbl s' pt va')" for va va'
    proof -
      have "pgtbl s' pt va = pgtbl s pt va" "pgtbl s' pt va' = pgtbl s pt va'"
        using m by (intro oldr; simp add: mapped_vas_def)+
      with e m D(2) show ?thesis
        unfolding owns_def by metis
    qed
    ultimately show ?thesis
      unfolding owns_def v d0 by blast
  qed
  moreover have "mem \<in> owned_pages s' - ptnodes (phys s') 2 pt"
    using H(8,10) by blast
  moreover have "mem \<notin> data_pages (pgtbl s pt) lo (unat a)"
    using memf disj by blast
  ultimately have o: "owns s' pt lo (unat a + 4096)"
    using a by (intro owns_extend) (simp_all add: ta P d0)
  have same: "pgtbl s' pt va = pgtbl s' pt a" if "PGROUNDDOWN va = a" for va
    using that pte_val_PGROUNDDOWN [of "phys s'" 2 pt va] by simp
  have d: "data_pages (pgtbl s' pt) lo (unat a + 4096) = data_pages (pgtbl s pt) lo (unat a) \<union> {mem}"
    using data_pages_split [of lo "unat a" "unat a + 4096" "pgtbl s' pt"]
      mapped_vas_page(2) [of a "pgtbl s' pt", OF a(1,2) same] a(3) by (simp add: ta P d0)
  have keep: "page_is s' (pgtbl s pt va) fl c'"
    if va: "va < MAXVA" "lo \<le> unat va" "unat va < unat a" and pi: "page_is s (pgtbl s pt va) fl c'" for va fl c'
  proof (rule page_is_frame [OF pi])
    have "PTE2PA (pgtbl s pt va) \<in> data_pages (pgtbl s pt) lo (unat a)"
      using va pi by (auto simp: data_pages_def mapped_vas_def page_is_def)
    then have "PTE2PA (pgtbl s pt va) \<notin> ptnodes (phys s) 2 pt \<union> free_pages s"
      using disj by blast
    then show "phys s' x = phys s x" if "x \<in> page (PTE2PA (pgtbl s pt va))" for x
      using that by (intro H(11)) (simp add: in_page_iff)
  qed
  have "page_is s' (pgtbl s' pt a) (perm OR PTE_V) c"
    using c by (simp add: page_is_def ta P)
  then have tt: "if lo \<le> unat va \<and> unat va < unat a + 4096
      then (case spec (PGROUNDDOWN va) of None \<Rightarrow> pgtbl s' pt va = pgtbl s0 pt va
            | Some (fl, c) \<Rightarrow> page_is s' (pgtbl s' pt va) fl c)
      else pgtbl s' pt va = pgtbl s0 pt va" if va: "va < MAXVA" for va
  proof (cases "PGROUNDDOWN va = a")
    case True
    then show ?thesis
      using \<open>page_is s' (pgtbl s' pt a) (perm OR PTE_V) c\<close> same [OF True] spec r1 [of va] a(3) by simp
  next
    case False
    then have out: "\<not> (unat a \<le> unat va \<and> unat va < unat a + 4096)"
      using r1 by blast
    show ?thesis
    proof (cases "lo \<le> unat va \<and> unat va < unat a")
      case True
      with D(4) [OF va] keep [OF va] old [OF va False] show ?thesis
        by (auto split: option.splits)
    next
      case F: False
      with D(3) [OF va] old [OF va False] out show ?thesis
        by auto
    qed
  qed
  show ?thesis
    unfolding filled_def d using holds_trans [OF D(1) h] o tt by blast
qed

text \<open>Giving up: what was mapped is unmapped again.\<close>

lemma owns_grows:
  assumes own: "owns s pt lo hi" and g: "grows 2 pt s s'"
    and eq: "\<forall>va<MAXVA. pgtbl s' pt va = pgtbl s pt va"
  shows "owns s' pt lo hi" and "data_pages (pgtbl s' pt) lo hi = data_pages (pgtbl s pt) lo hi"
proof -
  have v: "mapped_vas (pgtbl s' pt) lo hi = mapped_vas (pgtbl s pt) lo hi"
    and d: "data_pages (pgtbl s' pt) lo hi = data_pages (pgtbl s pt) lo hi"
    using eq by (intro mapped_vas_cong; blast)+
  then show "data_pages (pgtbl s' pt) lo hi = data_pages (pgtbl s pt) lo hi"
    by blast
  have "data_pages (pgtbl s pt) lo hi \<subseteq> owned_pages s' - ptnodes (phys s') 2 pt"
    using own growsD(6,8) [OF g] free_owned_disjoint [of s] unfolding owns_def by blast
  moreover have "PGROUNDDOWN va = PGROUNDDOWN va'"
    if m: "va \<in> mapped_vas (pgtbl s pt) lo hi" "va' \<in> mapped_vas (pgtbl s pt) lo hi"
      and e: "PTE2PA (pgtbl s' pt va) = PTE2PA (pgtbl s' pt va')" for va va'
  proof -
    have "pgtbl s' pt va = pgtbl s pt va" "pgtbl s' pt va' = pgtbl s pt va'"
      using m eq by (simp_all add: mapped_vas_def)
    with e m own show ?thesis
      unfolding owns_def by metis
  qed
  ultimately show "owns s' pt lo hi"
    unfolding owns_def v d by blast
qed

lemma filled_undo:
  assumes f: "filled s0 pt lo hi spec s" and g: "grows 2 pt s s1"
    and eq: "\<forall>va<MAXVA. pgtbl s1 pt va = pgtbl s pt va"
    and sh: "shrinks pt (data_pages (pgtbl s1 pt) lo hi) s1 s'"
    and un: "\<forall>va<MAXVA. pgtbl s' pt va = unmapped (pgtbl s1 pt) lo hi va"
    and inv: "\<forall>va<MAXVA. lo \<le> unat va \<and> unat va < hi \<longrightarrow> \<not> pvalid (pgtbl s0 pt va)"
  shows "grows 2 pt s0 s'"
    and "\<forall>va<MAXVA. \<not> (lo \<le> unat va \<and> unat va < hi) \<longrightarrow> pgtbl s' pt va = pgtbl s0 pt va"
    and "\<forall>va<MAXVA. lo \<le> unat va \<and> unat va < hi \<longrightarrow> \<not> pvalid (pgtbl s' pt va)"
proof -
  note D = filledD [OF f]
  have "holds pt (data_pages (pgtbl s pt) lo hi) s0 s1"
    by (rule holds_grows [OF D(1) g])
  from holds_shrinks [OF this sh] show "grows 2 pt s0 s'"
    using owns_grows(2) [OF D(2) g eq] by (simp add: holds_empty)
  show "\<forall>va<MAXVA. \<not> (lo \<le> unat va \<and> unat va < hi) \<longrightarrow> pgtbl s' pt va = pgtbl s0 pt va"
  proof (intro allI impI)
    fix va
    assume va: "va < MAXVA" and out: "\<not> (lo \<le> unat va \<and> unat va < hi)"
    then have "pgtbl s' pt va = pgtbl s1 pt va"
      using un unmapped_out by auto
    with eq va D(3) [OF va out] show "pgtbl s' pt va = pgtbl s0 pt va"
      by simp
  qed
  show "\<forall>va<MAXVA. lo \<le> unat va \<and> unat va < hi \<longrightarrow> \<not> pvalid (pgtbl s' pt va)"
    using un unmapped_in by auto
qed

section \<open>Growing\<close>

definition zero_spec :: "uint64 \<Rightarrow> uint64 \<Rightarrow> (uint64 \<times> (uint64 \<Rightarrow> uint8)) option" where
  "zero_spec fl a = Some (fl, \<lambda>_. 0)"

text \<open>The outcome of \<open>uvmalloc\<close>: the whole range, or nothing.\<close>

definition uvmalloc_post :: "'a kmem_state_scheme \<Rightarrow> uint64 \<Rightarrow> nat \<Rightarrow> uint64 \<Rightarrow> uint64 \<Rightarrow>
    uint64 \<Rightarrow> 'a kmem_state_scheme \<Rightarrow> bool" where
  "uvmalloc_post s0 pt lo newsz perm r s' \<longleftrightarrow>
     r = newsz \<and> filled s0 pt lo (unat (PGROUNDUP newsz)) (zero_spec (perm OR PTE_V)) s' \<or>
     r = 0 \<and> grows 2 pt s0 s' \<and>
       (\<forall>va<MAXVA. \<not> (lo \<le> unat va \<and> unat va < unat (PGROUNDUP newsz)) \<longrightarrow>
          pgtbl s' pt va = pgtbl s0 pt va) \<and>
       (\<forall>va<MAXVA. lo \<le> unat va \<and> unat va < unat (PGROUNDUP newsz) \<longrightarrow> \<not> pvalid (pgtbl s' pt va))"

lemma uvmalloc_undo:
  assumes f: "filled s0 pt (unat oldsz) (unat a) spec s" and g: "grows 2 pt s s1"
    and eq: "\<forall>va<MAXVA. pgtbl s1 pt va = pgtbl s pt va"
    and al: "pg_aligned oldsz" "pg_aligned a" "unat oldsz \<le> unat a" "a \<le> MAXVA"
    and hi: "unat a \<le> unat (PGROUNDUP newsz)"
    and inv: "\<forall>va<MAXVA. unat oldsz \<le> unat va \<and> unat va < unat (PGROUNDUP newsz) \<longrightarrow> \<not> pvalid (pgtbl s0 pt va)"
  shows "\<exists>r s'. uvmdealloc pt a oldsz s1 = Ok (r, s') \<and> uvmalloc_post s0 pt (unat oldsz) newsz perm 0 s'"
proof -
  have "oldsz \<le> MAXVA"
    using al(3,4) by (simp add: word_le_nat_alt)
  then have up: "PGROUNDUP oldsz = oldsz" "PGROUNDUP a = a"
    using al PGROUNDUP_aligned by blast+
  note own = owns_grows [OF filledD(2) [OF f] g eq]
  have ex: "\<exists>r s'. uvmdealloc pt a oldsz s1 = Ok (r, s') \<and>
      shrinks pt (data_pages (pgtbl s1 pt) (unat oldsz) (unat a)) s1 s' \<and>
      (\<forall>va<MAXVA. pgtbl s' pt va = unmapped (pgtbl s1 pt) (unat oldsz) (unat a) va)"
  proof (cases "oldsz < a")
    case True
    then show ?thesis
      using uvmdealloc_ok [OF growsD(1,2) [OF g] True al(4)] own(1) unfolding up by blast
  next
    case False
    then have "oldsz = a"
      using al(3) by (auto simp: word_less_nat_alt word_unat_eq_iff)
    moreover have "data_pages (pgtbl s1 pt) (unat a) (unat a) = {}"
      by (auto simp: data_pages_def mapped_vas_def)
    moreover have "unmapped (pgtbl s1 pt) (unat a) (unat a) va = pgtbl s1 pt va" for va
      by (auto simp: unmapped_def)
    ultimately show ?thesis
      using shrinks_refl [OF growsD(1,2) [OF g]] by (simp add: uvmdealloc_def)
  qed
  then obtain r s' where s': "uvmdealloc pt a oldsz s1 = Ok (r, s')"
      "shrinks pt (data_pages (pgtbl s1 pt) (unat oldsz) (unat a)) s1 s'"
      "\<forall>va<MAXVA. pgtbl s' pt va = unmapped (pgtbl s1 pt) (unat oldsz) (unat a) va"
    by blast
  have inv': "\<forall>va<MAXVA. unat oldsz \<le> unat va \<and> unat va < unat a \<longrightarrow> \<not> pvalid (pgtbl s0 pt va)"
    using inv hi by (meson less_le_trans)
  note u = filled_undo [OF f g eq s'(2,3) inv']
  have "\<not> pvalid (pgtbl s' pt va)"
    if "va < MAXVA" "unat oldsz \<le> unat va" "unat va < unat (PGROUNDUP newsz)" for va
    using that u(2,3) inv by (metis not_le)
  moreover have "pgtbl s' pt va = pgtbl s0 pt va"
    if "va < MAXVA" "\<not> (unat oldsz \<le> unat va \<and> unat va < unat (PGROUNDUP newsz))" for va
    using that u(2) hi by (meson less_le_trans)
  ultimately show ?thesis
    using s'(1) u(1) unfolding uvmalloc_post_def by blast
qed

lemma uvmalloc_loop_ok:
  assumes "filled s0 pt (unat oldsz) (unat a) (zero_spec ((PTE_R OR PTE_U OR xperm) OR PTE_V)) s"
    and "pg_aligned a" and "pg_aligned oldsz" and "unat oldsz \<le> unat a"
    and "unat a + 4096 * n = unat (PGROUNDUP newsz)" and "newsz \<le> MAXVA" and "xperm < 1024"
    and "\<forall>va<MAXVA. unat oldsz \<le> unat va \<and> unat va < unat (PGROUNDUP newsz) \<longrightarrow> \<not> pvalid (pgtbl s0 pt va)"
  shows "\<exists>r s'. uvmalloc_loop pt a oldsz newsz xperm s = Ok (r, s') \<and>
    uvmalloc_post s0 pt (unat oldsz) newsz (PTE_R OR PTE_U OR xperm) r s'"
  using assms
proof (induction n arbitrary: a s)
  case 0
  have n: "unat newsz \<le> unat MAXVA"
    using 0(6) by (simp add: word_le_nat_alt)
  have a: "unat a = unat (PGROUNDUP newsz)"
    using 0(5) by simp
  have "\<not> a < newsz"
    using unat_PGROUNDUP_MAXVA(2) [OF n] a by (simp add: word_less_nat_alt)
  then have "uvmalloc_loop pt a oldsz newsz xperm s = Ok (newsz, s)"
    by (simp add: uvmalloc_loop.simps [of pt a])
  then show ?case
    using 0(1) unfolding uvmalloc_post_def a by blast
next
  case (Suc n)
  let ?perm = "PTE_R OR PTE_U OR xperm"
  have n: "unat newsz \<le> unat MAXVA"
    using Suc.prems(6) by (simp add: word_le_nat_alt)
  note up = unat_PGROUNDUP_MAXVA [OF n]
  have lt: "a < newsz" and aM: "a < MAXVA" "a \<le> MAXVA"
    using up Suc.prems(5) by (simp_all add: word_less_nat_alt word_le_nat_alt)
  have perm: "?perm < 1024"
    using Suc.prems(7) by (intro or_less_1024) simp_all
  have hi: "unat a \<le> unat (PGROUNDUP newsz)"
    using Suc.prems(5) by simp
  note D = filledD [OF Suc.prems(1)] and H = holdsD [OF D(1)]
  have same: "\<forall>va<MAXVA. pgtbl s pt va = pgtbl s pt va"
    by simp
  show ?case
  proof (cases "free_pages s = {}")
    case True
    from uvmalloc_undo [OF Suc.prems(1) grows_refl [OF H(1,2)] same Suc.prems(3,2,4) aM(2) hi Suc.prems(8)]
    obtain r s' where "uvmdealloc pt a oldsz s = Ok (r, s')"
        "uvmalloc_post s0 pt (unat oldsz) newsz ?perm 0 s'"
      by blast
    with kalloc_empty [OF H(1) True] lt show ?thesis
      by (simp add: uvmalloc_loop.simps [of pt a])
  next
    case False
    from kalloc_nonempty [OF H(1) False] obtain mem s1 where k: "kalloc s = Ok (mem, s1)" "mem \<noteq> 0"
      by blast
    note z = kalloc_zero_page [OF H(1) k]
    let ?m = "memset (phys s1) mem 0 4096"
    have zp: "zero_page mem s1 = s1\<lparr>phys := ?m\<rparr>"
      by (simp add: zero_page_def)
    have m: "?m = (\<lambda>x. if x \<in> page mem then 0 else phys s x)"
      using z(6) by (simp add: zp)
    then have mo: "\<forall>x. x \<notin> page mem \<longrightarrow> ?m x = phys s x"
      by simp
    have inv: "\<not> pvalid (pgtbl s pt a)"
      using D(3) [OF aM(1)] Suc.prems(4,5,8) aM(1) by simp
    show ?thesis
      using H(1,2) k mo Suc.prems(2) aM(1) inv
    proof (cases rule: map_fresh [where perm = ?perm])
      case (mapped s')
      have c: "phys s' (mem + off) = 0" if "off < PGSIZE" for off
        using mapped(4) [of "mem + off"] page_off_in_page [OF z(8), of off] that
        by (simp add: m word_less_nat_alt)
      have f': "filled s0 pt (unat oldsz) (unat a + 4096) (zero_spec (?perm OR PTE_V)) s'"
        by (rule filled_map [OF Suc.prems(1,2) aM(1) Suc.prems(4) _ perm mapped(2,3) c])
          (simp_all add: zero_spec_def)
      have na: "unat (a + PGSIZE) = unat a + 4096" "pg_aligned (a + PGSIZE)"
        using pg_aligned_next [OF Suc.prems(2)] aM(1) by (simp_all add: word_less_nat_alt)
      have "\<exists>r s''. uvmalloc_loop pt (a + PGSIZE) oldsz newsz xperm s' = Ok (r, s'') \<and>
          uvmalloc_post s0 pt (unat oldsz) newsz ?perm r s''"
        using f' Suc.prems(3-8) by (intro Suc.IH) (simp_all add: na)
      moreover have "uvmalloc_loop pt a oldsz newsz xperm s =
          uvmalloc_loop pt (a + PGSIZE) oldsz newsz xperm s'"
        using lt k mapped(1) by (simp add: uvmalloc_loop.simps [of pt a] zp)
      ultimately show ?thesis by simp
    next
      case (nomem r s' s3)
      then have eq: "\<forall>va<MAXVA. pgtbl s3 pt va = pgtbl s pt va"
        by simp
      from uvmalloc_undo [OF Suc.prems(1) nomem(4) eq Suc.prems(3,2,4) aM(2) hi Suc.prems(8)]
      obtain r' s'' where "uvmdealloc pt a oldsz s3 = Ok (r', s'')"
          "uvmalloc_post s0 pt (unat oldsz) newsz ?perm 0 s''"
        by blast
      with lt k nomem(1-3) show ?thesis
        by (simp add: uvmalloc_loop.simps [of pt a] zp)
    qed
  qed
qed

section \<open>Properties\<close>

text \<open>A machine with four pages: an empty page table and three free pages.\<close>

definition four_pages :: kmem_state where
  "four_pages = \<lparr>phys = st64 (st64 (\<lambda>_. 0) 2281689088 2281693184) 2281693184 2281697280,
     kend = 2281684992, freelist = 2281689088, refcount = (\<lambda>i. if i = 557052 then 1 else 0)\<rparr>"

lemma four_page_ok:
  "page_ok four_pages x \<longleftrightarrow>
     x = 2281684992 \<or> x = 2281689088 \<or> x = 2281693184 \<or> x = 2281697280"
proof
  assume x: "page_ok four_pages x"
  then obtain k where k: "unat x = 4096 * k"
    by (auto simp: page_ok_def elim: pg_alignedE)
  have "557052 \<le> k" "k < 557056"
    using x k by (simp_all add: page_ok_def four_pages_def word_le_nat_alt word_less_nat_alt)
  then consider "k = 557052" | "k = 557053" | "k = 557054" | "k = 557055"
    by linarith
  then show "x = 2281684992 \<or> x = 2281689088 \<or> x = 2281693184 \<or> x = 2281697280"
    by cases (simp_all add: word_unat_eq_iff k)
next
  assume "x = 2281684992 \<or> x = 2281689088 \<or> x = 2281693184 \<or> x = 2281697280"
  then show "page_ok four_pages x"
    by (auto simp: page_ok_def four_pages_def pg_aligned_iff)
qed

lemma four_refcount: "refcount four_pages i = (if i = 557052 then 1 else 0)"
  by (simp add: four_pages_def)

lemma four_free: "free_pages four_pages = {2281689088, 2281693184, 2281697280}"
  and four_owned: "owned_pages four_pages = {2281684992}"
  by (auto simp: free_pages_def owned_pages_def four_page_ok pageidx_def four_refcount)

lemma four_mem:
  "PGROUNDDOWN a \<noteq> 2281689088 \<Longrightarrow> PGROUNDDOWN a \<noteq> 2281693184 \<Longrightarrow> phys four_pages a = 0"
  using st64_page_frame [of 2281693184 0 a] st64_page_frame [of 2281689088 0 a]
  by (simp add: four_pages_def pg_aligned_iff in_page_iff)

lemma four_wf: "kmem_wf four_pages"
proof -
  have d: "span8 2281693184 \<inter> span8 2281689088 = {}"
    using entry_span_in_page [of 2281693184 0] entry_span_in_page [of 2281689088 0]
      pages_disjoint [of 2281693184 2281689088] by (auto simp: pg_aligned_iff)
  have l3: "ld64 (phys four_pages) 2281697280 = 0"
  proof -
    have "ld64 (phys four_pages) (entry 2281697280 0) = ld64 (\<lambda>_. 0) (entry 2281697280 0)"
      by (intro ld64_page_frame four_mem) (simp_all add: pg_aligned_iff in_page_iff)
    then show ?thesis by (simp add: ld64_def)
  qed
  have l1: "ld64 (phys four_pages) 2281689088 = 2281693184"
    and l2: "ld64 (phys four_pages) 2281693184 = 2281697280"
    using d by (simp_all add: four_pages_def ld64_st64_disjoint)
  have "flist (phys four_pages) (freelist four_pages) [2281689088, 2281693184, 2281697280]"
    using l1 l2 l3 by (simp add: four_pages_def)
  then show ?thesis
    unfolding kmem_wf_def four_free
    by (intro conjI exI [of _ "[2281689088, 2281693184, 2281697280]"]) (auto simp: four_pages_def)
qed

lemma four_pt: "pt_ok four_pages 2 2281684992" "pgtbl four_pages 2281684992 va = 0"
  "ptnodes (phys four_pages) 2 2281684992 = {2281684992}"
proof -
  have z: "phys four_pages a = 0" if "a \<in> page 2281684992" for a
    using that by (intro four_mem) (simp_all add: in_page_iff)
  note e = pt_empty [of 2281684992 "phys four_pages", OF _ z]
  show "ptnodes (phys four_pages) 2 2281684992 = {2281684992}" "pgtbl four_pages 2281684992 va = 0"
    by (rule e; simp add: pg_aligned_iff)+
  moreover have "pt_wf (phys four_pages) 2 2281684992"
    by (rule e; simp add: pg_aligned_iff)
  ultimately show "pt_ok four_pages 2 2281684992"
    by (simp add: pt_ok_def four_owned)
qed

text \<open>C18: \<open>mappages\<close> on an unmapped, page-aligned range below \<open>MAXVA\<close>. On success every address of the
  range is mapped to its physical page with the given permissions and every other address keeps its
  entry. On failure (-1) the memory is exhausted and only a prefix of the range is mapped.
  In both cases the page tables stay a tree of pages owned by this table, and no byte outside the
  table and the free pages changes.\<close>

theorem mappages_correct:
  assumes "kmem_wf s" and "pt_ok s 2 pt" and "pg_aligned va" and "0 < n"
    and "unat va + 4096 * n \<le> unat MAXVA"
    and "\<And>a. a < MAXVA \<Longrightarrow> unat va \<le> unat a \<Longrightarrow> unat a < unat va + 4096 * n \<Longrightarrow>
      \<not> pvalid (pgtbl s pt a)"
  shows "\<exists>s' j. mappages pt va (of_nat n * PGSIZE) pa perm s = Ok (if j = n then 0 else -1, s') \<and>
    j \<le> n \<and> (j \<noteq> n \<longrightarrow> free_pages s' = {}) \<and>
    (\<forall>a<MAXVA. pgtbl s' pt a = map_range (pgtbl s pt) va j pa perm a) \<and>
    kmem_wf s' \<and> pt_ok s' 2 pt \<and>
    (\<forall>x. PGROUNDDOWN x \<notin> ptnodes (phys s) 2 pt \<union> free_pages s \<longrightarrow> phys s' x = phys s x)"
proof -
  obtain k where n: "n = Suc k"
    using assms(4) by (cases n) auto
  have u: "unat (of_nat n * PGSIZE :: uint64) = 4096 * n"
    using assms(5) by (simp add: unat_word_ariths unsigned_of_nat take_bit_nat_eq_self)
  have "(of_nat n * PGSIZE :: uint64) mod PGSIZE = 0" "(of_nat n * PGSIZE :: uint64) \<noteq> 0"
    using u n by (simp_all add: word_unat_eq_iff unat_mod_PGSIZE)
  moreover have last: "va + of_nat n * PGSIZE - PGSIZE = va + of_nat k * PGSIZE"
    by (simp add: n algebra_simps)
  ultimately have m: "mappages pt va (of_nat n * PGSIZE) pa perm s =
      mappages_loop pt va (va + of_nat k * PGSIZE) pa perm s"
    using assms(3) unfolding mappages_def last by (simp add: pg_aligned_def)
  have "\<exists>s' j. mappages_loop pt va (va + of_nat k * PGSIZE) pa perm s =
      Ok (if j = Suc k then 0 else -1, s') \<and> j \<le> Suc k \<and> grows 2 pt s s' \<and>
      (j \<noteq> Suc k \<longrightarrow> free_pages s' = {}) \<and>
      (\<forall>a<MAXVA. pgtbl s' pt a = map_range (pgtbl s pt) va j pa perm a)"
    using assms n by (intro mappages_loop_ok) auto
  then obtain s' j where j: "mappages_loop pt va (va + of_nat k * PGSIZE) pa perm s =
      Ok (if j = n then 0 else -1, s')" "j \<le> n" "grows 2 pt s s'" "j \<noteq> n \<longrightarrow> free_pages s' = {}"
      "\<forall>a<MAXVA. pgtbl s' pt a = map_range (pgtbl s pt) va j pa perm a"
    unfolding n by blast
  with growsD(1,2,9) [OF j(3)] show ?thesis
    unfolding m by blast
qed

theorem mappages_correct_witness:
  "\<exists>s' j. mappages 2281684992 8192 (of_nat 1 * PGSIZE) 2281689088 6 four_pages =
     Ok (if j = (1 :: nat) then 0 else -1, s') \<and> j \<le> 1 \<and> kmem_wf s'"
proof -
  have "\<exists>s' j. mappages 2281684992 8192 (of_nat 1 * PGSIZE) 2281689088 6 four_pages =
      Ok (if j = 1 then 0 else -1, s') \<and> j \<le> 1 \<and> (j \<noteq> 1 \<longrightarrow> free_pages s' = {}) \<and>
      (\<forall>a<MAXVA. pgtbl s' 2281684992 a = map_range (pgtbl four_pages 2281684992) 8192 j 2281689088 6 a) \<and>
      kmem_wf s' \<and> pt_ok s' 2 2281684992 \<and>
      (\<forall>x. PGROUNDDOWN x \<notin> ptnodes (phys four_pages) 2 2281684992 \<union> free_pages four_pages \<longrightarrow>
        phys s' x = phys four_pages x)"
    by (rule mappages_correct) (simp_all add: four_wf four_pt pg_aligned_iff)
  then show ?thesis by blast
qed

text \<open>C19: \<open>uvmunmap\<close> on a page-aligned range below \<open>MAXVA\<close> never panics. It clears the valid entries
  of the range and no other; with \<open>do_free\<close> exactly the pages behind them are freed, provided the range
  owns them.\<close>

theorem uvmunmap_correct:
  assumes "kmem_wf s" and "pt_ok s 2 pt" and "pg_aligned a" and "unat a + 4096 * unat n \<le> unat MAXVA"
    and "do_free \<Longrightarrow> owns s pt (unat a) (unat a + 4096 * unat n)"
  shows "\<exists>s'. uvmunmap pt a n do_free s = Ok s' \<and> kmem_wf s' \<and> pt_ok s' 2 pt \<and>
    (\<forall>va<MAXVA. pgtbl s' pt va = unmapped (pgtbl s pt) (unat a) (unat a + 4096 * unat n) va) \<and>
    free_pages s' = free_pages s \<union>
      (if do_free then data_pages (pgtbl s pt) (unat a) (unat a + 4096 * unat n) else {})"
proof -
  from uvmunmap_ok [OF assms] obtain s' where s': "uvmunmap pt a n do_free s = Ok s'"
    "shrinks pt (if do_free then data_pages (pgtbl s pt) (unat a) (unat a + 4096 * unat n) else {}) s s'"
    "\<forall>va<MAXVA. pgtbl s' pt va = unmapped (pgtbl s pt) (unat a) (unat a + 4096 * unat n) va"
    by blast
  with shrinksD(1,2,6) [OF s'(2)] show ?thesis by blast
qed

theorem uvmunmap_correct_witness:
  "\<exists>s'. uvmunmap 2281684992 4096 2 True four_pages = Ok s' \<and> kmem_wf s'"
proof -
  have "owns four_pages 2281684992 (unat (4096 :: uint64)) (unat (4096 :: uint64) + 4096 * unat (2 :: uint64))"
    by (simp add: owns_def data_pages_def mapped_vas_def four_pt)
  then show ?thesis
    using uvmunmap_correct [OF four_wf four_pt(1), of 4096 2 True] by (auto simp: pg_aligned_iff)
qed

text \<open>C7: \<open>uvmalloc\<close> is all or nothing. Growing unmapped memory either returns the new size, with every
  page of the range mapped to a fresh page of zeros that belongs to this address alone, or returns 0,
  with no address of the range mapped, every other entry unchanged, and every page either free again
  or a node of the page table.\<close>

theorem uvmalloc_correct:
  assumes "kmem_wf s" and "pt_ok s 2 pt" and "oldsz \<le> newsz" and "newsz \<le> MAXVA" and "xperm < 1024"
    and "\<forall>va<MAXVA. unat (PGROUNDUP oldsz) \<le> unat va \<and> unat va < unat (PGROUNDUP newsz) \<longrightarrow>
      \<not> pvalid (pgtbl s pt va)"
  shows "\<exists>r s'. uvmalloc pt oldsz newsz xperm s = Ok (r, s') \<and>
    uvmalloc_post s pt (unat (PGROUNDUP oldsz)) newsz (PTE_R OR PTE_U OR xperm) r s'"
proof -
  have le: "unat oldsz \<le> unat newsz" "unat newsz \<le> unat MAXVA" "unat oldsz \<le> unat MAXVA"
    using assms(3,4) by (simp_all add: word_le_nat_alt)
  have "unat (PGROUNDUP oldsz) \<le> unat (PGROUNDUP newsz)"
  proof -
    have "PGROUNDUP oldsz \<le> PGROUNDUP newsz \<longleftrightarrow> oldsz \<le> PGROUNDUP newsz"
      using le(3) by (intro PGROUNDUP_le_iff) simp_all
    then show ?thesis
      using le(1) unat_PGROUNDUP_MAXVA(2) [OF le(2)] by (simp add: word_le_nat_alt)
  qed
  moreover obtain i j where "unat (PGROUNDUP oldsz) = 4096 * i" "unat (PGROUNDUP newsz) = 4096 * j"
    by (metis pg_alignedE pg_aligned_PGROUNDUP)
  ultimately have n: "unat (PGROUNDUP oldsz) + 4096 * (j - i) = unat (PGROUNDUP newsz)"
    by simp
  have "\<not> newsz < oldsz"
    using assms(3) by (simp add: not_less)
  then show ?thesis
    using uvmalloc_loop_ok [OF filled_start [OF assms(1,2)] pg_aligned_PGROUNDUP pg_aligned_PGROUNDUP
        order_refl n assms(4,5,6)]
    by (simp add: uvmalloc_def)
qed

theorem uvmalloc_correct_witness:
  "\<exists>r s'. uvmalloc 2281684992 0 4096 PTE_W four_pages = Ok (r, s') \<and>
    uvmalloc_post four_pages 2281684992 (unat (PGROUNDUP 0)) 4096 (PTE_R OR PTE_U OR PTE_W) r s'"
  by (rule uvmalloc_correct) (simp_all add: four_wf four_pt)

end
