(* ===== verification/XvProc.thy ===== *)
theory XvProc
  imports XvUvm
begin

text \<open>
  kernel/proc.c without the parts that use files (\<open>fork\<close>, \<open>exit\<close>, \<open>userinit\<close> are in XvFork). The state adds
  the process table to the page allocator; \<open>cur\<close> is the index of \<open>myproc()\<close> and \<open>tramp\<close> the linker symbol
  \<open>trampoline\<close>. A \<open>struct proc *\<close> is an index into \<open>proc\<close>, null is \<open>None\<close>; a wait channel is named after
  the object whose address the code passes. A routine that calls \<open>sleep\<close> returns \<open>Block\<close>.
\<close>

section \<open>State\<close>

abbreviation (input) NPROC :: nat where "NPROC \<equiv> 64"
abbreviation (input) NOFILE :: nat where "NOFILE \<equiv> 16"

datatype procstate = UNUSED | USED | SLEEPING | RUNNABLE | RUNNING | ZOMBIE

datatype chan = ChNull | ChProc nat | ChPipeR uint64 | ChPipeW uint64 | ChConsole | ChUart
  | ChLock nat | ChTicks | ChSem nat | ChLog | ChDisk nat

text \<open>The saved context of a process that has not run yet starts at \<open>forkret\<close> on its kernel stack.\<close>

datatype kcontext = CtxZero | CtxForkret uint64

record proc =
  state :: procstate
  pchan :: chan
  pkilled :: bool
  xstate :: int
  pid :: int
  parent :: "nat option"
  kstack :: uint64
  psz :: uint64
  pagetable :: uint64
  trapframe :: uint64
  ofile :: "nat \<Rightarrow> nat option"
  cwd :: "nat option"
  pname :: cbuf
  pcontext :: kcontext

record proc_state = kmem_state +
  procs :: "nat \<Rightarrow> proc"
  cur :: nat
  nextpid :: int
  initproc :: "nat option"
  tramp :: uint64

text \<open>The contents of a slot of the zero-initialised \<open>proc\<close> table.\<close>

definition proc0 :: proc where
  "proc0 = \<lparr>state = UNUSED, pchan = ChNull, pkilled = False, xstate = 0, pid = 0, parent = None, kstack = 0,
     psz = 0, pagetable = 0, trapframe = 0, ofile = (\<lambda>_. None), cwd = None, pname = (\<lambda>_. 0), pcontext = CtxZero\<rparr>"

definition upd_proc :: "nat \<Rightarrow> (proc \<Rightarrow> proc) \<Rightarrow> 'a proc_state_scheme \<Rightarrow> 'a proc_state_scheme" where
  "upd_proc i f s = s\<lparr>procs := (procs s)(i := f (procs s i))\<rparr>"

definition myproc :: "'a proc_state_scheme \<Rightarrow> proc" where
  "myproc s = procs s (cur s)"

section \<open>Sleep, wakeup, kill\<close>

definition procinit :: "'a proc_state_scheme \<Rightarrow> 'a proc_state_scheme" where
  "procinit s = s\<lparr>procs := (\<lambda>i. if i < NPROC then (procs s i)\<lparr>state := UNUSED, kstack := KSTACK (of_nat i)\<rparr>
     else procs s i)\<rparr>"

definition allocpid :: "'a proc_state_scheme \<Rightarrow> int \<times> 'a proc_state_scheme" where
  "allocpid s = (nextpid s, s\<lparr>nextpid := nextpid s + 1\<rparr>)"

definition wakeup :: "chan \<Rightarrow> 'a proc_state_scheme \<Rightarrow> 'a proc_state_scheme" where
  "wakeup ch s = s\<lparr>procs := (\<lambda>i.
     if i < NPROC \<and> i \<noteq> cur s \<and> state (procs s i) = SLEEPING \<and> pchan (procs s i) = ch
     then (procs s i)\<lparr>state := RUNNABLE\<rparr> else procs s i)\<rparr>"

text \<open>\<open>sleep\<close> up to the call of \<open>sched\<close>, and after the process has been scheduled again.\<close>

definition sleep_begin :: "chan \<Rightarrow> 'a proc_state_scheme \<Rightarrow> 'a proc_state_scheme" where
  "sleep_begin ch s = upd_proc (cur s) (\<lambda>p. p\<lparr>pchan := ch, state := SLEEPING\<rparr>) s"

definition sleep_end :: "'a proc_state_scheme \<Rightarrow> 'a proc_state_scheme" where
  "sleep_end s = upd_proc (cur s) (\<lambda>p. p\<lparr>pchan := ChNull\<rparr>) s"

definition yield_begin :: "'a proc_state_scheme \<Rightarrow> 'a proc_state_scheme" where
  "yield_begin s = upd_proc (cur s) (\<lambda>p. p\<lparr>state := RUNNABLE\<rparr>) s"

text \<open>One visit of \<open>scheduler\<close> to slot \<open>i\<close>, up to the switch.\<close>

definition scheduler_visit :: "nat \<Rightarrow> 'a proc_state_scheme \<Rightarrow> 'a proc_state_scheme" where
  "scheduler_visit i s =
     (if state (procs s i) = RUNNABLE
      then (upd_proc i (\<lambda>p. p\<lparr>state := RUNNING\<rparr>) s)\<lparr>cur := i\<rparr> else s)"

text \<open>\<open>find_slot P i n\<close>: the first slot from \<open>i\<close> on, with \<open>n\<close> slots left, that satisfies \<open>P\<close>.\<close>

primrec find_slot :: "(nat \<Rightarrow> bool) \<Rightarrow> nat \<Rightarrow> nat \<Rightarrow> nat option" where
  "find_slot P i 0 = None"
| "find_slot P i (Suc n) = (if P i then Some i else find_slot P (Suc i) n)"

definition kill :: "int \<Rightarrow> 'a proc_state_scheme \<Rightarrow> int \<times> 'a proc_state_scheme" where
  "kill p s =
     (case find_slot (\<lambda>i. pid (procs s i) = p) 0 NPROC of
        None \<Rightarrow> (-1, s)
      | Some i \<Rightarrow> (0, upd_proc i (\<lambda>p. let p' = p\<lparr>pkilled := True\<rparr> in
            if state p' = SLEEPING then p'\<lparr>state := RUNNABLE\<rparr> else p') s))"

definition setkilled :: "nat \<Rightarrow> 'a proc_state_scheme \<Rightarrow> 'a proc_state_scheme" where
  "setkilled i s = upd_proc i (\<lambda>p. p\<lparr>pkilled := True\<rparr>) s"

definition killed :: "nat \<Rightarrow> 'a proc_state_scheme \<Rightarrow> bool" where
  "killed i s = pkilled (procs s i)"

definition reparent :: "nat \<Rightarrow> 'a proc_state_scheme \<Rightarrow> 'a proc_state_scheme" where
  "reparent p s = fold (\<lambda>i s.
     if parent (procs s i) = Some p
     then wakeup (case initproc s of None \<Rightarrow> ChNull | Some j \<Rightarrow> ChProc j)
            (upd_proc i (\<lambda>q. q\<lparr>parent := initproc s\<rparr>) s)
     else s) [0..<NPROC] s"

section \<open>Process page tables\<close>

definition proc_pagetable :: "uint64 \<Rightarrow> 'a proc_state_scheme \<Rightarrow> (uint64 \<times> 'a proc_state_scheme) res" where
  "proc_pagetable tf s =
     bindr (uvmcreate s) (\<lambda>(pt, s1).
       if pt = 0 then Ok (0, s1)
       else bindr (mappages pt TRAMPOLINE PGSIZE (tramp s1) (PTE_R OR PTE_X) s1) (\<lambda>(r, s2).
         if r < 0 then bindr (uvmfree pt 0 s2) (\<lambda>s3. Ok (0, s3))
         else bindr (mappages pt TRAPFRAME PGSIZE tf (PTE_R OR PTE_W) s2) (\<lambda>(r, s3).
           if r < 0 then bindr (uvmunmap pt TRAMPOLINE 1 False s3) (\<lambda>s4.
             bindr (uvmfree pt 0 s4) (\<lambda>s5. Ok (0, s5)))
           else Ok (pt, s3))))"

definition proc_freepagetable :: "uint64 \<Rightarrow> uint64 \<Rightarrow> 'a proc_state_scheme \<Rightarrow> 'a proc_state_scheme res" where
  "proc_freepagetable pt sz s =
     bindr (uvmunmap pt TRAMPOLINE 1 False s) (\<lambda>s1.
     bindr (uvmunmap pt TRAPFRAME 1 False s1) (\<lambda>s2.
     uvmfree pt sz s2))"

definition freeproc :: "nat \<Rightarrow> 'a proc_state_scheme \<Rightarrow> 'a proc_state_scheme res" where
  "freeproc i s =
     bindr (if trapframe (procs s i) \<noteq> 0 then kfree (trapframe (procs s i)) s else Ok s) (\<lambda>s1.
     bindr (let s2 = upd_proc i (\<lambda>p. p\<lparr>trapframe := 0\<rparr>) s1
            in if pagetable (procs s2 i) \<noteq> 0
               then proc_freepagetable (pagetable (procs s2 i)) (psz (procs s2 i)) s2 else Ok s2) (\<lambda>s3.
     Ok (upd_proc i (\<lambda>p. p\<lparr>pagetable := 0, psz := 0, pid := 0, parent := None,
       pname := (pname p)(0 := 0), pchan := ChNull, pkilled := False, xstate := 0, state := UNUSED\<rparr>) s3)))"

definition allocproc :: "'a proc_state_scheme \<Rightarrow> (nat option \<times> 'a proc_state_scheme) res" where
  "allocproc s =
     (case find_slot (\<lambda>i. state (procs s i) = UNUSED) 0 NPROC of
        None \<Rightarrow> Ok (None, s)
      | Some i \<Rightarrow>
          let (np, s1) = allocpid s;
              s2 = upd_proc i (\<lambda>p. p\<lparr>pid := np, state := USED\<rparr>) s1
          in bindr (kalloc s2) (\<lambda>(tf, s3).
             let s4 = upd_proc i (\<lambda>p. p\<lparr>trapframe := tf\<rparr>) s3
             in if tf = 0 then bindr (freeproc i s4) (\<lambda>s5. Ok (None, s5))
                else bindr (proc_pagetable tf s4) (\<lambda>(pt, s5).
                  let s6 = upd_proc i (\<lambda>p. p\<lparr>pagetable := pt\<rparr>) s5
                  in if pt = 0 then bindr (freeproc i s6) (\<lambda>s7. Ok (None, s7))
                     else Ok (Some i, upd_proc i (\<lambda>p. p\<lparr>pcontext := CtxForkret (kstack p + PGSIZE)\<rparr>) s6))))"

text \<open>\<open>n > p->sz\<close> compares the \<open>int\<close> converted to \<open>uint64\<close>.\<close>

definition shrinkproc :: "uint32 \<Rightarrow> 'a proc_state_scheme \<Rightarrow> (int \<times> 'a proc_state_scheme) res" where
  "shrinkproc n s =
     (let p = myproc s; m = (scast n :: uint64)
      in if psz p < m then Ok (-1, s)
         else bindr (uvmdealloc (pagetable p) (psz p) (psz p - m) s) (\<lambda>(sz, s1).
           Ok (0, upd_proc (cur s1) (\<lambda>p. p\<lparr>psz := sz\<rparr>) s1)))"

section \<open>wait\<close>

definition int_bytes :: "int \<Rightarrow> uint8 list" where
  "int_bytes v = map (\<lambda>k. ucast (drop_bit (8 * k) (word_of_int v :: uint32))) [0..<4]"

definition either_copyout :: "bool \<Rightarrow> uint64 \<Rightarrow> uint8 list \<Rightarrow> 'a proc_state_scheme \<Rightarrow>
    (int \<times> 'a proc_state_scheme) res" where
  "either_copyout user_dst dst src s =
     (let p = myproc s
      in if user_dst then copyout (pagetable p) (psz p) (pagetable p) dst src s
         else Ok (0, s\<lparr>phys := wr_bytes (phys s) dst src\<rparr>))"

definition either_copyin :: "bool \<Rightarrow> uint64 \<Rightarrow> nat \<Rightarrow> 'a proc_state_scheme \<Rightarrow>
    (int \<times> uint8 list \<times> 'a proc_state_scheme) res" where
  "either_copyin user_src src len s =
     (let p = myproc s
      in if user_src then copyin (pagetable p) (psz p) (pagetable p) src len s
         else Ok (0, rd_bytes (phys s) src len, s))"

text \<open>A routine that can sleep ends in \<open>Done\<close> with its result, or in \<open>Asleep\<close> with what it keeps to be resumed.\<close>

datatype 'k run = Done int | Asleep 'k

text \<open>One scan of the table; the process sleeps on itself when it has a live child.\<close>

definition wait :: "uint64 \<Rightarrow> 'a proc_state_scheme \<Rightarrow> (unit run \<times> 'a proc_state_scheme) res" where
  "wait addr s =
     (let mine = (\<lambda>i. parent (procs s i) = Some (cur s)); p = myproc s
      in case find_slot (\<lambda>i. mine i \<and> state (procs s i) = ZOMBIE) 0 NPROC of
           Some i \<Rightarrow>
             let pd = pid (procs s i)
             in bindr (if addr \<noteq> 0
                  then copyout (pagetable p) (psz p) (pagetable p) addr (int_bytes (xstate (procs s i))) s
                  else Ok (0, s)) (\<lambda>(r, s1).
                if r < 0 then Ok (Done (-1), s1)
                else bindr (freeproc i s1) (\<lambda>s2. Ok (Done pd, s2)))
         | None \<Rightarrow>
             if find_slot mine 0 NPROC = None \<or> killed (cur s) s then Ok (Done (-1), s)
             else Ok (Asleep (), sleep_begin (ChProc (cur s)) s))"

section \<open>Lemmas\<close>

lemma find_slot_Some:
  "find_slot P i n = Some j \<Longrightarrow> i \<le> j \<and> j < i + n \<and> P j \<and> (\<forall>k. i \<le> k \<and> k < j \<longrightarrow> \<not> P k)"
proof (induction n arbitrary: i)
  case (Suc n)
  show ?case
  proof (cases "P i")
    case True
    with Suc.prems show ?thesis by auto
  next
    case False
    with Suc.prems have "find_slot P (Suc i) n = Some j" by simp
    from Suc.IH [OF this] have "Suc i \<le> j" "j < Suc i + n" "P j" "\<forall>k. Suc i \<le> k \<and> k < j \<longrightarrow> \<not> P k"
      by auto
    moreover from this(4) False have "\<forall>k. i \<le> k \<and> k < j \<longrightarrow> \<not> P k"
      by (metis Suc_leI le_neq_implies_less)
    ultimately show ?thesis by simp
  qed
qed simp

lemma find_slot_None: "find_slot P i n = None \<longleftrightarrow> (\<forall>j. i \<le> j \<and> j < i + n \<longrightarrow> \<not> P j)"
proof (induction n arbitrary: i)
  case (Suc n)
  have "(\<forall>j. i \<le> j \<and> j < i + Suc n \<longrightarrow> \<not> P j) \<longleftrightarrow> \<not> P i \<and> (\<forall>j. Suc i \<le> j \<and> j < Suc i + n \<longrightarrow> \<not> P j)"
  proof safe
    fix j assume a: "\<not> P i" "\<forall>j. Suc i \<le> j \<and> j < Suc i + n \<longrightarrow> \<not> P j" "i \<le> j" "j < i + Suc n" "P j"
    then show False by (cases "j = i") auto
  qed auto
  with Suc.IH show ?case by simp
qed auto

lemma procs_upd_proc [simp]:
  "procs (upd_proc i f s) = (procs s)(i := f (procs s i))" "cur (upd_proc i f s) = cur s"
  "initproc (upd_proc i f s) = initproc s" "nextpid (upd_proc i f s) = nextpid s"
  by (simp_all add: upd_proc_def)

lemma keeps_procs:
  fixes s s' :: "'a proc_state_scheme"
  assumes "keeps s s'"
  shows "procs s' = procs s" and "cur s' = cur s" and "initproc s' = initproc s"
  using assms by (cases s; cases s'; simp)+

lemma keeps_proc_pagetable: "proc_pagetable tf s = Ok (pt, s') \<Longrightarrow> keeps s s'"
  by (auto simp: proc_pagetable_def split: if_splits
      dest!: keeps_uvmcreate keeps_mappages keeps_uvmfree keeps_uvmunmap)

lemma keeps_proc_freepagetable: "proc_freepagetable pt sz s = Ok s' \<Longrightarrow> keeps s s'"
  by (auto simp: proc_freepagetable_def dest!: keeps_uvmfree keeps_uvmunmap)

lemma freeproc_procs:
  assumes "freeproc i s = Ok s'"
  shows "procs s' = (procs s)(i := (procs s i)\<lparr>trapframe := 0, pagetable := 0, psz := 0, pid := 0,
    parent := None, pname := (pname (procs s i))(0 := 0), pchan := ChNull, pkilled := False,
    xstate := 0, state := UNUSED\<rparr>)" and "cur s' = cur s"
proof -
  from assms obtain s1 s3 where
    1: "(if trapframe (procs s i) \<noteq> 0 then kfree (trapframe (procs s i)) s else Ok s) = Ok s1" and
    3: "(let s2 = upd_proc i (\<lambda>p. p\<lparr>trapframe := 0\<rparr>) s1
         in if pagetable (procs s2 i) \<noteq> 0
            then proc_freepagetable (pagetable (procs s2 i)) (psz (procs s2 i)) s2 else Ok s2) = Ok s3" and
    s': "s' = upd_proc i (\<lambda>p. p\<lparr>pagetable := 0, psz := 0, pid := 0, parent := None,
       pname := (pname p)(0 := 0), pchan := ChNull, pkilled := False, xstate := 0, state := UNUSED\<rparr>) s3"
    by (auto simp: freeproc_def)
  have k1: "keeps s s1"
    using 1 by (auto split: if_splits dest: keeps_kfree)
  have k3: "keeps (upd_proc i (\<lambda>p. p\<lparr>trapframe := 0\<rparr>) s1) s3"
    using 3 by (auto simp: Let_def split: if_splits dest!: keeps_proc_freepagetable)
  show "procs s' = (procs s)(i := (procs s i)\<lparr>trapframe := 0, pagetable := 0, psz := 0, pid := 0,
    parent := None, pname := (pname (procs s i))(0 := 0), pchan := ChNull, pkilled := False,
    xstate := 0, state := UNUSED\<rparr>)" "cur s' = cur s"
    using keeps_procs [OF k1] keeps_procs [OF k3] s' by (simp_all add: fun_eq_iff)
qed

lemma allocproc_Some:
  assumes "allocproc s = Ok (Some i, s')"
  shows "find_slot (\<lambda>i. state (procs s i) = UNUSED) 0 NPROC = Some i"
    and "procs s' i = (procs s i)\<lparr>pid := nextpid s, state := USED, trapframe := trapframe (procs s' i),
      pagetable := pagetable (procs s' i), pcontext := CtxForkret (kstack (procs s i) + PGSIZE)\<rparr>"
    and "\<forall>j. j \<noteq> i \<longrightarrow> procs s' j = procs s j"
proof -
  let ?s2 = "\<lambda>i. upd_proc i (\<lambda>p. p\<lparr>pid := nextpid s, state := USED\<rparr>) (s\<lparr>nextpid := nextpid s + 1\<rparr>)"
  from assms show f: "find_slot (\<lambda>i. state (procs s i) = UNUSED) 0 NPROC = Some i"
    by (auto simp: allocproc_def allocpid_def Let_def split: option.splits if_splits)
  from assms f obtain tf s3 pt s5 where
    k: "kalloc (?s2 i) = Ok (tf, s3)" and
    p: "proc_pagetable tf (upd_proc i (\<lambda>p. p\<lparr>trapframe := tf\<rparr>) s3) = Ok (pt, s5)" and
    s': "s' = upd_proc i (\<lambda>p. p\<lparr>pcontext := CtxForkret (kstack p + PGSIZE)\<rparr>)
      (upd_proc i (\<lambda>p. p\<lparr>pagetable := pt\<rparr>) s5)"
    by (auto simp: allocproc_def allocpid_def Let_def split: option.splits if_splits)
  note kp = keeps_procs [OF keeps_kalloc [OF k]] keeps_procs [OF keeps_proc_pagetable [OF p]]
  show "procs s' i = (procs s i)\<lparr>pid := nextpid s, state := USED, trapframe := trapframe (procs s' i),
      pagetable := pagetable (procs s' i), pcontext := CtxForkret (kstack (procs s i) + PGSIZE)\<rparr>"
    using s' kp by simp
  show "\<forall>j. j \<noteq> i \<longrightarrow> procs s' j = procs s j"
    using s' kp by simp
qed

section \<open>Properties\<close>

text \<open>C17: \<open>wait\<close> either reaps one exited child of the caller, returning its pid and leaving the slot
  unused and every other slot as it was; or returns -1 (a failed copy of the exit status, no child,
  or a killed caller); or sleeps, only when the caller has children and none of them has exited.\<close>

theorem wait_correct:
  assumes "wait addr s = Ok (out, s')"
  shows "case out of
      Asleep u \<Rightarrow> (\<exists>i < NPROC. parent (procs s i) = Some (cur s)) \<and>
        (\<forall>i < NPROC. parent (procs s i) = Some (cur s) \<longrightarrow> state (procs s i) \<noteq> ZOMBIE) \<and>
        procs s' = (procs s)(cur s := (procs s (cur s))\<lparr>pchan := ChProc (cur s), state := SLEEPING\<rparr>)
    | Done r \<Rightarrow>
        r = -1 \<and> procs s' = procs s \<or>
        (\<exists>i < NPROC. parent (procs s i) = Some (cur s) \<and> state (procs s i) = ZOMBIE \<and> r = pid (procs s i) \<and>
           state (procs s' i) = UNUSED \<and> parent (procs s' i) = None \<and> pid (procs s' i) = 0 \<and>
           (\<forall>j. j \<noteq> i \<longrightarrow> procs s' j = procs s j))"
proof (cases "find_slot (\<lambda>i. parent (procs s i) = Some (cur s) \<and> state (procs s i) = ZOMBIE) 0 NPROC")
  case None
  with assms have "out = Done (-1) \<and> s' = s \<or>
      find_slot (\<lambda>i. parent (procs s i) = Some (cur s)) 0 NPROC \<noteq> None \<and>
      out = Asleep () \<and> s' = sleep_begin (ChProc (cur s)) s"
    by (auto simp: wait_def Let_def split: if_splits)
  with None show ?thesis
    unfolding find_slot_None by (auto simp: sleep_begin_def)
next
  case (Some i)
  let ?c = "if addr \<noteq> 0
    then copyout (pagetable (myproc s)) (psz (myproc s)) (pagetable (myproc s)) addr (int_bytes (xstate (procs s i))) s
    else Ok (0, s)"
  from assms Some obtain r s1 where c: "?c = Ok (r, s1)"
    by (auto simp: wait_def Let_def)
  have k: "keeps s s1"
    using c by (auto split: if_splits dest: keeps_copyout)
  show ?thesis
  proof (cases "r < 0")
    case True
    with assms Some c have "out = Done (-1)" "s' = s1"
      by (auto simp: wait_def Let_def)
    with keeps_procs [OF k] show ?thesis by simp
  next
    case False
    with assms Some c obtain s2 where "freeproc i s1 = Ok s2" "s' = s2" "out = Done (pid (procs s i))"
      by (auto simp: wait_def Let_def)
    with freeproc_procs(1) [of i s1 s2] keeps_procs [OF k] find_slot_Some [OF Some] show ?thesis
      by (auto intro!: exI [of _ i])
  qed
qed

definition parent0 :: proc_state where
  "parent0 = \<lparr>phys = (\<lambda>_. 0), kend = 4096, freelist = 0, refcount = (\<lambda>_. 1),
     procs = (\<lambda>i. if i = 1 then proc0\<lparr>state := RUNNABLE, parent := Some 0, pid := 2\<rparr> else proc0\<lparr>state := RUNNING\<rparr>),
     cur = 0, nextpid = 3, initproc = Some 0, tramp = 0\<rparr>"

theorem wait_correct_witness:
  "wait 0 parent0 = Ok (Asleep (), sleep_begin (ChProc 0) parent0) \<and>
   state (procs (sleep_begin (ChProc 0) parent0) 0) = SLEEPING"
proof -
  have n: "find_slot (\<lambda>i. parent (procs parent0 i) = Some 0 \<and> state (procs parent0 i) = ZOMBIE) 0 NPROC = None"
    by (simp add: find_slot_None parent0_def proc0_def)
  have p: "find_slot (\<lambda>i. parent (procs parent0 i) = Some 0) 0 NPROC \<noteq> None"
    unfolding find_slot_None by (auto simp: parent0_def intro: exI [of _ 1])
  have w: "wait 0 parent0 = Ok (Asleep (), sleep_begin (ChProc 0) parent0)"
    using n p by (simp add: wait_def Let_def killed_def) (simp add: parent0_def proc0_def)
  show ?thesis
    using wait_correct [OF w] w by (simp add: parent0_def)
qed

text \<open>C22: on a table whose first slot with pid 0 is the first unused one, \<open>kill(0)\<close> reports success and
  marks that slot killed. \<open>allocproc\<close> does not clear the mark: the next process it creates takes that
  slot and is born killed.\<close>

theorem kill_zero_poisons_next_process:
  assumes "find_slot (\<lambda>i. pid (procs s i) = 0) 0 NPROC = Some i"
    and "find_slot (\<lambda>i. state (procs s i) = UNUSED) 0 NPROC = Some i"
  shows "fst (kill 0 s) = 0 \<and> state (procs (snd (kill 0 s)) i) = UNUSED \<and> pkilled (procs (snd (kill 0 s)) i) \<and>
    (\<forall>j s'. allocproc (snd (kill 0 s)) = Ok (Some j, s') \<longrightarrow>
       j = i \<and> pkilled (procs s' j) \<and> state (procs s' j) = USED)"
proof -
  let ?t = "upd_proc i (\<lambda>p. p\<lparr>pkilled := True\<rparr>) s"
  from find_slot_Some [OF assms(2)] have u: "state (procs s i) = UNUSED" by simp
  have k: "kill 0 s = (0, ?t)"
    using assms(1) u by (simp add: kill_def upd_proc_def Let_def)
  have e: "(\<lambda>k. state (procs ?t k) = UNUSED) = (\<lambda>k. state (procs s k) = UNUSED)"
    by (auto simp: fun_eq_iff)
  have "j = i \<and> pkilled (procs s' j) \<and> state (procs s' j) = USED" if a: "allocproc ?t = Ok (Some j, s')" for j s'
  proof -
    from allocproc_Some(1) [OF a] assms(2) have "j = i"
      unfolding e by simp
    moreover have "pkilled (procs s' j) = pkilled (procs ?t j)"
      using arg_cong [OF allocproc_Some(2) [OF a], of pkilled] by simp
    moreover have "state (procs s' j) = USED"
      using arg_cong [OF allocproc_Some(2) [OF a], of state] by simp
    ultimately show ?thesis by simp
  qed
  with k u show ?thesis by simp
qed

theorem kill_zero_poisons_next_process_witness:
  "pkilled (procs (snd (kill 0 (parent0\<lparr>procs := \<lambda>i. if i = 0 then proc0\<lparr>state := RUNNING, pid := 1\<rparr> else proc0\<rparr>))) 1)"
  using kill_zero_poisons_next_process
    [of "parent0\<lparr>procs := \<lambda>i. if i = 0 then proc0\<lparr>state := RUNNING, pid := 1\<rparr> else proc0\<rparr>" 1]
  by (simp add: proc0_def numeral_eq_Suc)

end
