(* ===== verification/XvPipe.thy ===== *)
theory XvPipe
  imports XvProc
begin

text \<open>
  kernel/pipe.c without \<open>pipealloc\<close> (see XvFile). A \<open>struct pipe\<close> is the typed contents of the page at
  its address. \<open>pipewrite\<close> and \<open>piperead\<close> either return (\<open>Done\<close>) or are asleep: \<open>pipewrite\<close> is then resumed
  with the number of bytes it has already written.
\<close>

section \<open>State and operations\<close>

abbreviation (input) PIPESIZE :: nat where "PIPESIZE \<equiv> 512"

record pipe =
  pdata :: "nat \<Rightarrow> uint8"
  nread :: uint32
  nwrite :: uint32
  readopen :: bool
  writeopen :: bool

record pipe_state = proc_state +
  pipes :: "uint64 \<Rightarrow> pipe"

definition upd_pipe :: "uint64 \<Rightarrow> (pipe \<Rightarrow> pipe) \<Rightarrow> 'a pipe_state_scheme \<Rightarrow> 'a pipe_state_scheme" where
  "upd_pipe pi f s = s\<lparr>pipes := (pipes s)(pi := f (pipes s pi))\<rparr>"

definition pipe_full :: "pipe \<Rightarrow> bool" where
  "pipe_full q \<longleftrightarrow> nwrite q = nread q + 512"

definition pipe_put :: "uint8 \<Rightarrow> pipe \<Rightarrow> pipe" where
  "pipe_put ch q = q\<lparr>pdata := (pdata q)(unat (nwrite q) mod PIPESIZE := ch), nwrite := nwrite q + 1\<rparr>"

definition pipe_get :: "pipe \<Rightarrow> uint8 \<times> pipe" where
  "pipe_get q = (pdata q (unat (nread q) mod PIPESIZE), q\<lparr>nread := nread q + 1\<rparr>)"

definition pipeclose :: "uint64 \<Rightarrow> bool \<Rightarrow> 'a pipe_state_scheme \<Rightarrow> 'a pipe_state_scheme res" where
  "pipeclose pi writable s =
     (let s1 = (if writable then wakeup (ChPipeR pi) (upd_pipe pi (\<lambda>q. q\<lparr>writeopen := False\<rparr>) s)
                else wakeup (ChPipeW pi) (upd_pipe pi (\<lambda>q. q\<lparr>readopen := False\<rparr>) s))
      in if \<not> readopen (pipes s1 pi) \<and> \<not> writeopen (pipes s1 pi) then kfree pi s1 else Ok s1)"

function pipewrite_loop :: "uint64 \<Rightarrow> uint64 \<Rightarrow> nat \<Rightarrow> nat \<Rightarrow> 'a pipe_state_scheme \<Rightarrow>
    (nat run \<times> 'a pipe_state_scheme) res" where
  "pipewrite_loop pi addr i n s =
     (if i < n then
        if \<not> readopen (pipes s pi) \<or> killed (cur s) s then Ok (Done (-1), s)
        else if pipe_full (pipes s pi)
        then Ok (Asleep i, sleep_begin (ChPipeW pi) (wakeup (ChPipeR pi) s))
        else bindr (copyin (pagetable (myproc s)) (psz (myproc s)) (pagetable (myproc s))
            (addr + of_nat i) 1 s) (\<lambda>(r, ch, s1).
          if r = -1 then Ok (Done (int i), wakeup (ChPipeR pi) s1)
          else pipewrite_loop pi addr (Suc i) n (upd_pipe pi (pipe_put (hd ch)) s1))
      else Ok (Done (int i), wakeup (ChPipeR pi) s))"
  by pat_completeness auto
termination
  by (relation "measure (\<lambda>(pi, addr, i, n, s). n - i)") auto

declare pipewrite_loop.simps [simp del]

definition pipewrite :: "uint64 \<Rightarrow> uint64 \<Rightarrow> int \<Rightarrow> 'a pipe_state_scheme \<Rightarrow>
    (nat run \<times> 'a pipe_state_scheme) res" where
  "pipewrite pi addr n s = pipewrite_loop pi addr 0 (nat n) s"

function piperead_loop :: "uint64 \<Rightarrow> uint64 \<Rightarrow> nat \<Rightarrow> nat \<Rightarrow> 'a pipe_state_scheme \<Rightarrow>
    (nat \<times> 'a pipe_state_scheme) res" where
  "piperead_loop pi addr i n s =
     (if i < n then
        if nread (pipes s pi) = nwrite (pipes s pi) then Ok (i, s)
        else let (ch, q) = pipe_get (pipes s pi); s1 = upd_pipe pi (\<lambda>_. q) s
          in bindr (copyout (pagetable (myproc s1)) (psz (myproc s1)) (pagetable (myproc s1))
               (addr + of_nat i) [ch] s1) (\<lambda>(r, s2).
             if r = -1 then Ok (i, s2) else piperead_loop pi addr (Suc i) n s2)
      else Ok (i, s))"
  by pat_completeness auto
termination
  by (relation "measure (\<lambda>(pi, addr, i, n, s). n - i)") auto

declare piperead_loop.simps [simp del]

definition piperead :: "uint64 \<Rightarrow> uint64 \<Rightarrow> int \<Rightarrow> 'a pipe_state_scheme \<Rightarrow>
    (unit run \<times> 'a pipe_state_scheme) res" where
  "piperead pi addr n s =
     (if nread (pipes s pi) = nwrite (pipes s pi) \<and> writeopen (pipes s pi) then
        if killed (cur s) s then Ok (Done (-1), s)
        else Ok (Asleep (), sleep_begin (ChPipeR pi) s)
      else bindr (piperead_loop pi addr 0 (nat n) s) (\<lambda>(i, s1).
        Ok (Done (int i), wakeup (ChPipeW pi) s1)))"

section \<open>The byte queue\<close>

definition pview :: "pipe \<Rightarrow> uint8 list" where
  "pview q = ring_view PIPESIZE (pdata q) (nread q) (nwrite q)"

definition pipe_wf :: "pipe \<Rightarrow> bool" where
  "pipe_wf q \<longleftrightarrow> unat (nwrite q - nread q) \<le> PIPESIZE"

lemma pipe_wf_length: "pipe_wf q \<longleftrightarrow> length (pview q) \<le> PIPESIZE"
  by (simp add: pipe_wf_def pview_def)

lemma pipe_full_iff:
  assumes "pipe_wf q"
  shows "pipe_full q \<longleftrightarrow> length (pview q) = PIPESIZE"
proof -
  have "pipe_full q \<longleftrightarrow> nwrite q - nread q = 512"
    by (auto simp: pipe_full_def algebra_simps)
  also have "\<dots> \<longleftrightarrow> unat (nwrite q - nread q) = 512"
    by (simp add: word_unat_eq_iff)
  finally show ?thesis by (simp add: pview_def)
qed

interpretation pipe_q: fifo pipe_wf pview PIPESIZE pipe_put pipe_get
proof
  fix q :: pipe
  assume wf: "pipe_wf q"
  show "length (pview q) \<le> PIPESIZE"
    using wf by (simp add: pipe_wf_def pview_def)
  show "pipe_wf (pipe_put x q) \<and> pview (pipe_put x q) = pview q @ [x]"
    if "length (pview q) < PIPESIZE" for x
  proof -
    have lt: "unat (nwrite q - nread q) < 512"
      using that by (simp add: pview_def)
    have v: "pview (pipe_put x q) = pview q @ [x]"
      unfolding pview_def pipe_put_def
      using ring_view_push [of 512 "nwrite q" "nread q" "pdata q" x] lt by simp
    with that show ?thesis by (simp add: pipe_wf_length)
  qed
  show "fst (pipe_get q) = x \<and> pipe_wf (snd (pipe_get q)) \<and> pview (snd (pipe_get q)) = xs"
    if "pview q = x # xs" for x xs
  proof -
    have ne: "nread q \<noteq> nwrite q"
      using that ring_view_empty [of PIPESIZE "pdata q" "nread q" "nwrite q"] by (auto simp: pview_def)
    have "x # xs = pdata q (unat (nread q) mod 512) # pview (snd (pipe_get q))"
      using that ring_view_pop [OF ne, of PIPESIZE "pdata q"] by (simp add: pview_def pipe_get_def)
    with that wf show ?thesis
      by (simp add: pipe_wf_length) (simp add: pipe_get_def)
  qed
qed

lemma pview_Nil: "pview q = [] \<longleftrightarrow> nread q = nwrite q"
  by (simp add: pview_def ring_view_empty)

subsection \<open>Frames\<close>

lemma keeps_fields:
  fixes s s' :: "'a pipe_state_scheme"
  assumes "keeps s s'"
  shows "procs s' = procs s" and "cur s' = cur s" and "pipes s' = pipes s"
  using assms by (cases s; cases s'; simp)+

lemma pipes_simps [simp]:
  "pipes (wakeup ch s) = pipes s" "pipes (sleep_begin ch s) = pipes s"
  "pipes (upd_pipe pi f s) = (pipes s)(pi := f (pipes s pi))"
  by (simp_all add: wakeup_def sleep_begin_def upd_proc_def upd_pipe_def)

text \<open>What \<open>pipewrite\<close> appends, and what it leaves in the pipe when it goes to sleep.\<close>

lemma pipewrite_loop_appends:
  assumes "pipewrite_loop pi addr i n s = Ok (out, s')" and "pipe_wf (pipes s pi)" and "i \<le> n"
  shows "\<exists>bs. pipe_wf (pipes s' pi) \<and> pview (pipes s' pi) = pview (pipes s pi) @ bs \<and>
    (\<forall>pj. pj \<noteq> pi \<longrightarrow> pipes s' pj = pipes s pj) \<and> i + length bs \<le> n \<and>
    (case out of Asleep j \<Rightarrow> j = i + length bs \<and> j < n \<and> length (pview (pipes s' pi)) = PIPESIZE
     | Done r \<Rightarrow> r = -1 \<or> r = int (i + length bs))"
  using assms
proof (induction pi addr i n s rule: pipewrite_loop.induct)
  case (1 pi addr i n s)
  let ?q = "pipes s pi"
  consider "\<not> i < n" | "i < n" "\<not> readopen ?q \<or> killed (cur s) s"
    | "i < n" "\<not> (\<not> readopen ?q \<or> killed (cur s) s)" "pipe_full ?q"
    | "i < n" "\<not> (\<not> readopen ?q \<or> killed (cur s) s)" "\<not> pipe_full ?q"
    by blast
  then show ?case
  proof cases
    case 1
    with "1.prems" show ?thesis
      by (subst (asm) pipewrite_loop.simps) (auto intro!: exI [of _ "[]"])
  next
    case 2
    with "1.prems" show ?thesis
      by (subst (asm) pipewrite_loop.simps) (auto intro!: exI [of _ "[]"])
  next
    case 3
    with "1.prems" pipe_full_iff [of ?q] show ?thesis
      by (subst (asm) pipewrite_loop.simps) (auto intro!: exI [of _ "[]"])
  next
    case 4
    let ?c = "copyin (pagetable (myproc s)) (psz (myproc s)) (pagetable (myproc s)) (addr + of_nat i) 1 s"
    from 4 "1.prems"(1) obtain r ch s1 where c: "?c = Ok (r, ch, s1)"
      by (subst (asm) pipewrite_loop.simps) auto
    note k = keeps_fields [OF keeps_copyin [OF c]]
    show ?thesis
    proof (cases "r = -1")
      case True
      with 4 "1.prems" c k show ?thesis
        by (subst (asm) pipewrite_loop.simps) (auto intro!: exI [of _ "[]"])
    next
      case False
      let ?s2 = "upd_pipe pi (pipe_put (hd ch)) s1"
      from 4 "1.prems"(1) c False have rec: "pipewrite_loop pi addr (Suc i) n ?s2 = Ok (out, s')"
        by (subst (asm) pipewrite_loop.simps) auto
      have "length (pview ?q) < PIPESIZE"
        using pipe_full_iff [of ?q] pipe_q.view_cap [of ?q] 4(3) "1.prems"(2) by simp
      note p = pipe_q.push_ok [OF "1.prems"(2) this, of "hd ch"]
      have "pipe_wf (pipes ?s2 pi)" "Suc i \<le> n"
        using p k 4(1) by simp_all
      from "1.IH" [OF 4(1-3) c refl refl False rec this] obtain bs where
        b: "pipe_wf (pipes s' pi)" "pview (pipes s' pi) = pview (pipes ?s2 pi) @ bs"
          "\<forall>pj. pj \<noteq> pi \<longrightarrow> pipes s' pj = pipes ?s2 pj" "Suc i + length bs \<le> n"
          "case out of Asleep j \<Rightarrow> j = Suc i + length bs \<and> j < n \<and> length (pview (pipes s' pi)) = PIPESIZE
           | Done r \<Rightarrow> r = -1 \<or> r = int (Suc i + length bs)"
        by blast
      have "pview (pipes s' pi) = pview ?q @ (hd ch # bs)"
        using b(2) p k by simp
      moreover have "\<forall>pj. pj \<noteq> pi \<longrightarrow> pipes s' pj = pipes s pj"
        using b(3) k by simp
      ultimately show ?thesis
        using b(1,4,5) by (intro exI [of _ "hd ch # bs"]) (simp split: run.splits)
    qed
  qed
qed

lemma piperead_loop_takes:
  assumes "piperead_loop pi addr i n s = Ok (j, s')" and "pipe_wf (pipes s pi)" and "i \<le> n"
  shows "\<exists>bs. pipe_wf (pipes s' pi) \<and> pview (pipes s pi) = bs @ pview (pipes s' pi) \<and>
    (\<forall>pj. pj \<noteq> pi \<longrightarrow> pipes s' pj = pipes s pj) \<and> i \<le> j \<and> j \<le> n \<and>
    (i + length bs = j \<or> i + length bs = Suc j)"
  using assms
proof (induction pi addr i n s rule: piperead_loop.induct)
  case (1 pi addr i n s)
  let ?q = "pipes s pi"
  consider "\<not> i < n \<or> nread ?q = nwrite ?q" | "i < n" "nread ?q \<noteq> nwrite ?q"
    by blast
  then show ?case
  proof cases
    case 1
    with "1.prems" show ?thesis
      by (subst (asm) piperead_loop.simps) (auto intro!: exI [of _ "[]"] split: if_splits)
  next
    case 2
    obtain ch q where g: "pipe_get ?q = (ch, q)"
      by (cases "pipe_get ?q")
    let ?s1 = "upd_pipe pi (\<lambda>_. q) s"
    let ?c = "copyout (pagetable (myproc ?s1)) (psz (myproc ?s1)) (pagetable (myproc ?s1)) (addr + of_nat i) [ch] ?s1"
    from 2 "1.prems"(1) g obtain r s2 where c: "?c = Ok (r, s2)"
      by (subst (asm) piperead_loop.simps) (auto simp: Let_def)
    note k = keeps_fields [OF keeps_copyout [OF c]]
    obtain x xs where "pview ?q = x # xs"
      using 2(2) pview_Nil [of ?q] by (cases "pview ?q") auto
    with pipe_q.pop_ok [OF "1.prems"(2) this] g have p: "pview ?q = ch # pview q" "pipe_wf q"
      by auto
    show ?thesis
    proof (cases "r = -1")
      case True
      with 2 "1.prems"(1) g c have "j = i" "s' = s2"
        by (subst (asm) piperead_loop.simps; auto simp: Let_def)+
      with p k 2 show ?thesis
        by (intro exI [of _ "[ch]"]) simp
    next
      case False
      from 2 "1.prems"(1) g c False have rec: "piperead_loop pi addr (Suc i) n s2 = Ok (j, s')"
        by (subst (asm) piperead_loop.simps) (auto simp: Let_def)
      have "pipe_wf (pipes s2 pi)" "Suc i \<le> n"
        using p k 2(1) by simp_all
      from "1.IH" [OF 2 g [symmetric] refl refl c refl False rec this] obtain bs where
        b: "pipe_wf (pipes s' pi)" "pview (pipes s2 pi) = bs @ pview (pipes s' pi)"
          "\<forall>pj. pj \<noteq> pi \<longrightarrow> pipes s' pj = pipes s2 pj" "Suc i \<le> j" "j \<le> n"
          "Suc i + length bs = j \<or> Suc i + length bs = Suc j"
        by blast
      have "pview ?q = (ch # bs) @ pview (pipes s' pi)"
        using b(2) p k by simp
      moreover have "\<forall>pj. pj \<noteq> pi \<longrightarrow> pipes s' pj = pipes s pj"
        using b(3) k by simp
      ultimately show ?thesis
        using b(1,4-6) by (intro exI [of _ "ch # bs"]) auto
    qed
  qed
qed

section \<open>Properties\<close>


definition pipe0 :: pipe where
  "pipe0 = \<lparr>pdata = (\<lambda>_. 0), nread = 4294967295, nwrite = 4294967295, readopen = True, writeopen = True\<rparr>"


text \<open>A call of \<open>pipewrite\<close> appends bytes at the end of the pipe and changes no other pipe. It sleeps
  only when the pipe is full, and the count it is resumed with, like the count it returns, is the
  number of bytes it has appended.\<close>

theorem pipewrite_appends:
  assumes "pipewrite pi addr n s = Ok (out, s')" and "pipe_wf (pipes s pi)"
  shows "\<exists>bs. pipe_wf (pipes s' pi) \<and> pview (pipes s' pi) = pview (pipes s pi) @ bs \<and>
    (\<forall>pj. pj \<noteq> pi \<longrightarrow> pipes s' pj = pipes s pj) \<and> length bs \<le> nat n \<and>
    (case out of Asleep j \<Rightarrow> j = length bs \<and> j < nat n \<and> length (pview (pipes s' pi)) = PIPESIZE
     | Done r \<Rightarrow> r = -1 \<or> r = int (length bs))"
  using pipewrite_loop_appends [OF assms(1) [unfolded pipewrite_def] assms(2)]
  by (simp only: add_0 le0 simp_thms)

definition full0 :: pipe_state where
  "full0 = \<lparr>phys = (\<lambda>_. 0), kend = 4096, freelist = 0, refcount = (\<lambda>_. 1), procs = (\<lambda>_. proc0),
     cur = 0, nextpid = 1, initproc = None, tramp = 0, pipes = (\<lambda>_. pipe0\<lparr>nwrite := 511\<rparr>)\<rparr>"

theorem pipewrite_appends_witness:
  "pipewrite 8192 0 3 full0 = Ok (Asleep 0, sleep_begin (ChPipeW 8192) (wakeup (ChPipeR 8192) full0)) \<and>
   length (pview (pipes (sleep_begin (ChPipeW 8192) (wakeup (ChPipeR 8192) full0)) 8192)) = PIPESIZE"
proof -
  have w: "pipewrite 8192 0 3 full0 = Ok (Asleep 0, sleep_begin (ChPipeW 8192) (wakeup (ChPipeR 8192) full0))"
    by (simp add: pipewrite_def pipewrite_loop.simps [of _ _ 0] full0_def pipe0_def proc0_def
        pipe_full_def killed_def)
  moreover have "pipe_wf (pipes full0 8192)"
    by (simp add: pipe_wf_def full0_def pipe0_def)
  ultimately show ?thesis
    using pipewrite_appends [OF w] by auto
qed

text \<open>A call of \<open>piperead\<close> that returns a count takes bytes from the front of the pipe, at most the
  number asked for, and changes no other pipe; the number taken is the number returned, or one more
  when the last byte could not be copied to the reader. It sleeps only on an empty pipe with an open
  write end.\<close>

theorem piperead_takes_front:
  assumes "piperead pi addr n s = Ok (out, s')" and "pipe_wf (pipes s pi)"
  shows "case out of
      Asleep u \<Rightarrow> pview (pipes s pi) = [] \<and> writeopen (pipes s pi) \<and> pipes s' = pipes s
    | Done r \<Rightarrow> r = -1 \<and> pipes s' = pipes s \<or>
        (\<exists>bs j. r = int j \<and> pview (pipes s pi) = bs @ pview (pipes s' pi) \<and> j \<le> nat n \<and>
           (length bs = j \<or> length bs = Suc j) \<and> (\<forall>pj. pj \<noteq> pi \<longrightarrow> pipes s' pj = pipes s pj))"
proof (cases "nread (pipes s pi) = nwrite (pipes s pi) \<and> writeopen (pipes s pi)")
  case True
  with assms(1) show ?thesis
    by (auto simp: piperead_def pview_Nil split: if_splits)
next
  case False
  with assms(1) obtain j s1 where l: "piperead_loop pi addr 0 (nat n) s = Ok (j, s1)"
    "out = Done (int j)" "s' = wakeup (ChPipeW pi) s1"
    by (auto simp: piperead_def)
  from piperead_loop_takes [OF l(1) assms(2)] obtain bs where
    "pview (pipes s pi) = bs @ pview (pipes s1 pi)" "j \<le> nat n" "length bs = j \<or> length bs = Suc j"
    "\<forall>pj. pj \<noteq> pi \<longrightarrow> pipes s1 pj = pipes s pj"
    by auto
  with l(2,3) show ?thesis
    by auto
qed

definition empty0 :: pipe_state where
  "empty0 = full0\<lparr>pipes := (\<lambda>_. pipe0)\<rparr>"

theorem piperead_takes_front_witness:
  "piperead 8192 0 5 empty0 = Ok (Asleep (), sleep_begin (ChPipeR 8192) empty0) \<and> pview (pipes empty0 8192) = []"
proof -
  have r: "piperead 8192 0 5 empty0 = Ok (Asleep (), sleep_begin (ChPipeR 8192) empty0)"
    by (simp add: piperead_def empty0_def full0_def pipe0_def proc0_def killed_def)
  moreover have "pipe_wf (pipes empty0 8192)"
    by (simp add: pipe_wf_def empty0_def pipe0_def)
  ultimately show ?thesis
    using piperead_takes_front [OF r] by simp
qed

end
