(* ===== verification/XvUart.thy ===== *)
theory XvUart
  imports XvPipe
begin

text \<open>
  kernel/uart.c and \<open>consputc\<close> of kernel/console.c. The device is a parameter carried in the state: \<open>ulsr k\<close>
  and \<open>urhr k\<close> are the values that the \<open>k\<close>-th reads of the line status and of the receive register
  return, and \<open>uwrites\<close> is the sequence of writes to the registers. A loop that spins on the device is
  \<open>None\<close> when the device never becomes ready.
\<close>

section \<open>State and operations\<close>

abbreviation (input) UART_TX_BUF_SIZE :: nat where "UART_TX_BUF_SIZE \<equiv> 32"
abbreviation (input) LSR_RX_READY :: uint8 where "LSR_RX_READY \<equiv> 1"
abbreviation (input) LSR_TX_IDLE :: uint8 where "LSR_TX_IDLE \<equiv> 32"
abbreviation (input) THR :: nat where "THR \<equiv> 0"

record uart_state = pipe_state +
  panicking :: bool
  panicked :: bool
  uart_tx_buf :: "nat \<Rightarrow> uint8"
  uart_tx_w :: uint64
  uart_tx_r :: uint64
  ulsr :: "nat \<Rightarrow> uint8"
  ulsr_n :: nat
  urhr :: "nat \<Rightarrow> uint8"
  urhr_n :: nat
  uwrites :: "(nat \<times> uint8) list"

definition read_lsr :: "'a uart_state_scheme \<Rightarrow> uint8 \<times> 'a uart_state_scheme" where
  "read_lsr s = (ulsr s (ulsr_n s), s\<lparr>ulsr_n := Suc (ulsr_n s)\<rparr>)"

definition WriteReg :: "nat \<Rightarrow> uint8 \<Rightarrow> 'a uart_state_scheme \<Rightarrow> 'a uart_state_scheme" where
  "WriteReg reg v s = s\<lparr>uwrites := uwrites s @ [(reg, v)]\<rparr>"

definition uartinit :: "'a uart_state_scheme \<Rightarrow> 'a uart_state_scheme" where
  "uartinit s = fold (\<lambda>(reg, v). WriteReg reg v)
     [(1, 0), (3, 128), (0, 3), (1, 0), (3, 3), (2, 7), (1, 3)] s"

definition tx_put :: "uint8 \<Rightarrow> 'a uart_state_scheme \<Rightarrow> 'a uart_state_scheme" where
  "tx_put c s = s\<lparr>uart_tx_buf := (uart_tx_buf s)(unat (uart_tx_w s) mod UART_TX_BUF_SIZE := c),
     uart_tx_w := uart_tx_w s + 1\<rparr>"

definition tx_get :: "'a uart_state_scheme \<Rightarrow> uint8 \<times> 'a uart_state_scheme" where
  "tx_get s = (uart_tx_buf s (unat (uart_tx_r s) mod UART_TX_BUF_SIZE), s\<lparr>uart_tx_r := uart_tx_r s + 1\<rparr>)"

lemma uart_wakeup [simp]:
  fixes s :: "'a uart_state_scheme"
  shows "uart_tx_w (wakeup ch s) = uart_tx_w s" "uart_tx_r (wakeup ch s) = uart_tx_r s"
    "uart_tx_buf (wakeup ch s) = uart_tx_buf s" "uwrites (wakeup ch s) = uwrites s"
    "panicked (wakeup ch s) = panicked s" "ulsr (wakeup ch s) = ulsr s" "ulsr_n (wakeup ch s) = ulsr_n s"
  by (simp_all add: wakeup_def)

function uartstart :: "'a uart_state_scheme \<Rightarrow> 'a uart_state_scheme" where
  "uartstart s =
     (if uart_tx_w s = uart_tx_r s then s
      else let (v, s1) = read_lsr s
        in if v AND LSR_TX_IDLE = 0 then s1
           else let (c, s2) = tx_get s1
             in uartstart (WriteReg THR c (wakeup ChUart s2)))"
  by pat_completeness auto
termination
proof (relation "measure (\<lambda>s. unat (uart_tx_w s - uart_tx_r s))", goal_cases)
  case 1
  show ?case by simp
next
  case (2 s x v s1 y c s2)
  then have "uart_tx_w s - uart_tx_r s \<noteq> 0" by simp
  then have "unat (uart_tx_w s - uart_tx_r s - 1) < unat (uart_tx_w s - uart_tx_r s)"
    by (simp add: unat_minus_one unat_gt_0)
  with 2 show ?case
    by (auto simp: read_lsr_def tx_get_def WriteReg_def diff_diff_eq)
qed

declare uartstart.simps [simp del]

definition uartputc :: "uint8 \<Rightarrow> 'a uart_state_scheme \<Rightarrow> (uint8 run \<times> 'a uart_state_scheme) res" where
  "uartputc c s =
     (if panicked s then Diverge
      else if uart_tx_w s = uart_tx_r s + 32 then Ok (Asleep c, sleep_begin ChUart s)
      else Ok (Done 0, uartstart (tx_put c s)))"

partial_function (option) uart_wait_idle :: "(nat \<Rightarrow> uint8) \<Rightarrow> nat \<Rightarrow> nat option" where
  "uart_wait_idle lsr n = (if lsr n AND LSR_TX_IDLE = 0 then uart_wait_idle lsr (Suc n) else Some (Suc n))"

definition uartputc_sync :: "int \<Rightarrow> 'a uart_state_scheme \<Rightarrow> 'a uart_state_scheme res" where
  "uartputc_sync c s =
     (if panicked s then Diverge
      else case uart_wait_idle (ulsr s) (ulsr_n s) of
             None \<Rightarrow> Diverge
           | Some n \<Rightarrow> Ok (WriteReg THR (word_of_int c) (s\<lparr>ulsr_n := n\<rparr>)))"

definition uartgetc :: "'a uart_state_scheme \<Rightarrow> int \<times> 'a uart_state_scheme" where
  "uartgetc s =
     (let (v, s1) = read_lsr s
      in if v AND LSR_RX_READY \<noteq> 0 then (uint (urhr s1 (urhr_n s1)), s1\<lparr>urhr_n := Suc (urhr_n s1)\<rparr>)
         else (-1, s1))"

abbreviation (input) BACKSPACE :: int where "BACKSPACE \<equiv> 256"

definition consputc :: "int \<Rightarrow> 'a uart_state_scheme \<Rightarrow> 'a uart_state_scheme res" where
  "consputc c s = (if c = BACKSPACE then foldM uartputc_sync [8, 32, 8] s else uartputc_sync c s)"

section \<open>The transmit queue\<close>

definition txview :: "'a uart_state_scheme \<Rightarrow> uint8 list" where
  "txview s = ring_view UART_TX_BUF_SIZE (uart_tx_buf s) (uart_tx_r s) (uart_tx_w s)"

definition tx_wf :: "'a uart_state_scheme \<Rightarrow> bool" where
  "tx_wf s \<longleftrightarrow> unat (uart_tx_w s - uart_tx_r s) \<le> UART_TX_BUF_SIZE"

definition sent :: "'a uart_state_scheme \<Rightarrow> uint8 list" where
  "sent s = map snd (filter (\<lambda>w. fst w = THR) (uwrites s))"

lemma tx_wf_length: "tx_wf s \<longleftrightarrow> length (txview s) \<le> UART_TX_BUF_SIZE"
  by (simp add: tx_wf_def txview_def)

lemma txview_Nil: "txview s = [] \<longleftrightarrow> uart_tx_w s = uart_tx_r s"
  by (auto simp: txview_def ring_view_empty)

interpretation uart_q: fifo tx_wf txview UART_TX_BUF_SIZE tx_put tx_get
proof
  fix s :: "'a uart_state_scheme"
  assume wf: "tx_wf s"
  show "length (txview s) \<le> UART_TX_BUF_SIZE"
    using wf by (simp add: tx_wf_length)
  show "tx_wf (tx_put x s) \<and> txview (tx_put x s) = txview s @ [x]"
    if "length (txview s) < UART_TX_BUF_SIZE" for x
  proof -
    have lt: "unat (uart_tx_w s - uart_tx_r s) < 32"
      using that by (simp add: txview_def)
    have v: "txview (tx_put x s) = txview s @ [x]"
      unfolding txview_def tx_put_def
      using ring_view_push [of 32 "uart_tx_w s" "uart_tx_r s" "uart_tx_buf s" x] lt by simp
    with that show ?thesis by (simp add: tx_wf_length)
  qed
  show "fst (tx_get s) = x \<and> tx_wf (snd (tx_get s)) \<and> txview (snd (tx_get s)) = xs"
    if "txview s = x # xs" for x xs
  proof -
    have ne: "uart_tx_r s \<noteq> uart_tx_w s"
      using that ring_view_empty [of UART_TX_BUF_SIZE "uart_tx_buf s" "uart_tx_r s" "uart_tx_w s"]
      by (auto simp: txview_def)
    have "x # xs = uart_tx_buf s (unat (uart_tx_r s) mod 32) # txview (snd (tx_get s))"
      using that ring_view_pop [OF ne, of UART_TX_BUF_SIZE "uart_tx_buf s"] by (simp add: txview_def tx_get_def)
    with that wf show ?thesis
      by (simp add: tx_wf_length) (simp add: tx_get_def)
  qed
qed

lemma tx_frames [simp]:
  fixes s :: "'a uart_state_scheme"
  shows "txview (WriteReg r v s) = txview s" "txview (wakeup ch s) = txview s" "txview (s\<lparr>ulsr_n := n\<rparr>) = txview s"
    "tx_wf (WriteReg r v s) = tx_wf s" "tx_wf (wakeup ch s) = tx_wf s" "tx_wf (s\<lparr>ulsr_n := n\<rparr>) = tx_wf s"
    "sent (wakeup ch s) = sent s" "sent (s\<lparr>ulsr_n := n\<rparr>) = sent s" "sent (tx_put c s) = sent s"
    "sent (WriteReg r v s) = sent s @ (if r = THR then [v] else [])" "sent (snd (tx_get s)) = sent s"
  by (simp_all add: txview_def tx_wf_def sent_def WriteReg_def tx_put_def tx_get_def)

lemma uartstart_sends:
  "tx_wf s \<Longrightarrow> tx_wf (uartstart s) \<and> sent (uartstart s) @ txview (uartstart s) = sent s @ txview s"
proof (induction s rule: uartstart.induct)
  case (1 s)
  let ?s1 = "s\<lparr>ulsr_n := Suc (ulsr_n s)\<rparr>"
  consider "uart_tx_w s = uart_tx_r s \<or> ulsr s (ulsr_n s) AND LSR_TX_IDLE = 0"
    | "uart_tx_w s \<noteq> uart_tx_r s" "ulsr s (ulsr_n s) AND LSR_TX_IDLE \<noteq> 0"
    by blast
  then show ?case
  proof cases
    case 1
    with "1.prems" show ?thesis
      by (subst (1 2 3) uartstart.simps) (auto simp: read_lsr_def)
  next
    case 2
    then obtain x xs where v: "txview ?s1 = x # xs"
      using txview_Nil [of s] by (cases "txview s") auto
    obtain c s2 where g: "tx_get ?s1 = (c, s2)" by (cases "tx_get ?s1")
    with uart_q.pop_ok [OF _ v] "1.prems" have p: "c = x" "tx_wf s2" "txview s2 = xs" by auto
    have e: "uartstart s = uartstart (WriteReg THR c (wakeup ChUart s2))"
      using 2 g by (subst uartstart.simps) (simp add: read_lsr_def)
    have "sent s2 = sent s"
      using tx_frames(11) [of ?s1] g by simp
    with "1.IH" [OF 2(1) _ refl 2(2) _ refl, of ?s1 c s2] p g v show ?thesis
      unfolding e by (simp add: read_lsr_def)
  qed
qed

lemma uart_wait_idle_returns:
  assumes "ulsr' (n + k) AND LSR_TX_IDLE \<noteq> 0"
  shows "\<exists>m. uart_wait_idle ulsr' n = Some m \<and> n < m \<and> m \<le> Suc (n + k)"
  using assms
proof (induction k arbitrary: n)
  case 0
  then show ?case by (subst uart_wait_idle.simps) simp
next
  case (Suc k)
  show ?case
  proof (cases "ulsr' n AND LSR_TX_IDLE = 0")
    case True
    from Suc.IH [of "Suc n"] Suc.prems obtain m where "uart_wait_idle ulsr' (Suc n) = Some m" "Suc n < m"
      "m \<le> Suc (Suc n + k)"
      by auto
    with True show ?thesis
      by (subst uart_wait_idle.simps) auto
  next
    case False
    then show ?thesis by (subst uart_wait_idle.simps) simp
  qed
qed

section \<open>Properties\<close>

text \<open>C23: \<open>uartputc\<close> loses, duplicates and reorders nothing: when it does not sleep, the bytes written to
  the transmit register followed by those still in the buffer are what they were before, followed by
  the new byte. It sleeps only when the buffer is full.\<close>

theorem uartputc_in_order:
  assumes "uartputc c s = Ok (out, s')" and "tx_wf s"
  shows "tx_wf s' \<and> (case out of
      Done r \<Rightarrow> sent s' @ txview s' = sent s @ txview s @ [c]
    | Asleep d \<Rightarrow> d = c \<and> length (txview s) = UART_TX_BUF_SIZE \<and> sent s' = sent s \<and> txview s' = txview s)"
proof (cases "uart_tx_w s = uart_tx_r s + 32")
  case True
  then have "length (txview s) = UART_TX_BUF_SIZE"
    by (simp add: txview_def)
  with True assms show ?thesis
    by (auto simp: uartputc_def sleep_begin_def upd_proc_def txview_def tx_wf_def sent_def split: if_splits)
next
  case False
  then have "uart_tx_w s - uart_tx_r s \<noteq> 32" by (auto simp: algebra_simps)
  then have "unat (uart_tx_w s - uart_tx_r s) \<noteq> 32"
    by (simp add: word_unat_eq_iff)
  with assms(2) have "length (txview s) < UART_TX_BUF_SIZE"
    by (simp add: txview_def tx_wf_def)
  from uart_q.push_ok [OF assms(2) this] uartstart_sends [of "tx_put c s"] assms(1) False show ?thesis
    by (auto simp: uartputc_def split: if_splits)
qed

definition uart0 :: uart_state where
  "uart0 = \<lparr>phys = (\<lambda>_. 0), kend = 4096, freelist = 0, refcount = (\<lambda>_. 1), procs = (\<lambda>_. proc0),
     cur = 0, nextpid = 1, initproc = None, tramp = 0, pipes = (\<lambda>_. pipe0), panicking = False, panicked = False,
     uart_tx_buf = (\<lambda>_. 0), uart_tx_w = 0, uart_tx_r = 0, ulsr = (\<lambda>k. if k = 0 then 0 else 32), ulsr_n = 0,
     urhr = (\<lambda>_. 65), urhr_n = 0, uwrites = []\<rparr>"

theorem uartputc_in_order_witness:
  "sent (uartstart (tx_put 97 uart0)) @ txview (uartstart (tx_put 97 uart0)) = [97]"
proof -
  have "uartputc 97 uart0 = Ok (Done 0, uartstart (tx_put 97 uart0))"
    by (simp add: uartputc_def uart0_def)
  moreover have "tx_wf uart0"
    by (simp add: tx_wf_def uart0_def)
  ultimately show ?thesis
    using uartputc_in_order [of 97 uart0] by (simp add: sent_def txview_def ring_view_def uart0_def)
qed

text \<open>\<open>uartputc_sync\<close> returns whenever the device reports an idle transmitter at some later read of
  the status register, and then has written exactly the given character to the transmit register.\<close>

theorem uartputc_sync_returns:
  assumes "\<not> panicked s" and "ulsr s (ulsr_n s + k) AND LSR_TX_IDLE \<noteq> 0"
  shows "\<exists>s'. uartputc_sync c s = Ok s' \<and> uwrites s' = uwrites s @ [(THR, word_of_int c)] \<and>
    ulsr_n s < ulsr_n s' \<and> ulsr_n s' \<le> Suc (ulsr_n s + k)"
  using uart_wait_idle_returns [of "ulsr s" "ulsr_n s" k, OF assms(2)] assms(1)
  by (auto simp: uartputc_sync_def WriteReg_def)

theorem uartputc_sync_returns_witness: "\<exists>s'. uartputc_sync 97 uart0 = Ok s' \<and> uwrites s' = [(THR, 97)]"
  using uartputc_sync_returns [of uart0 1 97] by (auto simp: uart0_def)

end
