(* ===== verification/XvPrintf.thy ===== *)
theory XvPrintf
  imports XvUart
begin

text \<open>
  kernel/printf.c, \<open>procdump\<close> of kernel/proc.c and user/printf.c. The variable arguments are a list; a
  conversion without an argument of its kind is undefined in C and has no result. The characters a call
  prints are computed first and then given to \<open>consputc\<close>.
\<close>

section \<open>Numbers\<close>

text \<open>The \<open>do\<close> loop of \<open>printint\<close>, least significant digit first. The bases are 10 and 16.\<close>

function digit_loop :: "'l::len word \<Rightarrow> 'l word \<Rightarrow> nat list" where
  "digit_loop x b = unat (x mod b) # (if x div b = 0 \<or> unat b < 2 then [] else digit_loop (x div b) b)"
  by pat_completeness auto
termination
proof (relation "measure (\<lambda>(x, b). unat x)", goal_cases)
  case (2 x b)
  then have "0 < unat x div unat b" "2 \<le> unat b"
    by (auto simp: unat_eq_0 [symmetric] unat_div)
  then have "unat x div unat b < unat x"
    by (intro div_less_dividend) (auto intro: Nat.gr0I)
  then show ?case by (simp add: unat_div)
qed simp

declare digit_loop.simps [simp del]

definition digits :: string where "digits = ''0123456789abcdef''"
definition udigits :: string where "udigits = ''0123456789ABCDEF''"

definition printint :: "uint64 \<Rightarrow> nat \<Rightarrow> bool \<Rightarrow> int list" where
  "printint xx base sign =
     (let neg = (sign \<and> sint xx < 0);
          x = (if neg then - xx else xx);
          buf = map (\<lambda>d. of_char (digits ! d)) (digit_loop x (of_nat base)) @ (if neg then [45] else [])
      in rev buf)"

text \<open>The user library keeps the magnitude in a 32-bit \<open>uint\<close>.\<close>

definition uprintint :: "uint64 \<Rightarrow> nat \<Rightarrow> bool \<Rightarrow> int list" where
  "uprintint xx base sg =
     (let neg = (sg \<and> sint xx < 0);
          x = (if neg then ucast (- xx) else ucast xx :: uint32);
          buf = map (\<lambda>d. of_char (udigits ! d)) (digit_loop x (of_nat base)) @ (if neg then [45] else [])
      in rev buf)"

primrec printptr_loop :: "string \<Rightarrow> nat \<Rightarrow> uint64 \<Rightarrow> int list" where
  "printptr_loop ds 0 x = []"
| "printptr_loop ds (Suc n) x = of_char (ds ! unat (drop_bit 60 x)) # printptr_loop ds n (push_bit 4 x)"

definition printptr :: "uint64 \<Rightarrow> int list" where
  "printptr x = [48, 120] @ printptr_loop digits 16 x"

definition uprintptr :: "uint64 \<Rightarrow> int list" where
  "uprintptr x = [48, 120] @ printptr_loop udigits 16 x"

section \<open>Formats\<close>

datatype varg = VWord uint64 | VStr "uint8 list option"

datatype conv = CDec32 | CDec64 | CUdec32 | CUdec64 | CHex32 | CHex64 | CPtr | CChr | CStr | CPct | CStop | CUnknown

definition at :: "uint8 list \<Rightarrow> nat \<Rightarrow> uint8" where
  "at l i = (if i < length l then l ! i else 0)"

text \<open>The chain of tests on the characters after the percent sign, with the number of them consumed:
  the letters are d 100, l 108, u 117, x 120, p 112, c 99, s 115.\<close>

definition conv_of :: "uint8 \<Rightarrow> uint8 \<Rightarrow> uint8 \<Rightarrow> conv \<times> nat" where
  "conv_of c0 c1 c2 =
     (if c0 = 100 then (CDec32, 1)
      else if c0 = 108 \<and> c1 = 100 then (CDec64, 2)
      else if c0 = 108 \<and> c1 = 108 \<and> c2 = 100 then (CDec64, 3)
      else if c0 = 117 then (CUdec32, 1)
      else if c0 = 108 \<and> c1 = 117 then (CUdec64, 2)
      else if c0 = 108 \<and> c1 = 108 \<and> c2 = 117 then (CUdec64, 3)
      else if c0 = 120 then (CHex32, 1)
      else if c0 = 108 \<and> c1 = 120 then (CHex64, 2)
      else if c0 = 108 \<and> c1 = 108 \<and> c2 = 120 then (CHex64, 3)
      else if c0 = 112 then (CPtr, 1)
      else if c0 = 99 then (CChr, 1)
      else if c0 = 115 then (CStr, 1)
      else if c0 = 37 then (CPct, 1)
      else if c0 = 0 then (CStop, 1)
      else (CUnknown, 1))"

definition va_word :: "(uint64 \<Rightarrow> int list) \<Rightarrow> varg list \<Rightarrow> (int list \<times> varg list) option" where
  "va_word f ap = (case ap of VWord w # r \<Rightarrow> Some (f w, r) | _ \<Rightarrow> None)"

definition va_str :: "varg list \<Rightarrow> (int list \<times> varg list) option" where
  "va_str ap = (case ap of
       VStr (Some bs) # r \<Rightarrow> Some (map uint (takeWhile (\<lambda>b. b \<noteq> 0) bs), r)
     | VStr None # r \<Rightarrow> Some (map of_char ''(null)'', r)
     | _ \<Rightarrow> None)"

definition low32 :: "uint64 \<Rightarrow> uint32" where
  "low32 w = ucast w"

definition conv_out :: "(uint64 \<Rightarrow> nat \<Rightarrow> bool \<Rightarrow> int list) \<Rightarrow> (uint64 \<Rightarrow> int list) \<Rightarrow> conv \<Rightarrow> uint8 \<Rightarrow> varg list \<Rightarrow>
    (int list \<times> varg list) option" where
  "conv_out pint pptr cv c0 ap = (case cv of
       CDec32 \<Rightarrow> va_word (\<lambda>w. pint (scast (low32 w)) 10 True) ap
     | CDec64 \<Rightarrow> va_word (\<lambda>w. pint w 10 True) ap
     | CUdec32 \<Rightarrow> va_word (\<lambda>w. pint (ucast (low32 w)) 10 False) ap
     | CUdec64 \<Rightarrow> va_word (\<lambda>w. pint w 10 False) ap
     | CHex32 \<Rightarrow> va_word (\<lambda>w. pint (ucast (low32 w)) 16 False) ap
     | CHex64 \<Rightarrow> va_word (\<lambda>w. pint w 16 False) ap
     | CPtr \<Rightarrow> va_word pptr ap
     | CChr \<Rightarrow> va_word (\<lambda>w. [sint (low32 w)]) ap
     | CStr \<Rightarrow> va_str ap
     | CPct \<Rightarrow> Some ([37], ap)
     | CStop \<Rightarrow> Some ([], ap)
     | CUnknown \<Rightarrow> Some ([37, uint c0], ap))"

function printf_loop :: "(uint64 \<Rightarrow> nat \<Rightarrow> bool \<Rightarrow> int list) \<Rightarrow> (uint64 \<Rightarrow> int list) \<Rightarrow> uint8 list \<Rightarrow> varg list \<Rightarrow>
    int list option" where
  "printf_loop pint pptr [] ap = Some []"
| "printf_loop pint pptr (cx # r) ap =
     (if cx = 0 then Some []
      else if cx \<noteq> 37 then map_option ((#) (uint cx)) (printf_loop pint pptr r ap)
      else let c0 = at r 0; c1 = (if c0 \<noteq> 0 then at r 1 else 0); c2 = (if c1 \<noteq> 0 then at r 2 else 0);
               (cv, k) = conv_of c0 c1 c2
        in if cv = CStop then Some []
           else case conv_out pint pptr cv c0 ap of
                  None \<Rightarrow> None
                | Some (out, ap') \<Rightarrow> map_option ((@) out) (printf_loop pint pptr (drop k r) ap'))"
  by pat_completeness auto
termination
  by (relation "measure (\<lambda>(pint, pptr, fmt, ap). length fmt)") auto

declare printf_loop.simps [simp del]

definition cbytes :: "string \<Rightarrow> uint8 list" where
  "cbytes s = map of_char s"

definition printf :: "uint8 list \<Rightarrow> varg list \<Rightarrow> 'a uart_state_scheme \<Rightarrow> 'a uart_state_scheme res" where
  "printf fmt ap s = (case printf_loop printint printptr fmt ap of
       None \<Rightarrow> Diverge | Some out \<Rightarrow> foldM consputc out s)"

text \<open>The state in which \<open>panic\<close> spins for ever.\<close>

definition panic :: "uint8 list \<Rightarrow> 'a uart_state_scheme \<Rightarrow> 'a uart_state_scheme res" where
  "panic msg s =
     bindr (printf (cbytes ''panic: '') [] (s\<lparr>panicking := True\<rparr>)) (\<lambda>s1.
     bindr (printf (cbytes ''%s'' @ [10]) [VStr (Some msg)] s1) (\<lambda>s2.
     Ok (s2\<lparr>panicked := True\<rparr>)))"

definition state_name :: "procstate \<Rightarrow> string" where
  "state_name st = (case st of UNUSED \<Rightarrow> ''unused'' | USED \<Rightarrow> ''used'' | SLEEPING \<Rightarrow> ''sleep ''
     | RUNNABLE \<Rightarrow> ''runble'' | RUNNING \<Rightarrow> ''run   '' | ZOMBIE \<Rightarrow> ''zombie'')"

definition procdump :: "'a uart_state_scheme \<Rightarrow> 'a uart_state_scheme res" where
  "procdump s =
     bindr (printf [10] [] s) (foldM (\<lambda>i s.
       let p = procs s i
       in if state p = UNUSED then Ok s
          else bindr (printf (cbytes ''%d %s %s'')
                 [VWord (word_of_int (pid p)), VStr (Some (cbytes (state_name (state p)))), VStr (Some (cstr (pname p) 16))] s)
               (printf [10] [])) [0..<NPROC])"

text \<open>The state machine of the user library, in which \<open>st\<close> is set after a percent sign.\<close>

function vprintf_loop :: "(uint64 \<Rightarrow> nat \<Rightarrow> bool \<Rightarrow> int list) \<Rightarrow> (uint64 \<Rightarrow> int list) \<Rightarrow> bool \<Rightarrow> uint8 list \<Rightarrow>
    varg list \<Rightarrow> int list option" where
  "vprintf_loop pint pptr st [] ap = Some []"
| "vprintf_loop pint pptr st (c0 # r) ap =
     (if c0 = 0 then Some []
      else if \<not> st then
        if c0 = 37 then vprintf_loop pint pptr True r ap
        else map_option ((#) (uint c0)) (vprintf_loop pint pptr False r ap)
      else let c1 = at r 0; c2 = (if c1 \<noteq> 0 then at r 1 else 0); (cv, k) = conv_of c0 c1 c2
        in case conv_out pint pptr cv c0 ap of
             None \<Rightarrow> None
           | Some (out, ap') \<Rightarrow> map_option ((@) out) (vprintf_loop pint pptr False (drop (k - 1) r) ap'))"
  by pat_completeness auto
termination
  by (relation "measure (\<lambda>(pint, pptr, st, fmt, ap). length fmt)") auto

declare vprintf_loop.simps [simp del]

text \<open>The bytes a call of the user library writes, one \<open>write\<close> each.\<close>

definition vprintf :: "uint8 list \<Rightarrow> varg list \<Rightarrow> uint8 list option" where
  "vprintf fmt ap = map_option (map word_of_int) (vprintf_loop uprintint uprintptr False fmt ap)"

section \<open>Reading numbers back\<close>

definition digit_val :: "int \<Rightarrow> nat" where
  "digit_val c = nat (if c \<le> 57 then c - 48 else if c \<le> 70 then c - 55 else c - 87)"

definition num_val :: "nat \<Rightarrow> int list \<Rightarrow> nat" where
  "num_val b cs = foldl (\<lambda>a c. a * b + digit_val c) 0 cs"

definition parse_int :: "nat \<Rightarrow> int list \<Rightarrow> int" where
  "parse_int b cs = (if cs \<noteq> [] \<and> hd cs = 45 then - int (num_val b (tl cs)) else int (num_val b cs))"

lemma digit_table:
  "list_all (\<lambda>d. digit_val (of_char (digits ! d)) = d \<and> digit_val (of_char (udigits ! d)) = d \<and>
     of_char (digits ! d) \<noteq> (45 :: int) \<and> of_char (udigits ! d) \<noteq> (45 :: int)) [0..<16]"
  by code_simp

lemma digit_val_digits: "d < 16 \<Longrightarrow> digit_val (of_char (digits ! d)) = d"
  and digit_val_udigits: "d < 16 \<Longrightarrow> digit_val (of_char (udigits ! d)) = d"
  and digit_not_minus: "d < 16 \<Longrightarrow> of_char (digits ! d) \<noteq> (45 :: int)"
  and udigit_not_minus: "d < 16 \<Longrightarrow> of_char (udigits ! d) \<noteq> (45 :: int)"
  using digit_table by (auto simp: list_all_iff simp del: upt_rec_numeral)

lemma digit_loop_less: "2 \<le> unat b \<Longrightarrow> d \<in> set (digit_loop x b) \<Longrightarrow> d < unat b"
proof (induction x b rule: digit_loop.induct)
  case (1 x b)
  from 1(3) show ?case
    by (subst (asm) digit_loop.simps) (use 1 in \<open>auto simp: unat_mod split: if_splits\<close>)
qed

lemma digit_loop_val:
  assumes "2 \<le> unat b"
  shows "foldr (\<lambda>d a. a * unat b + d) (digit_loop x b) 0 = unat x"
  using assms
proof (induction x b rule: digit_loop.induct)
  case (1 x b)
  show ?case
  proof (cases "x div b = 0")
    case True
    then have "unat x div unat b = 0" by (simp add: unat_div [symmetric])
    then have "unat x mod unat b = unat x"
      by (metis add.left_neutral mult_zero_left div_mult_mod_eq)
    with True show ?thesis
      by (subst digit_loop.simps) (simp add: unat_mod)
  next
    case False
    with 1 have "foldr (\<lambda>d a. a * unat b + d) (digit_loop (x div b) b) 0 = unat x div unat b"
      by (simp add: unat_div)
    with False "1.prems" show ?thesis
      by (subst digit_loop.simps) (simp add: unat_mod)
  qed
qed

lemma digit_loop_length: "2 \<le> unat b \<Longrightarrow> 0 < n \<Longrightarrow> unat x < unat b ^ n \<Longrightarrow> length (digit_loop x b) \<le> n"
proof (induction x b arbitrary: n rule: digit_loop.induct)
  case (1 x b)
  show ?case
  proof (cases "x div b = 0")
    case True
    with "1.prems" show ?thesis by (subst digit_loop.simps) simp
  next
    case False
    then have nz: "unat x div unat b \<noteq> 0" by (simp add: unat_div [symmetric] unat_eq_0)
    obtain m where m: "n = Suc m" using "1.prems"(2) by (cases n) auto
    have lt: "unat x div unat b < unat b ^ m"
      using "1.prems"(3) by (simp add: m div_less_iff_less_mult mult.commute "1.prems"(1) less_mult_imp_div_less)
    with nz have "0 < m" by (cases m) auto
    with "1.IH" [of m] False lt "1.prems"(1) show ?thesis
      by (subst digit_loop.simps) (simp add: m unat_div)
  qed
qed

lemma num_val_digit_loop:
  assumes "\<forall>d \<in> set (digit_loop x b). digit_val (f d) = d" and "2 \<le> unat b"
  shows "num_val (unat b) (rev (map f (digit_loop x b))) = unat x"
proof -
  have "foldr (\<lambda>c a. a * unat b + digit_val c) (map f ds) 0 = foldr (\<lambda>d a. a * unat b + d) ds 0"
    if "\<forall>d \<in> set ds. digit_val (f d) = d" for ds
    using that by (induction ds) auto
  from this [OF assms(1)] digit_loop_val [OF assms(2), of x] show ?thesis
    by (simp add: num_val_def foldl_conv_foldr)
qed

lemma digit_loop_Nil [simp]: "digit_loop x b \<noteq> []"
  by (subst digit_loop.simps) simp

lemma parse_int_digits:
  assumes "\<forall>d \<in> set ds. f d \<noteq> 45" and "ds \<noteq> []"
  shows "parse_int b (rev (map f ds)) = int (num_val b (rev (map f ds)))"
    and "parse_int b (rev (map f ds @ [45])) = - int (num_val b (rev (map f ds)))"
proof -
  obtain e es where e: "rev ds = e # es" using assms(2) by (cases "rev ds") auto
  then have "e \<in> set ds" by (metis list.set_intros(1) set_rev)
  with assms(1) have "f e \<noteq> 45" by blast
  with e show "parse_int b (rev (map f ds)) = int (num_val b (rev (map f ds)))"
    by (simp add: parse_int_def rev_map)
  show "parse_int b (rev (map f ds @ [45])) = - int (num_val b (rev (map f ds)))"
    by (simp add: parse_int_def)
qed

lemma base_words:
  "b = 10 \<or> b = 16 \<Longrightarrow> unat (of_nat b :: uint64) = b \<and> unat (of_nat b :: uint32) = b"
  by (auto simp: unsigned_of_nat)

lemma sint_eq_uint: "sint (x :: uint64) = (if uint x < 2 ^ 63 then uint x else uint x - 2 ^ 64)"
proof -
  have s: "sint x = (uint x + 2 ^ 63) mod 2 ^ 64 - 2 ^ 63"
    by (simp add: sint_uint signed_take_bit_eq_take_bit_shift take_bit_eq_mod)
  have r: "0 \<le> uint x" "uint x < 2 ^ 64"
    using uint_lt2p [of x] by simp_all
  show ?thesis
  proof (cases "uint x < 2 ^ 63")
    case True
    with r s show ?thesis by simp
  next
    case False
    have "(uint x + 2 ^ 63) mod 2 ^ 64 = (uint x + 2 ^ 63 - 2 ^ 64) mod 2 ^ 64"
      by (simp only: minus_mod_self2)
    also have "\<dots> = uint x + 2 ^ 63 - 2 ^ 64"
      using False r by (intro mod_pos_pos_trivial) simp_all
    finally show ?thesis using False s by simp
  qed
qed

lemma unat_minus_neg:
  fixes x :: uint64
  assumes "sint x < 0"
  shows "- int (unat (- x)) = sint x"
proof -
  have x: "x \<noteq> 0" using assms by auto
  have "sint x = uint x - 2 ^ 64"
    using assms by (simp add: sint_eq_uint split: if_splits)
  moreover have "uint (- x) = 2 ^ 64 - uint x"
  proof -
    have "uint x mod 2 ^ 64 = uint x" "uint x \<noteq> 0"
      using x uint_lt2p [of x] by (simp_all add: mod_pos_pos_trivial uint_0_iff)
    then show ?thesis by (simp add: uint_word_ariths zmod_zminus1_eq_if)
  qed
  ultimately show ?thesis by simp
qed

section \<open>Properties\<close>

text \<open>C24: the characters \<open>printint\<close> prints, read as a number in its base, give back the value printed, for
  every 64-bit value, signed or not, in base 10 and 16; and they fit the 20-byte buffer.\<close>

theorem printint_roundtrip:
  assumes "base = 10 \<or> base = 16"
  shows "parse_int base (printint xx base sign) = (if sign then sint xx else uint xx) \<and>
    length (printint xx base sign) \<le> 20"
proof -
  let ?b = "of_nat base :: uint64" and ?f = "\<lambda>d. of_char (digits ! d) :: int"
  have b: "unat ?b = base" "2 \<le> unat ?b" using base_words [OF assms] assms by auto
  have d: "\<forall>d \<in> set (digit_loop x ?b). d < 16" for x
    using digit_loop_less [OF b(2)] b(1) assms by fastforce
  have v: "parse_int base (rev (map ?f (digit_loop x ?b))) = int (unat x)"
      "parse_int base (rev (map ?f (digit_loop x ?b) @ [45])) = - int (unat x)" for x
    using parse_int_digits [of "digit_loop x ?b" ?f base] num_val_digit_loop [of x ?b ?f] b d digit_val_digits
      digit_not_minus by auto
  have l: "length (digit_loop x ?b) \<le> 20" for x :: uint64
    using digit_loop_length [OF b(2), of 20 x] unat_lt64 [of x] b(1) assms by auto
  have ln: "length (digit_loop (- xx) ?b) \<le> 19" if "sint xx < 0"
  proof -
    have "- 9223372036854775808 \<le> sint xx"
      using sint_ge [of xx] by simp
    with unat_minus_neg [OF that] have "unat (- xx) \<le> 9223372036854775808"
      by linarith
    then have "unat (- xx) < base ^ 19" using assms by auto
    with digit_loop_length [OF b(2), of 19 "- xx"] b(1) show ?thesis by simp
  qed
  show ?thesis
  proof (cases "sign \<and> sint xx < 0")
    case True
    with v(2) [of "- xx"] unat_minus_neg [of xx] ln show ?thesis
      by (simp add: printint_def Let_def)
  next
    case False
    then have "sign \<Longrightarrow> sint xx = uint xx"
      using uint_lt2p [of xx] by (auto simp: sint_eq_uint split: if_splits)
    with False v(1) [of xx] l [of xx] show ?thesis
      by (auto simp: printint_def Let_def)
  qed
qed

theorem printint_roundtrip_witness: "parse_int 10 (printint (- 42) 10 True) = - 42 \<and> length (printint (- 42) 10 True) \<le> 20"
  using printint_roundtrip [of 10 "- 42" True] by simp




end
