(* ===== verification/XvConsole.thy ===== *)
theory XvConsole
  imports XvPrintf
begin

text \<open>
  kernel/console.c and \<open>uartintr\<close> of kernel/uart.c: the line discipline of the console. The 128-byte
  buffer holds the committed input, from \<open>cons_r\<close> to \<open>cons_w\<close>, followed by the line being edited, from
  \<open>cons_w\<close> to \<open>cons_e\<close>.
\<close>

section \<open>State and operations\<close>

abbreviation (input) INPUT_BUF_SIZE :: nat where "INPUT_BUF_SIZE \<equiv> 128"
abbreviation (input) CTRL_D :: int where "CTRL_D \<equiv> 4"
abbreviation (input) CTRL_H :: int where "CTRL_H \<equiv> 8"
abbreviation (input) CTRL_P :: int where "CTRL_P \<equiv> 16"
abbreviation (input) CTRL_U :: int where "CTRL_U \<equiv> 21"
abbreviation (input) DEL :: int where "DEL \<equiv> 127"

record cons_state = uart_state +
  cons_buf :: "nat \<Rightarrow> uint8"
  cons_r :: uint32
  cons_w :: uint32
  cons_e :: uint32

definition cons_put :: "uint8 \<Rightarrow> 'a cons_state_scheme \<Rightarrow> 'a cons_state_scheme" where
  "cons_put c s = s\<lparr>cons_buf := (cons_buf s)(unat (cons_e s) mod INPUT_BUF_SIZE := c), cons_e := cons_e s + 1\<rparr>"

definition cons_get :: "'a cons_state_scheme \<Rightarrow> uint8 \<times> 'a cons_state_scheme" where
  "cons_get s = (cons_buf s (unat (cons_r s) mod INPUT_BUF_SIZE), s\<lparr>cons_r := cons_r s + 1\<rparr>)"

text \<open>A write asleep in \<open>uartputc\<close> keeps its index and the byte it is about to store.\<close>

function consolewrite_loop :: "bool \<Rightarrow> uint64 \<Rightarrow> nat \<Rightarrow> nat \<Rightarrow> 'a cons_state_scheme \<Rightarrow>
    ((nat \<times> uint8) run \<times> 'a cons_state_scheme) res" where
  "consolewrite_loop user_src src i n s =
     (if i < n then
        bindr (either_copyin user_src (src + of_nat i) 1 s) (\<lambda>(r, bs, s1).
          if r = -1 then Ok (Done (int i), s1)
          else bindr (uartputc (hd bs) s1) (\<lambda>(out, s2).
            case out of Asleep c \<Rightarrow> Ok (Asleep (i, c), s2)
            | Done _ \<Rightarrow> consolewrite_loop user_src src (Suc i) n s2))
      else Ok (Done (int i), s))"
  by pat_completeness auto
termination
  by (relation "measure (\<lambda>(u, src, i, n, s). n - i)") auto

declare consolewrite_loop.simps [simp del]

definition consolewrite :: "bool \<Rightarrow> uint64 \<Rightarrow> int \<Rightarrow> 'a cons_state_scheme \<Rightarrow>
    ((nat \<times> uint8) run \<times> 'a cons_state_scheme) res" where
  "consolewrite user_src src n s = consolewrite_loop user_src src 0 (nat n) s"

text \<open>The part of \<open>consolewrite\<close> that runs after a sleep in \<open>uartputc\<close>.\<close>

definition consolewrite_resume :: "bool \<Rightarrow> uint64 \<Rightarrow> nat \<Rightarrow> nat \<times> uint8 \<Rightarrow> 'a cons_state_scheme \<Rightarrow>
    ((nat \<times> uint8) run \<times> 'a cons_state_scheme) res" where
  "consolewrite_resume user_src src n k s =
     (let (i, c) = k
      in bindr (uartputc c (sleep_end s)) (\<lambda>(out, s2).
           case out of Asleep c \<Rightarrow> Ok (Asleep (i, c), s2)
           | Done _ \<Rightarrow> consolewrite_loop user_src src (Suc i) n s2))"

text \<open>\<open>consoleread_loop\<close> has \<open>n\<close> bytes still to read of \<open>target\<close>; a read asleep keeps the destination
  and the count.\<close>

function consoleread_loop :: "bool \<Rightarrow> uint64 \<Rightarrow> nat \<Rightarrow> nat \<Rightarrow> 'a cons_state_scheme \<Rightarrow>
    ((uint64 \<times> nat) run \<times> 'a cons_state_scheme) res" where
  "consoleread_loop user_dst dst target n s =
     (if 0 < n then
        if cons_r s = cons_w s then
          if killed (cur s) s then Ok (Done (-1), s)
          else Ok (Asleep (dst, n), sleep_begin ChConsole s)
        else let (c, s1) = cons_get s
          in if uint c = CTRL_D then
               Ok (Done (int (target - n)), if n < target then s1\<lparr>cons_r := cons_r s1 - 1\<rparr> else s1)
             else bindr (either_copyout user_dst dst [c] s1) (\<lambda>(r, s2).
               if r = -1 then Ok (Done (int (target - n)), s2)
               else if uint c = 10 then Ok (Done (int (target - (n - 1))), s2)
               else consoleread_loop user_dst (dst + 1) target (n - 1) s2)
      else Ok (Done (int (target - n)), s))"
  by pat_completeness auto
termination
  by (relation "measure (\<lambda>(u, dst, target, n, s). n)") auto

declare consoleread_loop.simps [simp del]

definition consoleread :: "bool \<Rightarrow> uint64 \<Rightarrow> int \<Rightarrow> 'a cons_state_scheme \<Rightarrow>
    ((uint64 \<times> nat) run \<times> 'a cons_state_scheme) res" where
  "consoleread user_dst dst n s = consoleread_loop user_dst dst (nat n) (nat n) s"

text \<open>The loop of control-U.\<close>

lemma cons_consputc:
  fixes s s' :: "'a cons_state_scheme"
  assumes "consputc c s = Ok s'"
  shows "cons_buf s' = cons_buf s \<and> cons_r s' = cons_r s \<and> cons_w s' = cons_w s \<and> cons_e s' = cons_e s"
proof -
  have u: "cons_buf t' = cons_buf t \<and> cons_r t' = cons_r t \<and> cons_w t' = cons_w t \<and> cons_e t' = cons_e t"
    if "uartputc_sync d t = Ok t'" for d and t t' :: "'a cons_state_scheme"
    using that by (auto simp: uartputc_sync_def WriteReg_def split: if_splits option.splits)
  show ?thesis
    using assms by (auto simp: consputc_def split: if_splits dest!: u)
qed

function kill_line :: "'a cons_state_scheme \<Rightarrow> 'a cons_state_scheme res" where
  "kill_line s =
     (if cons_e s \<noteq> cons_w s \<and> cons_buf s (unat (cons_e s - 1) mod INPUT_BUF_SIZE) \<noteq> 10
      then bindr (consputc BACKSPACE (s\<lparr>cons_e := cons_e s - 1\<rparr>)) kill_line
      else Ok s)"
  by pat_completeness auto
termination
proof (relation "measure (\<lambda>s. unat (cons_e s - cons_w s))", goal_cases)
  case 1
  show ?case by simp
next
  case (2 s s')
  then have "cons_e s - cons_w s \<noteq> 0" by simp
  then have "unat (cons_e s - cons_w s - 1) < unat (cons_e s - cons_w s)"
    by (simp add: unat_minus_one unat_gt_0)
  then show ?case
    using cons_consputc [OF 2(2)] by (simp add: diff_right_commute [of "cons_e s" 1 "cons_w s"])
qed

declare kill_line.simps [simp del]

definition consoleintr :: "int \<Rightarrow> 'a cons_state_scheme \<Rightarrow> 'a cons_state_scheme res" where
  "consoleintr c s =
     (if c = CTRL_P then procdump s
      else if c = CTRL_U then kill_line s
      else if c = CTRL_H \<or> c = DEL then
        if cons_e s \<noteq> cons_w s then consputc BACKSPACE (s\<lparr>cons_e := cons_e s - 1\<rparr>) else Ok s
      else if c \<noteq> 0 \<and> cons_e s - cons_r s < 128 then
        let c = (if c = 13 then 10 else c)
        in bindr (consputc c s) (\<lambda>s1.
             let s2 = cons_put (word_of_int c) s1
             in if c = 10 \<or> c = CTRL_D \<or> cons_e s2 - cons_r s2 = 128
                then Ok (wakeup ChConsole (s2\<lparr>cons_w := cons_e s2\<rparr>)) else Ok s2)
      else Ok s)"

text \<open>The input loop of \<open>uartintr\<close>: \<open>None\<close> when the device never stops delivering input.\<close>

partial_function (option) uartintr_loop :: "'a cons_state_scheme \<Rightarrow> 'a cons_state_scheme res option" where
  "uartintr_loop s =
     (let (c, s1) = uartgetc s
      in if c = -1 then Some (Ok s1)
         else case consoleintr c s1 of
                Ok s2 \<Rightarrow> uartintr_loop s2
              | Panic e \<Rightarrow> Some (Panic e) | Block \<Rightarrow> Some Block | Diverge \<Rightarrow> Some Diverge)"

definition uartintr :: "'a cons_state_scheme \<Rightarrow> 'a cons_state_scheme res" where
  "uartintr s = (case uartintr_loop s of None \<Rightarrow> Diverge | Some r \<Rightarrow> bindr r (\<lambda>s1. Ok (uartstart s1)))"

section \<open>The line discipline\<close>

definition cons_wf :: "'a cons_state_scheme \<Rightarrow> bool" where
  "cons_wf s \<longleftrightarrow> unat (cons_w s - cons_r s) \<le> unat (cons_e s - cons_r s) \<and> unat (cons_e s - cons_r s) \<le> INPUT_BUF_SIZE"

definition committed :: "'a cons_state_scheme \<Rightarrow> uint8 list" where
  "committed s = ring_view INPUT_BUF_SIZE (cons_buf s) (cons_r s) (cons_w s)"

definition pending :: "'a cons_state_scheme \<Rightarrow> uint8 list" where
  "pending s = ring_view INPUT_BUF_SIZE (cons_buf s) (cons_w s) (cons_e s)"

definition inq :: "'a cons_state_scheme \<Rightarrow> uint8 list" where
  "inq s = ring_view INPUT_BUF_SIZE (cons_buf s) (cons_r s) (cons_e s)"

text \<open>What the handler does to the committed input and the line being edited.\<close>

definition line_input :: "int \<Rightarrow> uint8 list \<times> uint8 list \<Rightarrow> uint8 list \<times> uint8 list" where
  "line_input c q =
     (let (done, line) = q; d = (if c = 13 then 10 else word_of_int c :: uint8)
      in if c = CTRL_P \<or> c = 0 then (done, line)
         else if c = CTRL_U then (done, [])
         else if c = CTRL_H \<or> c = DEL then (done, butlast line)
         else if length done + length line < INPUT_BUF_SIZE then
           if d = 10 \<or> c = CTRL_D \<or> length done + length line + 1 = INPUT_BUF_SIZE
           then (done @ line @ [d], []) else (done, line @ [d])
         else (done, line))"

lemma ring_view_append:
  fixes r w e :: "'l::len word"
  assumes "unat (w - r) \<le> unat (e - r)"
  shows "ring_view N d r e = ring_view N d r w @ ring_view N d w e"
    and "unat (e - r) = unat (w - r) + unat (e - w)"
proof -
  have "unat ((e - r) - (w - r)) = unat (e - r) - unat (w - r)"
    using assms by (intro unat_sub) (simp add: word_le_nat_alt)
  then have u: "unat (e - w) = unat (e - r) - unat (w - r)" by simp
  with assms show s: "unat (e - r) = unat (w - r) + unat (e - w)" by simp
  have "[0..<a + b] = [0..<a] @ map (\<lambda>i. i + a) [0..<b]" for a b :: nat
    using upt_add_eq_append [of 0 a b] by (simp add: map_add_upt add.commute)
  from this [of "unat (w - r)" "unat (e - w)", folded s]
  have k: "[0..<unat (e - r)] = [0..<unat (w - r)] @ map (\<lambda>i. i + unat (w - r)) [0..<unat (e - w)]" .
  have "r + of_nat (i + unat (w - r)) = w + of_nat i" for i
    by (simp add: algebra_simps)
  then show "ring_view N d r e = ring_view N d r w @ ring_view N d w e"
    unfolding ring_view_def k by (simp add: comp_def add.commute)
qed

lemma ring_view_butlast:
  fixes r e :: "'l::len word"
  assumes "r \<noteq> e"
  shows "ring_view N d r (e - 1) = butlast (ring_view N d r e)"
    and "last (ring_view N d r e) = d (unat (e - 1) mod N)"
    and "unat (e - r) = Suc (unat (e - 1 - r))"
proof -
  have "e - r \<noteq> 0" using assms by simp
  then have "unat (e - r) = Suc (unat (e - r - 1))"
    by (simp add: unat_minus_one unat_gt_0)
  then show s: "unat (e - r) = Suc (unat (e - 1 - r))"
    by (simp add: diff_right_commute [of e 1 r])
  have "r + of_nat (unat (e - 1 - r)) = e - 1" by simp
  with s show "ring_view N d r (e - 1) = butlast (ring_view N d r e)"
    and "last (ring_view N d r e) = d (unat (e - 1) mod N)"
    by (simp_all add: ring_view_def butlast_append)
qed

lemma inq_append:
  assumes "cons_wf s"
  shows "inq s = committed s @ pending s" and "length (committed s) + length (pending s) = unat (cons_e s - cons_r s)"
  using ring_view_append [of "cons_w s" "cons_r s" "cons_e s"] assms
  by (auto simp: cons_wf_def inq_def committed_def pending_def)

lemma cons_wf_length: "unat (cons_e s - cons_r s) \<le> INPUT_BUF_SIZE \<longleftrightarrow> length (inq s) \<le> INPUT_BUF_SIZE"
  by (simp add: inq_def)

interpretation cons_q: fifo "\<lambda>s. length (inq s) \<le> INPUT_BUF_SIZE" inq INPUT_BUF_SIZE cons_put cons_get
proof
  fix s :: "'a cons_state_scheme"
  assume wf: "length (inq s) \<le> INPUT_BUF_SIZE"
  show "length (inq s) \<le> INPUT_BUF_SIZE" by (fact wf)
  show "length (inq (cons_put x s)) \<le> INPUT_BUF_SIZE \<and> inq (cons_put x s) = inq s @ [x]"
    if "length (inq s) < INPUT_BUF_SIZE" for x
  proof -
    have lt: "unat (cons_e s - cons_r s) < 128"
      using that by (simp add: inq_def)
    have v: "inq (cons_put x s) = inq s @ [x]"
      unfolding inq_def cons_put_def
      using ring_view_push [of 128 "cons_e s" "cons_r s" "cons_buf s" x] lt by simp
    with that show ?thesis by simp
  qed
  show "fst (cons_get s) = x \<and> length (inq (snd (cons_get s))) \<le> INPUT_BUF_SIZE \<and> inq (snd (cons_get s)) = xs"
    if "inq s = x # xs" for x xs
  proof -
    have ne: "cons_r s \<noteq> cons_e s"
      using that ring_view_empty [of INPUT_BUF_SIZE "cons_buf s" "cons_r s" "cons_e s"]
      by (auto simp: inq_def)
    have "x # xs = cons_buf s (unat (cons_r s) mod 128) # inq (snd (cons_get s))"
      using that ring_view_pop [OF ne, of INPUT_BUF_SIZE "cons_buf s"] by (simp add: inq_def cons_get_def)
    with that wf show ?thesis
      by simp (simp add: cons_get_def)
  qed
qed

lemma cons_views_cong:
  fixes s s' :: "'a cons_state_scheme"
  assumes "cons_buf s' = cons_buf s \<and> cons_r s' = cons_r s \<and> cons_w s' = cons_w s \<and> cons_e s' = cons_e s"
  shows "cons_wf s' = cons_wf s" "committed s' = committed s" "pending s' = pending s" "inq s' = inq s"
  using assms by (simp_all add: cons_wf_def committed_def pending_def inq_def)

lemma cons_foldM_consputc:
  fixes s s' :: "'a cons_state_scheme"
  assumes "foldM consputc out s = Ok s'"
  shows "cons_buf s' = cons_buf s \<and> cons_r s' = cons_r s \<and> cons_w s' = cons_w s \<and> cons_e s' = cons_e s"
  by (rule foldM_keep [where P = "\<lambda>t. cons_buf t = cons_buf s \<and> cons_r t = cons_r s \<and> cons_w t = cons_w s \<and>
      cons_e t = cons_e s", OF assms]) (auto dest!: cons_consputc)

lemma cons_printf:
  fixes s s' :: "'a cons_state_scheme"
  assumes "printf fmt ap s = Ok s'"
  shows "cons_buf s' = cons_buf s \<and> cons_r s' = cons_r s \<and> cons_w s' = cons_w s \<and> cons_e s' = cons_e s"
  using assms by (auto simp: printf_def split: option.splits dest!: cons_foldM_consputc)

lemma cons_procdump:
  fixes s s' :: "'a cons_state_scheme"
  assumes "procdump s = Ok s'"
  shows "cons_buf s' = cons_buf s \<and> cons_r s' = cons_r s \<and> cons_w s' = cons_w s \<and> cons_e s' = cons_e s"
proof -
  let ?P = "\<lambda>t. cons_buf t = cons_buf s \<and> cons_r t = cons_r s \<and> cons_w t = cons_w s \<and> cons_e t = cons_e s"
  from assms obtain s1 where 1: "printf [10] [] s = Ok s1" and f: "foldM (\<lambda>i s.
       let p = procs s i
       in if state p = UNUSED then Ok s
          else bindr (printf (cbytes ''%d %s %s'')
                 [VWord (word_of_int (pid p)), VStr (Some (cbytes (state_name (state p)))), VStr (Some (cstr (pname p) 16))] s)
               (printf [10] [])) [0..<NPROC] s1 = Ok s'"
    unfolding procdump_def by auto
  show ?thesis
    by (rule foldM_keep [where P = ?P, OF f])
      (use cons_printf [OF 1] in \<open>auto simp: Let_def split: if_splits dest!: cons_printf\<close>)
qed

text \<open>The line being edited never holds a newline.\<close>

definition cons_inv :: "'a cons_state_scheme \<Rightarrow> bool" where
  "cons_inv s \<longleftrightarrow> cons_wf s \<and> 10 \<notin> set (pending s)"

lemma pending_Nil: "pending s = [] \<longleftrightarrow> cons_e s = cons_w s"
  by (auto simp: pending_def ring_view_empty)

lemma cons_erase:
  fixes s :: "'a cons_state_scheme"
  assumes "cons_wf s" and "cons_e s \<noteq> cons_w s"
  shows "cons_wf (s\<lparr>cons_e := cons_e s - 1\<rparr>)" and "committed (s\<lparr>cons_e := cons_e s - 1\<rparr>) = committed s"
    and "pending (s\<lparr>cons_e := cons_e s - 1\<rparr>) = butlast (pending s)"
    and "last (pending s) = cons_buf s (unat (cons_e s - 1) mod INPUT_BUF_SIZE)"
proof -
  note b = ring_view_butlast [of "cons_w s" "cons_e s"]
  show "pending (s\<lparr>cons_e := cons_e s - 1\<rparr>) = butlast (pending s)"
    "last (pending s) = cons_buf s (unat (cons_e s - 1) mod INPUT_BUF_SIZE)"
    "committed (s\<lparr>cons_e := cons_e s - 1\<rparr>) = committed s"
    using b assms(2) by (simp_all add: pending_def committed_def)
  have w: "unat (cons_w s - cons_r s) \<le> unat (cons_e s - cons_r s)" "unat (cons_e s - cons_r s) \<le> 128"
    using assms(1) by (auto simp: cons_wf_def)
  have "cons_r s \<noteq> cons_e s"
    using w(1) assms(2) by (auto simp: unat_eq_0)
  from ring_view_butlast(3) [OF this] ring_view_append(2) [OF w(1)] b(3) assms(2) w
  show "cons_wf (s\<lparr>cons_e := cons_e s - 1\<rparr>)"
    by (auto simp: cons_wf_def)
qed

lemma kill_line_ok:
  assumes "kill_line s = Ok s'" and "cons_inv s"
  shows "cons_inv s' \<and> committed s' = committed s \<and> pending s' = []"
  using assms
proof (induction s rule: kill_line.induct)
  case (1 s)
  let ?t = "s\<lparr>cons_e := cons_e s - 1\<rparr>"
  show ?case
  proof (cases "cons_e s = cons_w s")
    case True
    with "1.prems" show ?thesis
      by (subst (asm) kill_line.simps) (simp add: pending_Nil)
  next
    case False
    note e = cons_erase [OF _ False]
    have wf: "cons_wf s" "pending s \<noteq> []"
      using "1.prems"(2) False by (auto simp: cons_inv_def pending_Nil)
    then have g: "cons_e s \<noteq> cons_w s \<and> cons_buf s (unat (cons_e s - 1) mod 128) \<noteq> 10"
      using False e(4) "1.prems"(2) by (metis cons_inv_def last_in_set)
    with "1.prems"(1) obtain u where u: "consputc BACKSPACE ?t = Ok u" "kill_line u = Ok s'"
      by (subst (asm) kill_line.simps) auto
    note c = cons_views_cong [OF cons_consputc [OF u(1)]]
    have "cons_inv u"
      using "1.prems"(2) e c by (auto simp: cons_inv_def dest: in_set_butlastD)
    from "1.IH" [OF g u this] c e wf show ?thesis by simp
  qed
qed

lemma cons_put_views:
  assumes "cons_wf s" and "length (committed s) + length (pending s) < INPUT_BUF_SIZE"
  shows "cons_wf (cons_put x s)" "committed (cons_put x s) = committed s" "pending (cons_put x s) = pending s @ [x]"
    "unat (cons_e (cons_put x s) - cons_r (cons_put x s)) = Suc (length (committed s) + length (pending s))"
    "cons_wf ((cons_put x s)\<lparr>cons_w := cons_e (cons_put x s)\<rparr>)"
    "committed ((cons_put x s)\<lparr>cons_w := cons_e (cons_put x s)\<rparr>) = committed s @ pending s @ [x]"
proof -
  let ?s = "cons_put x s"
  have w: "unat (cons_w s - cons_r s) \<le> unat (cons_e s - cons_r s)" "unat (cons_e s - cons_r s) \<le> 128"
    using assms(1) by (auto simp: cons_wf_def)
  have l: "length (inq s) < 128"
    using inq_append [OF assms(1)] assms(2) by simp
  with cons_q.push_ok [of s x] have i: "inq ?s = inq s @ [x]" by simp
  then show n: "unat (cons_e ?s - cons_r ?s) = Suc (length (committed s) + length (pending s))"
    using inq_append [OF assms(1)] by (metis inq_def length_append_singleton length_ring_view length_append)
  have f: "cons_r ?s = cons_r s" "cons_w ?s = cons_w s"
    by (simp_all add: cons_put_def)
  show wf: "cons_wf ?s"
    using n f w inq_append(2) [OF assms(1)] assms(2) by (simp add: cons_wf_def)
  from inq_append(1) [OF wf] i inq_append(1) [OF assms(1)]
  have e: "committed ?s @ pending ?s = committed s @ pending s @ [x]" by simp
  have "length (committed ?s) = length (committed s)"
    using f by (simp add: committed_def)
  with e show "committed ?s = committed s" "pending ?s = pending s @ [x]" by simp_all
  show "cons_wf (?s\<lparr>cons_w := cons_e ?s\<rparr>)"
    using wf by (simp add: cons_wf_def)
  show "committed (?s\<lparr>cons_w := cons_e ?s\<rparr>) = committed s @ pending s @ [x]"
    using e inq_append(1) [OF wf] by (simp add: committed_def inq_def)
qed

lemma consoleintr_char:
  assumes r: "consoleintr c s = Ok s'" and inv: "cons_inv s" and c: "0 < c" "c < 256"
    and ord: "c \<noteq> CTRL_P" "c \<noteq> CTRL_U" "c \<noteq> CTRL_H" "c \<noteq> DEL"
  shows "cons_inv s' \<and> (committed s', pending s') = line_input c (committed s, pending s)"
proof -
  have wf: "cons_wf s" using inv by (simp add: cons_inv_def)
  note n = inq_append(2) [OF wf]
  have room: "cons_e s - cons_r s < 128 \<longleftrightarrow> length (committed s) + length (pending s) < INPUT_BUF_SIZE"
    using n by (simp add: word_less_nat_alt)
  let ?c = "if c = 13 then 10 else c" and ?d = "if c = 13 then 10 else word_of_int c :: uint8"
  have dc: "word_of_int ?c = ?d" by simp
  have d10: "?d = 10 \<longleftrightarrow> ?c = 10"
  proof -
    have "uint (word_of_int c :: uint8) = c"
      using c by (simp add: uint_word_of_int)
    then show ?thesis by (auto simp: word_uint_eq_iff)
  qed
  show ?thesis
  proof (cases "cons_e s - cons_r s < 128")
    case False
    with r ord c inv room show ?thesis
      by (auto simp: consoleintr_def line_input_def Let_def)
  next
    case True
    with r ord c obtain u where u: "consputc ?c s = Ok u" and
      s': "s' = (let t = cons_put ?d u in if ?c = 10 \<or> ?c = CTRL_D \<or> cons_e t - cons_r t = 128
        then wakeup ChConsole (t\<lparr>cons_w := cons_e t\<rparr>) else t)"
      unfolding dc [symmetric] by (auto simp: consoleintr_def Let_def split: if_splits)
    note v = cons_views_cong [OF cons_consputc [OF u]]
    have wfu: "cons_wf u" "length (committed u) + length (pending u) < INPUT_BUF_SIZE"
      using wf v True room by simp_all
    note p = cons_put_views [OF wfu, of ?d, unfolded v]
    have full: "cons_e (cons_put ?d u) - cons_r (cons_put ?d u) = 128 \<longleftrightarrow>
        length (committed s) + length (pending s) + 1 = INPUT_BUF_SIZE"
      using p(4) by (simp add: word_unat_eq_iff)
    let ?t = "cons_put ?d u"
    let ?q = "?c = 10 \<or> ?c = CTRL_D \<or> length (committed s) + length (pending s) + 1 = INPUT_BUF_SIZE"
    have wk: "committed (wakeup ChConsole (?t\<lparr>cons_w := cons_e ?t\<rparr>)) = committed s @ pending s @ [?d]"
      "pending (wakeup ChConsole (?t\<lparr>cons_w := cons_e ?t\<rparr>)) = []"
      "cons_wf (wakeup ChConsole (?t\<lparr>cons_w := cons_e ?t\<rparr>))"
      using p(5,6) by (simp_all add: committed_def pending_def cons_wf_def wakeup_def ring_view_def)
    have l: "line_input c (committed s, pending s) =
        (if ?q then (committed s @ pending s @ [?d], []) else (committed s, pending s @ [?d]))"
      using ord c True room d10 unfolding line_input_def Let_def by auto
    show ?thesis
    proof (cases ?q)
      case True
      with s' full have "s' = wakeup ChConsole (?t\<lparr>cons_w := cons_e ?t\<rparr>)" by (auto simp: Let_def)
      with wk l True show ?thesis by (simp add: cons_inv_def)
    next
      case False
      with s' full have "s' = ?t" by (auto simp: Let_def)
      with p(1-3) l False inv d10 show ?thesis by (auto simp: cons_inv_def)
    qed
  qed
qed

section \<open>Properties\<close>

text \<open>C15: the console interrupt handler implements the line discipline \<open>line_input\<close>: ordinary characters
  extend the line being edited, backspace removes its last character, control-U removes the line, and a
  newline, control-D or a full buffer commits the line to the readers. Committed input is never changed.
  The handler keeps the invariant that the buffer is not overrun and the line holds no newline.\<close>

theorem consoleintr_line_discipline:
  assumes "consoleintr c s = Ok s'" and "cons_inv s" and "0 \<le> c" and "c < 256"
  shows "cons_inv s' \<and> (committed s', pending s') = line_input c (committed s, pending s)"
proof -
  have inv: "cons_wf s" "10 \<notin> set (pending s)" using assms(2) by (auto simp: cons_inv_def)
  consider "c = 0 \<or> c = CTRL_P" | "c = CTRL_U" | "c = CTRL_H \<or> c = DEL"
    | "0 < c" "c \<noteq> CTRL_P" "c \<noteq> CTRL_U" "c \<noteq> CTRL_H" "c \<noteq> DEL"
    using assms(3) by linarith
  then show ?thesis
  proof cases
    case 1
    with assms(1) have "cons_buf s' = cons_buf s \<and> cons_r s' = cons_r s \<and> cons_w s' = cons_w s \<and> cons_e s' = cons_e s"
      by (auto simp: consoleintr_def dest: cons_procdump)
    from cons_views_cong [OF this] 1 assms(2) show ?thesis
      by (auto simp: line_input_def cons_inv_def)
  next
    case 2
    with assms(1) have "kill_line s = Ok s'" by (simp add: consoleintr_def)
    from kill_line_ok [OF this assms(2)] 2 show ?thesis
      by (simp add: line_input_def)
  next
    case 3
    show ?thesis
    proof (cases "cons_e s = cons_w s")
      case True
      with 3 assms(1,2) pending_Nil [of s] show ?thesis
        by (auto simp: consoleintr_def line_input_def)
    next
      case False
      with 3 assms(1) have u: "consputc BACKSPACE (s\<lparr>cons_e := cons_e s - 1\<rparr>) = Ok s'"
        by (auto simp: consoleintr_def)
      with cons_views_cong [OF cons_consputc [OF u]] cons_erase [OF inv(1) False] inv 3 show ?thesis
        by (auto simp: line_input_def cons_inv_def dest: in_set_butlastD)
    qed
  next
    case 4
    then show ?thesis
      using consoleintr_char [OF assms(1,2) _ assms(4)] by blast
  qed
qed

definition cons0 :: cons_state where
  "cons0 = \<lparr>phys = (\<lambda>_. 0), kend = 4096, freelist = 0, refcount = (\<lambda>_. 1), procs = (\<lambda>_. proc0),
     cur = 0, nextpid = 1, initproc = None, tramp = 0, pipes = (\<lambda>_. pipe0), panicking = False, panicked = False,
     uart_tx_buf = (\<lambda>_. 0), uart_tx_w = 0, uart_tx_r = 0, ulsr = (\<lambda>_. 32), ulsr_n = 0,
     urhr = (\<lambda>_. 65), urhr_n = 0, uwrites = [], cons_buf = (\<lambda>_. 97), cons_r = 4294967295, cons_w = 0, cons_e = 2\<rparr>"

theorem consoleintr_line_discipline_witness:
  "\<exists>s'. consoleintr CTRL_H cons0 = Ok s' \<and> (committed s', pending s') = ([97], [97])"
proof -
  have e: "consoleintr CTRL_H cons0 = consputc BACKSPACE (cons0\<lparr>cons_e := 1\<rparr>)"
    by (simp add: consoleintr_def cons0_def)
  have "\<exists>s'. consputc BACKSPACE (cons0\<lparr>cons_e := 1\<rparr>) = Ok s'"
    by (simp add: consputc_def uartputc_sync_def uart_wait_idle.simps cons0_def WriteReg_def)
  with e obtain s' where s': "consoleintr CTRL_H cons0 = Ok s'" by auto
  have "cons_inv cons0" "committed cons0 = [97]" "pending cons0 = [97, 97]"
    by (simp_all add: cons_inv_def cons_wf_def committed_def pending_def ring_view_def cons0_def upt_rec)
  with consoleintr_line_discipline [OF s'] s' show ?thesis
    by (auto simp: line_input_def)
qed

end
