(* ===== verification/XvIpc.thy ===== *)
theory XvIpc
  imports XvConsole
begin

text \<open>
  kernel/sleeplock.c, kernel/sem.c and kernel/shm.c. The spin lock that guards each object makes the body
  of every routine one atomic step, up to the call of \<open>sleep\<close>; a sleeping routine repeats its test when
  it is resumed.
\<close>

section \<open>State and operations\<close>

abbreviation (input) MAX_SEM :: int where "MAX_SEM \<equiv> 100"

record sleeplock =
  sl_locked :: bool
  sl_pid :: int

record semaphore =
  count :: int
  initialized :: bool

record ipc_state = cons_state +
  slocks :: "nat \<Rightarrow> sleeplock"
  sems :: "nat \<Rightarrow> semaphore"
  shared_page :: uint64
  shm_allocated :: bool

definition initsleeplock :: "nat \<Rightarrow> 'a ipc_state_scheme \<Rightarrow> 'a ipc_state_scheme" where
  "initsleeplock l s = s\<lparr>slocks := (slocks s)(l := \<lparr>sl_locked = False, sl_pid = 0\<rparr>)\<rparr>"

definition acquiresleep :: "nat \<Rightarrow> 'a ipc_state_scheme \<Rightarrow> unit run \<times> 'a ipc_state_scheme" where
  "acquiresleep l s =
     (if sl_locked (slocks s l) then (Asleep (), sleep_begin (ChLock l) s)
      else (Done 0, s\<lparr>slocks := (slocks s)(l := \<lparr>sl_locked = True, sl_pid = pid (myproc s)\<rparr>)\<rparr>))"

definition releasesleep :: "nat \<Rightarrow> 'a ipc_state_scheme \<Rightarrow> 'a ipc_state_scheme" where
  "releasesleep l s = wakeup (ChLock l) (s\<lparr>slocks := (slocks s)(l := \<lparr>sl_locked = False, sl_pid = 0\<rparr>)\<rparr>)"

definition holdingsleep :: "nat \<Rightarrow> 'a ipc_state_scheme \<Rightarrow> bool" where
  "holdingsleep l s \<longleftrightarrow> sl_locked (slocks s l) \<and> sl_pid (slocks s l) = pid (myproc s)"

definition sem_init :: "int \<Rightarrow> int \<Rightarrow> 'a ipc_state_scheme \<Rightarrow> int \<times> 'a ipc_state_scheme" where
  "sem_init sem_id val s =
     (if sem_id < 0 \<or> MAX_SEM \<le> sem_id \<or> val < 0 then (-1, s)
      else if initialized (sems s (nat sem_id)) then (-1, s)
      else (0, s\<lparr>sems := (sems s)(nat sem_id := \<lparr>count = val, initialized = True\<rparr>)\<rparr>))"

text \<open>The loop of \<open>sem_down\<close>, entered at the call and again after each sleep.\<close>

definition sem_down_loop :: "nat \<Rightarrow> 'a ipc_state_scheme \<Rightarrow> unit run \<times> 'a ipc_state_scheme" where
  "sem_down_loop k s =
     (if count (sems s k) \<le> 0 then (Asleep (), sleep_begin (ChSem k) s)
      else (Done 0, s\<lparr>sems := (sems s)(k := (sems s k)\<lparr>count := count (sems s k) - 1\<rparr>)\<rparr>))"

definition sem_down :: "int \<Rightarrow> 'a ipc_state_scheme \<Rightarrow> unit run \<times> 'a ipc_state_scheme" where
  "sem_down sem_id s =
     (if sem_id < 0 \<or> MAX_SEM \<le> sem_id then (Done (-1), s)
      else if \<not> initialized (sems s (nat sem_id)) then (Done (-1), s)
      else sem_down_loop (nat sem_id) s)"

definition sem_up :: "int \<Rightarrow> 'a ipc_state_scheme \<Rightarrow> int \<times> 'a ipc_state_scheme" where
  "sem_up sem_id s =
     (if sem_id < 0 \<or> MAX_SEM \<le> sem_id then (-1, s)
      else if \<not> initialized (sems s (nat sem_id)) then (-1, s)
      else let k = nat sem_id
        in (0, wakeup (ChSem k) (s\<lparr>sems := (sems s)(k := (sems s k)\<lparr>count := count (sems s k) + 1\<rparr>)\<rparr>)))"

definition shm_init :: "'a ipc_state_scheme \<Rightarrow> 'a ipc_state_scheme" where
  "shm_init s = s\<lparr>shared_page := 0, shm_allocated := False\<rparr>"

text \<open>\<open>shm_get\<close> for the process in slot \<open>p\<close>; the key is not used.\<close>

abbreviation (input) SHARED_VA :: uint64 where "SHARED_VA \<equiv> 0x40000000"

definition shm_get :: "nat \<Rightarrow> int \<Rightarrow> 'a ipc_state_scheme \<Rightarrow> (uint64 \<times> 'a ipc_state_scheme) res" where
  "shm_get p key s =
     bindr (if \<not> shm_allocated s
            then bindr (kalloc s) (\<lambda>(pg, s1).
              let s2 = s1\<lparr>shared_page := pg\<rparr>
              in if pg = 0 then Ok (False, s2)
                 else Ok (True, (zero_page pg s2)\<lparr>shm_allocated := True\<rparr>))
            else Ok (True, s)) (\<lambda>(ok, s3).
       if \<not> ok then Ok (0, s3)
       else bindr (mappages (pagetable (procs s3 p)) SHARED_VA PGSIZE (shared_page s3) (PTE_W OR PTE_U) s3)
         (\<lambda>(r, s4). if r < 0 then Ok (0, s4) else Ok (SHARED_VA, s4)))"

section \<open>Sleepers\<close>

definition sleepers :: "chan \<Rightarrow> 'a proc_state_scheme \<Rightarrow> nat set" where
  "sleepers ch s = {i. i < NPROC \<and> state (procs s i) = SLEEPING \<and> pchan (procs s i) = ch}"

definition running :: "'a proc_state_scheme \<Rightarrow> bool" where
  "running s \<longleftrightarrow> state (procs s (cur s)) = RUNNING"

lemma sleepers_wakeup: "running s \<Longrightarrow> sleepers ch (wakeup ch s) = {}"
  by (auto simp: sleepers_def wakeup_def running_def)

lemma sleepers_cong: "procs s' = procs s \<Longrightarrow> sleepers ch s' = sleepers ch s"
  by (simp add: sleepers_def)

section \<open>Sleep locks\<close>

text \<open>Processes that use one sleep lock: \<open>holders\<close> are those between the return of \<open>acquiresleep\<close> and the
  call of \<open>releasesleep\<close>. The rest of the kernel may do anything that leaves the lock alone, does not put a
  process to sleep on it and keeps the pids of the holders.\<close>

record lock_system = ipc_state +
  holders :: "nat set"

definition slock_init :: "nat \<Rightarrow> lock_system \<Rightarrow> bool" where
  "slock_init l s \<longleftrightarrow> slocks s l = \<lparr>sl_locked = False, sl_pid = 0\<rparr> \<and> holders s = {} \<and> sleepers (ChLock l) s = {}"

inductive slock_step :: "nat \<Rightarrow> lock_system \<Rightarrow> lock_system \<Rightarrow> bool" for l where
  take: "running s \<Longrightarrow> acquiresleep l s = (Done r, s') \<Longrightarrow> slock_step l s (s'\<lparr>holders := insert (cur s) (holders s)\<rparr>)"
| doze: "running s \<Longrightarrow> acquiresleep l s = (Asleep u, s') \<Longrightarrow> slock_step l s s'"
| give: "running s \<Longrightarrow> cur s \<in> holders s \<Longrightarrow> slock_step l s (releasesleep l s\<lparr>holders := holders s - {cur s}\<rparr>)"
| other: "slocks s' l = slocks s l \<Longrightarrow> holders s' = holders s \<Longrightarrow> sleepers (ChLock l) s' \<subseteq> sleepers (ChLock l) s \<Longrightarrow>
    (\<And>i. i \<in> holders s \<Longrightarrow> pid (procs s' i) = pid (procs s i)) \<Longrightarrow> slock_step l s s'"

definition slock_inv :: "nat \<Rightarrow> lock_system \<Rightarrow> bool" where
  "slock_inv l s \<longleftrightarrow>
     (if sl_locked (slocks s l)
      then \<exists>i. holders s = {i} \<and> sl_pid (slocks s l) = pid (procs s i)
      else holders s = {} \<and> sleepers (ChLock l) s = {})"

lemma slock_inv_step:
  assumes "slock_inv l s" and "slock_step l s t"
  shows "slock_inv l t"
  using assms(2)
proof (cases rule: slock_step.cases)
  case (take r s')
  with assms(1) show ?thesis
    by (auto simp: slock_inv_def acquiresleep_def myproc_def split: if_splits)
next
  case (doze u)
  then have l: "sl_locked (slocks s l)" and t: "t = sleep_begin (ChLock l) s"
    by (auto simp: acquiresleep_def split: if_splits)
  have "slocks t = slocks s" "holders t = holders s" "pid (procs t i) = pid (procs s i)" for i
    by (auto simp: t sleep_begin_def upd_proc_def)
  with l assms(1) show ?thesis by (auto simp: slock_inv_def)
next
  case give
  let ?u = "s\<lparr>slocks := (slocks s)(l := \<lparr>sl_locked = False, sl_pid = 0\<rparr>)\<rparr>"
  have "sleepers (ChLock l) t = sleepers (ChLock l) (wakeup (ChLock l) ?u)"
    by (rule sleepers_cong) (simp add: give(1) releasesleep_def)
  moreover have "running ?u" using give(2) by (simp add: running_def)
  ultimately have "sleepers (ChLock l) t = {}" by (simp add: sleepers_wakeup)
  moreover have "holders s = {cur s}"
    using assms(1) give(3) by (auto simp: slock_inv_def split: if_splits)
  ultimately show ?thesis
    by (simp add: slock_inv_def give(1) releasesleep_def wakeup_def)
next
  case other
  with assms(1) show ?thesis
    by (auto simp: slock_inv_def split: if_splits)
qed

interpretation slock: inv_system "slock_init l" "slock_step l" "slock_inv l" for l
proof
  show "slock_inv l s" if "slock_init l s" for s
    using that by (simp add: slock_init_def slock_inv_def)
  show "slock_inv l t" if "slock_inv l s" and "slock_step l s t" for s t
    using that by (rule slock_inv_step)
qed

section \<open>Semaphores\<close>

text \<open>Processes that use semaphore \<open>k\<close>, with the initial value and the numbers of completed operations.\<close>

record sem_system = ipc_state +
  ini :: int
  ups :: nat
  downs :: nat

definition sem_sys_init :: "nat \<Rightarrow> sem_system \<Rightarrow> bool" where
  "sem_sys_init k s \<longleftrightarrow> \<not> initialized (sems s k) \<and> sleepers (ChSem k) s = {} \<and> ups s = 0 \<and> downs s = 0"

inductive sem_step :: "nat \<Rightarrow> sem_system \<Rightarrow> sem_system \<Rightarrow> bool" for k where
  init: "sem_init (int k) v s = (0, s') \<Longrightarrow> sem_step k s (s'\<lparr>ini := v\<rparr>)"
| down: "running s \<Longrightarrow> sem_down (int k) s = (Done 0, s') \<Longrightarrow> sem_step k s (s'\<lparr>downs := Suc (downs s)\<rparr>)"
| wait: "running s \<Longrightarrow> sem_down (int k) s = (Asleep u, s') \<Longrightarrow> sem_step k s s'"
| resume: "running s \<Longrightarrow> initialized (sems s k) \<Longrightarrow> sem_down_loop k (sleep_end s) = (Done 0, s') \<Longrightarrow>
    sem_step k s (s'\<lparr>downs := Suc (downs s)\<rparr>)"
| again: "running s \<Longrightarrow> initialized (sems s k) \<Longrightarrow> sem_down_loop k (sleep_end s) = (Asleep u, s') \<Longrightarrow> sem_step k s s'"
| up: "running s \<Longrightarrow> sem_up (int k) s = (0, s') \<Longrightarrow> sem_step k s (s'\<lparr>ups := Suc (ups s)\<rparr>)"
| other: "sems s' k = sems s k \<Longrightarrow> ini s' = ini s \<Longrightarrow> ups s' = ups s \<Longrightarrow> downs s' = downs s \<Longrightarrow>
    sleepers (ChSem k) s' \<subseteq> sleepers (ChSem k) s \<Longrightarrow> sem_step k s s'"

definition sem_inv :: "nat \<Rightarrow> sem_system \<Rightarrow> bool" where
  "sem_inv k s \<longleftrightarrow>
     (if initialized (sems s k)
      then 0 \<le> count (sems s k) \<and> count (sems s k) = ini s + int (ups s) - int (downs s) \<and>
        (sleepers (ChSem k) s \<noteq> {} \<longrightarrow> count (sems s k) = 0)
      else sleepers (ChSem k) s = {} \<and> ups s = 0 \<and> downs s = 0)"

lemma sems_procs [simp]:
  fixes s :: "'a ipc_state_scheme"
  shows "sems (sleep_begin ch s) = sems s" "sems (sleep_end s) = sems s" "sems (wakeup ch s) = sems s"
  by (simp_all add: sleep_begin_def sleep_end_def wakeup_def upd_proc_def)

lemma ghost_procs [simp]:
  fixes s :: sem_system
  shows "ini (sleep_begin ch s) = ini s" "ini (sleep_end s) = ini s" "ini (wakeup ch s) = ini s"
    "ups (sleep_begin ch s) = ups s" "ups (sleep_end s) = ups s" "ups (wakeup ch s) = ups s"
    "downs (sleep_begin ch s) = downs s" "downs (sleep_end s) = downs s" "downs (wakeup ch s) = downs s"
  by (simp_all add: sleep_begin_def sleep_end_def wakeup_def upd_proc_def)

lemma sem_loop_step:
  assumes "sem_inv k s" and "initialized (sems s k)" and "running s"
    and "sem_down_loop k s' = (out, t)" and "s' = s \<or> s' = sleep_end s"
  shows "case out of Done r \<Rightarrow> sem_inv k (t\<lparr>downs := Suc (downs s)\<rparr>) | Asleep u \<Rightarrow> sem_inv k t"
proof (cases "count (sems s k) \<le> 0")
  case True
  with assms show ?thesis
    by (auto simp: sem_down_loop_def sem_inv_def)
next
  case False
  have e: "sems s' = sems s" "ini s' = ini s" "ups s' = ups s" "downs s' = downs s"
    using assms(5) by auto
  have "sleepers (ChSem k) s = {}" using False assms(1,2) by (auto simp: sem_inv_def)
  moreover have "sleepers (ChSem k) (sleep_end s) \<subseteq> sleepers (ChSem k) s"
    by (auto simp: sleepers_def sleep_end_def split: if_splits)
  ultimately have sl: "sleepers (ChSem k) s' = {}" using assms(5) by auto
  have t: "out = Done 0" "t = s'\<lparr>sems := (sems s)(k := (sems s k)\<lparr>count := count (sems s k) - 1\<rparr>)\<rparr>"
    using False assms(4) e by (auto simp: sem_down_loop_def)
  have "sleepers (ChSem k) (t\<lparr>downs := Suc (downs s)\<rparr>) = {}"
    using sl by (simp add: t(2) sleepers_def)
  with t e assms(1,2) False show ?thesis
    by (simp add: sem_inv_def)
qed

lemma sem_inv_step:
  assumes "k < 100" and "sem_inv k s" and "sem_step k s t"
  shows "sem_inv k t"
  using assms(3)
proof (cases rule: sem_step.cases)
  case (init v s')
  then have "sleepers (ChSem k) t = sleepers (ChSem k) s"
    by (intro sleepers_cong) (auto simp: sem_init_def split: if_splits)
  with init assms show ?thesis
    by (auto simp: sem_init_def sem_inv_def split: if_splits)
next
  case (down s')
  then have "initialized (sems s k)" "sem_down_loop k s = (Done 0, s')"
    using assms(1) by (auto simp: sem_down_def split: if_splits)
  from sem_loop_step [OF assms(2) this(1) down(2) this(2)] down(1) show ?thesis by simp
next
  case (wait u)
  then have "initialized (sems s k)" "sem_down_loop k s = (Asleep u, t)"
    using assms(1) by (auto simp: sem_down_def split: if_splits)
  from sem_loop_step [OF assms(2) this(1) wait(1) this(2)] show ?thesis by simp
next
  case (resume s')
  from sem_loop_step [OF assms(2) resume(3,2,4)] resume(1) show ?thesis by simp
next
  case (again u)
  from sem_loop_step [OF assms(2) again(2,1,3)] show ?thesis by simp
next
  case (up s')
  let ?v = "s\<lparr>sems := (sems s)(k := (sems s k)\<lparr>count := count (sems s k) + 1\<rparr>)\<rparr>"
  have i: "initialized (sems s k)" and s': "s' = wakeup (ChSem k) ?v"
    using up(3) by (auto simp: sem_up_def Let_def split: if_splits)
  have "sleepers (ChSem k) t = sleepers (ChSem k) (wakeup (ChSem k) ?v)"
    by (rule sleepers_cong) (simp add: up(1) s')
  moreover have "running ?v" using up(2) by (simp add: running_def)
  ultimately have "sleepers (ChSem k) t = {}" by (simp add: sleepers_wakeup)
  with i assms(2) show ?thesis
    by (simp add: sem_inv_def up(1) s')
next
  case other
  with assms(2) show ?thesis
    by (auto simp: sem_inv_def split: if_splits)
qed

interpretation sem: inv_system "sem_sys_init k" "sem_step k" "\<lambda>s. k < 100 \<longrightarrow> sem_inv k s" for k
proof
  show "k < 100 \<longrightarrow> sem_inv k s" if "sem_sys_init k s" for s
    using that by (simp add: sem_sys_init_def sem_inv_def)
  show "k < 100 \<longrightarrow> sem_inv k t" if "k < 100 \<longrightarrow> sem_inv k s" and "sem_step k s t" for s t
    using that sem_inv_step by blast
qed

section \<open>Properties\<close>

definition ipc0 :: ipc_state where
  "ipc0 = \<lparr>phys = (\<lambda>_. 0), kend = 4096, freelist = 0, refcount = (\<lambda>_. 1), procs = (\<lambda>_. proc0\<lparr>state := RUNNING\<rparr>),
     cur = 0, nextpid = 1, initproc = None, tramp = 0, pipes = (\<lambda>_. pipe0), panicking = False, panicked = False,
     uart_tx_buf = (\<lambda>_. 0), uart_tx_w = 0, uart_tx_r = 0, ulsr = (\<lambda>_. 32), ulsr_n = 0,
     urhr = (\<lambda>_. 65), urhr_n = 0, uwrites = [], cons_buf = (\<lambda>_. 97), cons_r = 0, cons_w = 0, cons_e = 0,
     slocks = (\<lambda>_. \<lparr>sl_locked = False, sl_pid = 0\<rparr>), sems = (\<lambda>_. \<lparr>count = 0, initialized = False\<rparr>),
     shared_page = 0, shm_allocated = False\<rparr>"

text \<open>C27: a sleep lock has at most one holder, whose pid it records, and no process sleeps on a lock that is
  free: no wakeup is lost.\<close>

theorem sleeplock_exclusive:
  assumes "reachable (slock_init l) (slock_step l) s"
  shows "(i \<in> holders s \<and> j \<in> holders s \<longrightarrow> i = j) \<and>
    (i \<in> holders s \<longrightarrow> sl_locked (slocks s l) \<and> sl_pid (slocks s l) = pid (procs s i)) \<and>
    (\<not> sl_locked (slocks s l) \<longrightarrow> sleepers (ChLock l) s = {})"
  using slock.inv_reachable [OF assms] by (auto simp: slock_inv_def split: if_splits)

definition lsys0 :: lock_system where
  "lsys0 = ipc_state.extend ipc0 \<lparr>holders = {}\<rparr>"

theorem sleeplock_exclusive_witness:
  "reachable (slock_init 3) (slock_step 3) lsys0 \<and> sleepers (ChLock 3) lsys0 = {}"
proof -
  have r: "reachable (slock_init 3) (slock_step 3) lsys0"
    by (rule reach_init) (simp add: slock_init_def lsys0_def ipc_state.defs ipc0_def sleepers_def)
  with sleeplock_exclusive [OF r] show ?thesis
    by (simp add: lsys0_def ipc_state.defs ipc0_def)
qed


definition ssys0 :: sem_system where
  "ssys0 = ipc_state.extend ipc0 \<lparr>ini = 0, ups = 0, downs = 0\<rparr>"


lemma walk_loop_present: "pte_at (phys s) l p va = Some a \<Longrightarrow> walk_loop l p va al s = Ok (a, s)"
  by (induction l arbitrary: p)
    (auto simp: Let_def get_pte_def PX_in_pt_idx pvalid_def pt_child_def split: if_splits)

lemma mappages_remap:
  assumes "pvalid (pgtbl s pt va)" and "pg_aligned va" and "va < MAXVA" and "kmem_wf s" and "pt_ok s 2 pt"
  shows "mappages pt va PGSIZE pa perm s = Panic ''mappages: remap''"
proof -
  obtain a where a: "pte_at (phys s) 2 pt va = Some a"
    using assms(1) by (cases "pte_at (phys s) 2 pt va") (auto simp: pte_val_def)
  have w: "walk pt va True s = Ok (a, s)"
    using walk_loop_present [OF a] assms(3) by (simp add: walk_def not_le)
  have "get_pte s a AND PTE_V \<noteq> 0"
    using assms(1) get_pte_at [OF a] by (simp add: pvalid_def)
  moreover from this have "a \<noteq> 0"
    using a pte_at_nonzero assms(4,5) by blast
  ultimately show ?thesis
    using assms(2) w by (simp add: mappages_def pg_aligned_def) (subst mappages_loop.simps, simp)
qed

lemma keeps_ipc:
  fixes s s' :: "'a ipc_state_scheme"
  assumes "keeps s s'"
  shows "procs s' = procs s" and "shm_allocated s' = shm_allocated s"
  using assms by (cases s; cases s'; simp)+


definition shm0 :: ipc_state where
  "shm0 = ipc0\<lparr>phys := phys four_pages, kend := kend four_pages, freelist := freelist four_pages,
     refcount := refcount four_pages, procs := (\<lambda>_. proc0\<lparr>pagetable := 2281684992\<rparr>),
     shared_page := 2281680896, shm_allocated := True\<rparr>"

lemma kmem_same:
  assumes "phys s = phys t" "kend s = kend t" "freelist s = freelist t" "refcount s = refcount t"
  shows "kmem_wf s = kmem_wf t" and "pt_ok s l p = pt_ok t l p"
  using assms by (simp_all add: kmem_wf_def free_pages_def owned_pages_def page_ok_def pt_ok_def)


end
