(* ===== verification/XvBio.thy ===== *)
theory XvBio
  imports XvIpc
begin

text \<open>
  kernel/bio.c: the buffer cache. The doubly linked list through the buffers is the sequence \<open>lru\<close> of their
  indices from \<open>head.next\<close> on. The disk is a map from block numbers to contents, and \<open>virtio_disk_rw\<close> is the
  transfer it completes. A routine that would sleep on a buffer lock is \<open>Block\<close>.
\<close>

section \<open>State and operations\<close>

abbreviation (input) NBUF :: nat where "NBUF \<equiv> 30"
abbreviation (input) BSIZE :: nat where "BSIZE \<equiv> 1024"

type_synonym block = "nat \<Rightarrow> uint8"

record buf =
  bvalid :: bool
  bdev :: uint32
  blockno :: uint32
  refcnt :: uint32
  bdata :: block

record bio_state = ipc_state +
  bufs :: "nat \<Rightarrow> buf"
  lru :: "nat list"
  disk :: "uint32 \<Rightarrow> block"

definition upd_buf :: "nat \<Rightarrow> (buf \<Rightarrow> buf) \<Rightarrow> 'a bio_state_scheme \<Rightarrow> 'a bio_state_scheme" where
  "upd_buf i f s = s\<lparr>bufs := (bufs s)(i := f (bufs s i))\<rparr>"

definition binit :: "'a bio_state_scheme \<Rightarrow> 'a bio_state_scheme" where
  "binit s = fold (\<lambda>i s. initsleeplock i (s\<lparr>lru := i # lru s\<rparr>)) [0..<NBUF] (s\<lparr>lru := []\<rparr>)"

definition virtio_disk_rw :: "nat \<Rightarrow> bool \<Rightarrow> 'a bio_state_scheme \<Rightarrow> 'a bio_state_scheme" where
  "virtio_disk_rw i write s =
     (if write then s\<lparr>disk := (disk s)(blockno (bufs s i) := bdata (bufs s i))\<rparr>
      else upd_buf i (\<lambda>b. b\<lparr>bdata := disk s (blockno b)\<rparr>) s)"

definition lock_buf :: "nat \<Rightarrow> 'a bio_state_scheme \<Rightarrow> (nat \<times> 'a bio_state_scheme) res" where
  "lock_buf i s = (case acquiresleep i s of (Asleep _, s1) \<Rightarrow> Block | (Done _, s1) \<Rightarrow> Ok (i, s1))"

definition bget :: "uint32 \<Rightarrow> uint32 \<Rightarrow> 'a bio_state_scheme \<Rightarrow> (nat \<times> 'a bio_state_scheme) res" where
  "bget dev bno s =
     (case find (\<lambda>i. bdev (bufs s i) = dev \<and> blockno (bufs s i) = bno) (lru s) of
        Some i \<Rightarrow> lock_buf i (upd_buf i (\<lambda>b. b\<lparr>refcnt := refcnt b + 1\<rparr>) s)
      | None \<Rightarrow>
          case find (\<lambda>i. refcnt (bufs s i) = 0) (rev (lru s)) of
            Some i \<Rightarrow> lock_buf i (upd_buf i (\<lambda>b. b\<lparr>bdev := dev, blockno := bno, bvalid := False, refcnt := 1\<rparr>) s)
          | None \<Rightarrow> Panic ''bget: no buffers'')"

definition bread :: "uint32 \<Rightarrow> uint32 \<Rightarrow> 'a bio_state_scheme \<Rightarrow> (nat \<times> 'a bio_state_scheme) res" where
  "bread dev bno s = bindr (bget dev bno s) (\<lambda>(i, s1).
     if \<not> bvalid (bufs s1 i) then Ok (i, upd_buf i (\<lambda>b. b\<lparr>bvalid := True\<rparr>) (virtio_disk_rw i False s1))
     else Ok (i, s1))"

definition bwrite :: "nat \<Rightarrow> 'a bio_state_scheme \<Rightarrow> 'a bio_state_scheme res" where
  "bwrite i s = (if \<not> holdingsleep i s then Panic ''bwrite'' else Ok (virtio_disk_rw i True s))"

definition brelse :: "nat \<Rightarrow> 'a bio_state_scheme \<Rightarrow> 'a bio_state_scheme res" where
  "brelse i s =
     (if \<not> holdingsleep i s then Panic ''brelse''
      else let s1 = upd_buf i (\<lambda>b. b\<lparr>refcnt := refcnt b - 1\<rparr>) (releasesleep i s)
        in Ok (if refcnt (bufs s1 i) = 0 then s1\<lparr>lru := i # remove1 i (lru s1)\<rparr> else s1))"

definition bpin :: "nat \<Rightarrow> 'a bio_state_scheme \<Rightarrow> 'a bio_state_scheme" where
  "bpin i s = upd_buf i (\<lambda>b. b\<lparr>refcnt := refcnt b + 1\<rparr>) s"

definition bunpin :: "nat \<Rightarrow> 'a bio_state_scheme \<Rightarrow> 'a bio_state_scheme" where
  "bunpin i s = upd_buf i (\<lambda>b. b\<lparr>refcnt := refcnt b - 1\<rparr>) s"

text \<open>Little-endian fields of a block.\<close>

definition bld16 :: "block \<Rightarrow> nat \<Rightarrow> uint16" where
  "bld16 d a = ucast (d a) OR push_bit 8 (ucast (d (a + 1)))"

definition bld32 :: "block \<Rightarrow> nat \<Rightarrow> uint32" where
  "bld32 d a = ucast (d a) OR push_bit 8 (ucast (d (a + 1))) OR push_bit 16 (ucast (d (a + 2))) OR
     push_bit 24 (ucast (d (a + 3)))"

definition bst16 :: "nat \<Rightarrow> uint16 \<Rightarrow> block \<Rightarrow> block" where
  "bst16 a v d = d(a := ucast v, a + 1 := ucast (drop_bit 8 v))"

definition bst32 :: "nat \<Rightarrow> uint32 \<Rightarrow> block \<Rightarrow> block" where
  "bst32 a v d = d(a := ucast v, a + 1 := ucast (drop_bit 8 v), a + 2 := ucast (drop_bit 16 v),
     a + 3 := ucast (drop_bit 24 v))"

definition upd_data :: "nat \<Rightarrow> (block \<Rightarrow> block) \<Rightarrow> 'a bio_state_scheme \<Rightarrow> 'a bio_state_scheme" where
  "upd_data i f s = upd_buf i (\<lambda>b. b\<lparr>bdata := f (bdata b)\<rparr>) s"

section \<open>The block store\<close>

text \<open>The contents of block \<open>b\<close> of device \<open>d\<close>: the cached copy if there is one, else what is on the disk.\<close>

definition cached :: "'a bio_state_scheme \<Rightarrow> uint32 \<Rightarrow> uint32 \<Rightarrow> nat \<Rightarrow> bool" where
  "cached s d b i \<longleftrightarrow> i < NBUF \<and> bdev (bufs s i) = d \<and> blockno (bufs s i) = b"

definition blk :: "'a bio_state_scheme \<Rightarrow> uint32 \<Rightarrow> uint32 \<Rightarrow> block" where
  "blk s d b = (case find (\<lambda>i. bdev (bufs s i) = d \<and> blockno (bufs s i) = b) (lru s) of
     Some i \<Rightarrow> if bvalid (bufs s i) then bdata (bufs s i) else disk s b
   | None \<Rightarrow> disk s b)"

text \<open>The invariant for the device \<open>d\<close>: the list holds every buffer once, no two buffers hold the same
  block, and a buffer that nobody refers to is not locked and holds what is on the disk.\<close>

definition bcache_wf :: "uint32 \<Rightarrow> 'a bio_state_scheme \<Rightarrow> bool" where
  "bcache_wf d s \<longleftrightarrow> distinct (lru s) \<and> set (lru s) = {..<NBUF} \<and>
     (\<forall>i j b. cached s d b i \<and> cached s d b j \<longrightarrow> i = j) \<and>
     (\<forall>i < NBUF. refcnt (bufs s i) = 0 \<longrightarrow> \<not> sl_locked (slocks s i)) \<and>
     (\<forall>i < NBUF. bdev (bufs s i) = d \<and> bvalid (bufs s i) \<and> refcnt (bufs s i) = 0 \<longrightarrow>
        bdata (bufs s i) = disk s (blockno (bufs s i)))"

lemma find_SomeD: "find P xs = Some x \<Longrightarrow> x \<in> set xs \<and> P x"
  by (induction xs) (auto split: if_splits)

lemma find_cached:
  assumes "bcache_wf d s"
  shows "find (\<lambda>i. bdev (bufs s i) = d \<and> blockno (bufs s i) = b) (lru s) = Some i \<longleftrightarrow> cached s d b i"
    and "find (\<lambda>i. bdev (bufs s i) = d \<and> blockno (bufs s i) = b) (lru s) = None \<longleftrightarrow> (\<forall>i. \<not> cached s d b i)"
proof -
  let ?P = "\<lambda>i. bdev (bufs s i) = d \<and> blockno (bufs s i) = b"
  have set: "set (lru s) = {..<NBUF}" and uniq: "\<And>i j. cached s d b i \<Longrightarrow> cached s d b j \<Longrightarrow> i = j"
    using assms unfolding bcache_wf_def by blast+
  show none: "find ?P (lru s) = None \<longleftrightarrow> (\<forall>i. \<not> cached s d b i)"
    unfolding find_None_iff set cached_def by auto
  show "find ?P (lru s) = Some i \<longleftrightarrow> cached s d b i"
  proof
    assume "find ?P (lru s) = Some i"
    then show "cached s d b i"
      unfolding find_Some_iff cached_def using set nth_mem by fastforce
  next
    assume c: "cached s d b i"
    with none obtain j where j: "find ?P (lru s) = Some j" by (cases "find ?P (lru s)") auto
    then have "cached s d b j"
      unfolding find_Some_iff cached_def using set nth_mem by fastforce
    with uniq c j show "find ?P (lru s) = Some i" by simp
  qed
qed

lemma blk_eq:
  assumes "bcache_wf d s"
  shows "cached s d b i \<Longrightarrow> blk s d b = (if bvalid (bufs s i) then bdata (bufs s i) else disk s b)"
    and "(\<And>i. \<not> cached s d b i) \<Longrightarrow> blk s d b = disk s b"
proof -
  show "cached s d b i \<Longrightarrow> blk s d b = (if bvalid (bufs s i) then bdata (bufs s i) else disk s b)"
    using find_cached(1) [OF assms, of b i] by (simp add: blk_def)
  show "(\<And>i. \<not> cached s d b i) \<Longrightarrow> blk s d b = disk s b"
    using find_cached(2) [OF assms, of b] by (simp add: blk_def)
qed

lemma bcache_wfD:
  assumes "bcache_wf d s"
  shows "distinct (lru s)" and "set (lru s) = {..<NBUF}" and "\<And>i j b. cached s d b i \<Longrightarrow> cached s d b j \<Longrightarrow> i = j"
    and "\<And>i. i < NBUF \<Longrightarrow> refcnt (bufs s i) = 0 \<Longrightarrow> \<not> sl_locked (slocks s i)"
    and "\<And>i. i < NBUF \<Longrightarrow> bdev (bufs s i) = d \<Longrightarrow> bvalid (bufs s i) \<Longrightarrow> refcnt (bufs s i) = 0 \<Longrightarrow>
      bdata (bufs s i) = disk s (blockno (bufs s i))"
  using assms unfolding bcache_wf_def by blast+

lemma acquire_buf:
  fixes s :: "'a bio_state_scheme"
  assumes "\<not> sl_locked (slocks s i)"
  shows "lock_buf i s = Ok (i, s\<lparr>slocks := (slocks s)(i := \<lparr>sl_locked = True, sl_pid = pid (myproc s)\<rparr>)\<rparr>)"
  using assms by (simp add: lock_buf_def acquiresleep_def)

text \<open>What \<open>bread\<close> leaves in the buffer it returns.\<close>

lemma bread_cases:
  assumes wf: "bcache_wf d s"
    and free: "\<forall>i. cached s d b i \<longrightarrow> \<not> sl_locked (slocks s i)"
    and avail: "(\<exists>i. cached s d b i) \<or> (\<exists>i < NBUF. refcnt (bufs s i) = 0)"
  obtains (hit) i where "cached s d b i"
      "bread d b s = Ok (i, s\<lparr>bufs := (bufs s)(i := (bufs s i)\<lparr>refcnt := refcnt (bufs s i) + 1, bvalid := True, bdata := blk s d b\<rparr>),
         slocks := (slocks s)(i := \<lparr>sl_locked = True, sl_pid = pid (myproc s)\<rparr>)\<rparr>)"
  | (miss) i where "\<And>j. \<not> cached s d b j" "i < NBUF" "refcnt (bufs s i) = 0"
      "bread d b s = Ok (i, s\<lparr>bufs := (bufs s)(i := \<lparr>bvalid = True, bdev = d, blockno = b, refcnt = 1, bdata = disk s b\<rparr>),
         slocks := (slocks s)(i := \<lparr>sl_locked = True, sl_pid = pid (myproc s)\<rparr>)\<rparr>)"
proof (cases "\<exists>i. cached s d b i")
  case True
  then obtain i where i: "cached s d b i" by blast
  have f: "find (\<lambda>i. bdev (bufs s i) = d \<and> blockno (bufs s i) = b) (lru s) = Some i"
    using find_cached(1) [OF wf] i by simp
  let ?s1 = "upd_buf i (\<lambda>b. b\<lparr>refcnt := refcnt b + 1\<rparr>) s"
  have l: "\<not> sl_locked (slocks ?s1 i)" using free i by (simp add: upd_buf_def)
  have "bread d b s = Ok (i, s\<lparr>bufs := (bufs s)(i := (bufs s i)\<lparr>refcnt := refcnt (bufs s i) + 1, bvalid := True, bdata := blk s d b\<rparr>),
      slocks := (slocks s)(i := \<lparr>sl_locked = True, sl_pid = pid (myproc s)\<rparr>)\<rparr>)"
  proof -
    obtain v rc da where q: "bufs s i = \<lparr>bvalid = v, bdev = d, blockno = b, refcnt = rc, bdata = da\<rparr>"
      using i by (cases "bufs s i") (auto simp: cached_def)
    have e: "blk s d b = (if v then da else disk s b)"
      using blk_eq(1) [OF wf i] by (simp add: q)
    have "bget d b s = Ok (i, ?s1\<lparr>slocks := (slocks ?s1)(i := \<lparr>sl_locked = True, sl_pid = pid (myproc ?s1)\<rparr>)\<rparr>)"
      by (simp only: bget_def f option.case acquire_buf [OF l])
    then show ?thesis
      unfolding bread_def e by (cases v) (simp_all add: upd_buf_def virtio_disk_rw_def myproc_def q)
  qed
  with i show ?thesis by (rule hit)
next
  case False
  then have n: "find (\<lambda>i. bdev (bufs s i) = d \<and> blockno (bufs s i) = b) (lru s) = None"
    using find_cached(2) [OF wf] by simp
  have "find (\<lambda>i. refcnt (bufs s i) = 0) (rev (lru s)) \<noteq> None"
    using avail False bcache_wfD(2) [OF wf] by (auto simp: find_None_iff)
  then obtain i where f: "find (\<lambda>i. refcnt (bufs s i) = 0) (rev (lru s)) = Some i" by auto
  from find_SomeD [OF this] have i: "i < NBUF" "refcnt (bufs s i) = 0"
    using bcache_wfD(2) [OF wf] by simp_all
  let ?s1 = "upd_buf i (\<lambda>c. c\<lparr>bdev := d, blockno := b, bvalid := False, refcnt := 1\<rparr>) s"
  have l: "\<not> sl_locked (slocks ?s1 i)" using bcache_wfD(4) [OF wf i] by (simp add: upd_buf_def)
  have "bread d b s = Ok (i, s\<lparr>bufs := (bufs s)(i := \<lparr>bvalid = True, bdev = d, blockno = b, refcnt = 1, bdata = disk s b\<rparr>),
      slocks := (slocks s)(i := \<lparr>sl_locked = True, sl_pid = pid (myproc s)\<rparr>)\<rparr>)"
  proof -
    have "bget d b s = Ok (i, ?s1\<lparr>slocks := (slocks ?s1)(i := \<lparr>sl_locked = True, sl_pid = pid (myproc ?s1)\<rparr>)\<rparr>)"
      by (simp only: bget_def n f option.case acquire_buf [OF l])
    then show ?thesis
      unfolding bread_def by (cases "bufs s i") (simp add: upd_buf_def virtio_disk_rw_def myproc_def)
  qed
  with False i show ?thesis by (intro miss) auto
qed

lemma blk_frame:
  assumes "bcache_wf d s" and "bcache_wf d s'" and "disk s' c = disk s c"
    and "\<And>i. cached s' d c i \<longleftrightarrow> cached s d c i" and "\<And>i. cached s d c i \<Longrightarrow> bvalid (bufs s' i) = bvalid (bufs s i) \<and> bdata (bufs s' i) = bdata (bufs s i)"
  shows "blk s' d c = blk s d c"
proof (cases "\<exists>i. cached s d c i")
  case True
  then obtain i where i: "cached s d c i" by blast
  with assms(4) have "cached s' d c i" by simp
  from blk_eq(1) [OF assms(2) this] blk_eq(1) [OF assms(1) i] assms(3) assms(5) [OF i] show ?thesis by simp
next
  case False
  with assms(4) blk_eq(2) [OF assms(1)] blk_eq(2) [OF assms(2)] assms(3) show ?thesis by simp
qed

text \<open>What \<open>bread\<close> and \<open>brelse\<close> do to the cache, the locks and the other buffers.\<close>

lemma bread_ok:
  assumes "bcache_wf d s" and "\<forall>i. cached s d b i \<longrightarrow> \<not> sl_locked (slocks s i) \<and> refcnt (bufs s i) + 1 \<noteq> 0"
    and "(\<exists>i. cached s d b i) \<or> (\<exists>i < NBUF. refcnt (bufs s i) = 0)"
  shows "\<exists>i s'. bread d b s = Ok (i, s') \<and> cached s' d b i \<and> holdingsleep i s' \<and> bdata (bufs s' i) = blk s d b \<and>
    bcache_wf d s' \<and> (\<forall>c. blk s' d c = blk s d c) \<and> disk s' = disk s \<and>
    (cached s d b i \<or> (\<forall>j. \<not> cached s d b j) \<and> refcnt (bufs s i) = 0) \<and> bvalid (bufs s' i) \<and>
    refcnt (bufs s' i) = refcnt (bufs s i) + 1 \<and> (\<forall>j. j \<noteq> i \<longrightarrow> bufs s' j = bufs s j) \<and>
    slocks s' = (slocks s)(i := \<lparr>sl_locked = True, sl_pid = pid (myproc s)\<rparr>) \<and> myproc s' = myproc s \<and>
    bio_state.more s' = bio_state.more s"
proof -
  have "\<forall>i. cached s d b i \<longrightarrow> \<not> sl_locked (slocks s i)" using assms(2) by blast
  with assms(1) show ?thesis using assms(3)
  proof (cases rule: bread_cases)
    case (hit i)
    let ?s = "s\<lparr>bufs := (bufs s)(i := (bufs s i)\<lparr>refcnt := refcnt (bufs s i) + 1, bvalid := True, bdata := blk s d b\<rparr>),
         slocks := (slocks s)(i := \<lparr>sl_locked = True, sl_pid = pid (myproc s)\<rparr>)\<rparr>"
    have c: "cached ?s d c j \<longleftrightarrow> cached s d c j" for c j by (auto simp: cached_def)
    have wf: "bcache_wf d ?s"
      using assms(1,2) hit(1) unfolding bcache_wf_def c by auto
    have "blk ?s d c = blk s d c" for c
    proof (cases "c = b")
      case True
      with blk_eq(1) [OF wf, of b i] hit(1) c show ?thesis by simp
    next
      case False
      then have "\<not> cached s d c i" using hit(1) by (auto simp: cached_def)
      then show ?thesis
        by (intro blk_frame [OF assms(1) wf]) (use c in auto)
    qed
    moreover have "cached ?s d b i" "bdata (bufs ?s i) = blk s d b" "disk ?s = disk s"
      using hit(1) c by simp_all
    moreover have "holdingsleep i ?s"
      by (simp add: holdingsleep_def myproc_def)
    moreover have "cached s d b i \<or> (\<forall>j. \<not> cached s d b j) \<and> refcnt (bufs s i) = 0" "bvalid (bufs ?s i)"
      "refcnt (bufs ?s i) = refcnt (bufs s i) + 1" "\<forall>j. j \<noteq> i \<longrightarrow> bufs ?s j = bufs s j"
      "slocks ?s = (slocks s)(i := \<lparr>sl_locked = True, sl_pid = pid (myproc s)\<rparr>)" "myproc ?s = myproc s"
      "bio_state.more ?s = bio_state.more s"
      using hit(1) by (simp_all add: myproc_def)
    ultimately show ?thesis
      using hit(2) wf by blast
  next
    case (miss i)
    let ?s = "s\<lparr>bufs := (bufs s)(i := \<lparr>bvalid = True, bdev = d, blockno = b, refcnt = 1, bdata = disk s b\<rparr>),
         slocks := (slocks s)(i := \<lparr>sl_locked = True, sl_pid = pid (myproc s)\<rparr>)\<rparr>"
    have cb: "cached ?s d b j \<longleftrightarrow> j = i" for j using miss(1,2) by (auto simp: cached_def)
    have c: "cached ?s d c j \<longleftrightarrow> cached s d c j \<and> j \<noteq> i" if "c \<noteq> b" for c j using that by (auto simp: cached_def)
    have "\<forall>j k c. cached ?s d c j \<and> cached ?s d c k \<longrightarrow> j = k"
      using cb c bcache_wfD(3) [OF assms(1)] by metis
    then have wf: "bcache_wf d ?s"
      using assms(1) unfolding bcache_wf_def by auto
    have "blk ?s d c = blk s d c" for c
    proof (cases "c = b")
      case True
      with blk_eq(1) [OF wf, of b i] cb blk_eq(2) [OF assms(1) miss(1)] show ?thesis by simp
    next
      case False
      show ?thesis
      proof (cases "cached s d c i")
        case True
        then have "\<not> cached ?s d c j" for j
          using c [OF False] bcache_wfD(3) [OF assms(1) True, of j] by auto
        then have "blk ?s d c = disk s c" using blk_eq(2) [OF wf, of c] by simp
        moreover have "blk s d c = disk s c"
          using blk_eq(1) [OF assms(1) True] bcache_wfD(5) [OF assms(1) miss(2)] miss(3) True by (auto simp: cached_def)
        ultimately show ?thesis by simp
      next
        case False
        with c [OF \<open>c \<noteq> b\<close>] show ?thesis
          by (intro blk_frame [OF assms(1) wf]) auto
      qed
    qed
    moreover have "cached ?s d b i" "bdata (bufs ?s i) = blk s d b" "disk ?s = disk s"
      using cb blk_eq(2) [OF assms(1) miss(1)] by simp_all
    moreover have "holdingsleep i ?s"
      by (simp add: holdingsleep_def myproc_def)
    moreover have "cached s d b i \<or> (\<forall>j. \<not> cached s d b j) \<and> refcnt (bufs s i) = 0" "bvalid (bufs ?s i)"
      "refcnt (bufs ?s i) = refcnt (bufs s i) + 1" "\<forall>j. j \<noteq> i \<longrightarrow> bufs ?s j = bufs s j"
      "slocks ?s = (slocks s)(i := \<lparr>sl_locked = True, sl_pid = pid (myproc s)\<rparr>)" "myproc ?s = myproc s"
      "bio_state.more ?s = bio_state.more s"
      using miss(1,3) by (simp_all add: myproc_def)
    ultimately show ?thesis
      using miss(4) wf by blast
  qed
qed

lemma brelse_ok:
  assumes "bcache_wf d s" and "i < NBUF" and "holdingsleep i s"
    and "refcnt (bufs s i) = 1 \<longrightarrow> bdev (bufs s i) = d \<longrightarrow> bvalid (bufs s i) \<longrightarrow> bdata (bufs s i) = disk s (blockno (bufs s i))"
  shows "\<exists>s'. brelse i s = Ok s' \<and> bcache_wf d s' \<and> (\<forall>c. blk s' d c = blk s d c) \<and> disk s' = disk s \<and>
    \<not> sl_locked (slocks s' i) \<and> (refcnt (bufs s i) = 1 \<longrightarrow> hd (lru s') = i) \<and>
    bufs s' = (bufs s)(i := (bufs s i)\<lparr>refcnt := refcnt (bufs s i) - 1\<rparr>) \<and>
    slocks s' = (slocks s)(i := \<lparr>sl_locked = False, sl_pid = 0\<rparr>) \<and> pid (myproc s') = pid (myproc s) \<and>
    bio_state.more s' = bio_state.more s"
proof -
  let ?s1 = "upd_buf i (\<lambda>b. b\<lparr>refcnt := refcnt b - 1\<rparr>) (releasesleep i s)"
  let ?s = "if refcnt (bufs ?s1 i) = 0 then ?s1\<lparr>lru := i # remove1 i (lru ?s1)\<rparr> else ?s1"
  have r: "brelse i s = Ok ?s" using assms(3) by (simp add: brelse_def Let_def)
  have b: "bufs ?s = (bufs s)(i := (bufs s i)\<lparr>refcnt := refcnt (bufs s i) - 1\<rparr>)" "disk ?s = disk s"
    "slocks ?s = (slocks s)(i := \<lparr>sl_locked = False, sl_pid = 0\<rparr>)"
    "lru ?s = (if refcnt (bufs s i) = 1 then i # remove1 i (lru s) else lru s)"
    by (simp_all add: upd_buf_def releasesleep_def wakeup_def)
  have c: "cached ?s d x j \<longleftrightarrow> cached s d x j" for x j unfolding cached_def b(1) by auto
  have "distinct (lru ?s) \<and> set (lru ?s) = {..<NBUF}"
    unfolding b(4) using bcache_wfD(1,2) [OF assms(1)] assms(2) by auto
  moreover have "\<forall>j<NBUF. bdev (bufs ?s j) = d \<and> bvalid (bufs ?s j) \<and> refcnt (bufs ?s j) = 0 \<longrightarrow>
      bdata (bufs ?s j) = disk ?s (blockno (bufs ?s j))"
    unfolding b(1,2) using bcache_wfD(5) [OF assms(1)] assms(4) by auto
  moreover have "\<forall>j<NBUF. refcnt (bufs ?s j) = 0 \<longrightarrow> \<not> sl_locked (slocks ?s j)"
    unfolding b(1,3) using bcache_wfD(4) [OF assms(1)] by auto
  ultimately have wf: "bcache_wf d ?s"
    unfolding bcache_wf_def c using bcache_wfD(3) [OF assms(1)] by blast
  have "blk ?s d x = blk s d x" for x
    by (rule blk_frame [OF assms(1) wf]) (use c b in auto)
  moreover have "pid (myproc ?s) = pid (myproc s)" "bio_state.more ?s = bio_state.more s"
    by (simp_all add: upd_buf_def releasesleep_def wakeup_def myproc_def)
  ultimately show ?thesis using r wf b by (intro exI [of _ ?s]) simp
qed

section \<open>Properties\<close>

text \<open>C6: \<open>bread\<close> returns a locked buffer with the contents of the block, cached or on the disk, without
  changing the contents of any block: the block it evicts is one nobody refers to, whose copy is clean. It
  keeps the invariant of the cache and does not write to the disk.\<close>

theorem bread_correct:
  assumes "bcache_wf d s" and "\<forall>i. cached s d b i \<longrightarrow> \<not> sl_locked (slocks s i) \<and> refcnt (bufs s i) + 1 \<noteq> 0"
    and "(\<exists>i. cached s d b i) \<or> (\<exists>i < NBUF. refcnt (bufs s i) = 0)"
  shows "\<exists>i s'. bread d b s = Ok (i, s') \<and> cached s' d b i \<and> holdingsleep i s' \<and> bdata (bufs s' i) = blk s d b \<and>
    bcache_wf d s' \<and> (\<forall>c. blk s' d c = blk s d c) \<and> disk s' = disk s"
  using bread_ok [OF assms] by blast

definition bio0 :: bio_state where
  "bio0 = ipc_state.extend ipc0 \<lparr>bufs = (\<lambda>_. \<lparr>bvalid = False, bdev = 0, blockno = 0, refcnt = 0, bdata = (\<lambda>_. 0)\<rparr>),
     lru = rev [0..<NBUF], disk = (\<lambda>b _. ucast b)\<rparr>"

lemma bio0_wf: "bcache_wf 1 bio0"
  by (auto simp: bcache_wf_def bio0_def ipc_state.defs ipc0_def cached_def simp del: upt_rec_numeral)

theorem bread_correct_witness: "\<exists>i s'. bread 1 7 bio0 = Ok (i, s') \<and> bdata (bufs s' i) = (\<lambda>_. 7)"
proof -
  have n: "\<not> cached bio0 1 b i" for b i
    by (simp add: cached_def bio0_def ipc_state.defs ipc0_def)
  have "refcnt (bufs bio0 0) = 0"
    by (simp add: bio0_def ipc_state.defs ipc0_def)
  with bread_correct [OF bio0_wf, of 7] n obtain i s' where "bread 1 7 bio0 = Ok (i, s')" "bdata (bufs s' i) = blk bio0 1 7"
    by force
  moreover have "blk bio0 1 7 = (\<lambda>_. 7)"
    using blk_eq(2) [OF bio0_wf n, of 7] by (simp add: bio0_def ipc_state.defs ipc0_def)
  ultimately show ?thesis by simp
qed

text \<open>Releasing a buffer keeps the contents of every block and the invariant, provided that a buffer
  that loses its last reference is clean, as the log ensures by pinning the buffers of a transaction.\<close>

theorem brelse_correct:
  assumes "bcache_wf d s" and "i < NBUF" and "holdingsleep i s"
    and "refcnt (bufs s i) = 1 \<longrightarrow> bdev (bufs s i) = d \<longrightarrow> bvalid (bufs s i) \<longrightarrow> bdata (bufs s i) = disk s (blockno (bufs s i))"
  shows "\<exists>s'. brelse i s = Ok s' \<and> bcache_wf d s' \<and> (\<forall>c. blk s' d c = blk s d c) \<and> disk s' = disk s \<and>
    \<not> sl_locked (slocks s' i) \<and> (refcnt (bufs s i) = 1 \<longrightarrow> hd (lru s') = i)"
  using brelse_ok [OF assms] by blast

theorem brelse_correct_witness:
  "\<exists>i s' s''. bread 1 7 bio0 = Ok (i, s') \<and> brelse i s' = Ok s'' \<and> bcache_wf 1 s'' \<and> hd (lru s'') = i"
proof -
  have n: "\<not> cached bio0 1 b i" for b i
    by (simp add: cached_def bio0_def ipc_state.defs ipc0_def)
  have z: "refcnt (bufs bio0 0) = 0"
    by (simp add: bio0_def ipc_state.defs ipc0_def)
  have free: "\<forall>i. cached bio0 1 7 i \<longrightarrow> \<not> sl_locked (slocks bio0 i)"
    and avail: "(\<exists>i. cached bio0 1 7 i) \<or> (\<exists>i < NBUF. refcnt (bufs bio0 i) = 0)"
    using n z by (auto intro!: exI [of _ 0])
  obtain i where i: "i < NBUF" "bread 1 7 bio0 = Ok (i, bio0\<lparr>bufs := (bufs bio0)(i := \<lparr>bvalid = True, bdev = 1, blockno = 7, refcnt = 1, bdata = disk bio0 7\<rparr>),
         slocks := (slocks bio0)(i := \<lparr>sl_locked = True, sl_pid = pid (myproc bio0)\<rparr>)\<rparr>)"
    using bio0_wf free avail
  proof (cases rule: bread_cases)
    case (hit i)
    with n show ?thesis by blast
  next
    case (miss i)
    from miss(2,4) show ?thesis by (rule that)
  qed
  let ?s = "bio0\<lparr>bufs := (bufs bio0)(i := \<lparr>bvalid = True, bdev = 1, blockno = 7, refcnt = 1, bdata = disk bio0 7\<rparr>),
         slocks := (slocks bio0)(i := \<lparr>sl_locked = True, sl_pid = pid (myproc bio0)\<rparr>)\<rparr>"
  have "bcache_wf 1 ?s"
    using bio0_wf i(1) n unfolding bcache_wf_def by (auto simp: cached_def split: if_splits)
  from brelse_correct [OF this i(1)] i(2) show ?thesis
    by (auto simp: holdingsleep_def myproc_def)
qed

end
