(* ===== verification/XvLog.thy ===== *)
theory XvLog
  imports XvBio
begin

text \<open>
  kernel/log.c: the write-ahead log. A transaction is copied to the log blocks, committed by writing the
  header block, and then installed. \<open>begin_op\<close> is \<open>Block\<close> when it has to wait.
\<close>

section \<open>State and operations\<close>

abbreviation (input) LOGSIZE :: int where "LOGSIZE \<equiv> 30"
abbreviation (input) MAXOPBLOCKS :: int where "MAXOPBLOCKS \<equiv> 10"

record log_state = bio_state +
  log_start :: uint32
  log_size :: int
  outstanding :: int
  committing :: bool
  log_dev :: uint32
  lh_n :: int
  lh_block :: "nat \<Rightarrow> uint32"

text \<open>The header block: the count, then the block numbers.\<close>

definition head_block :: "int \<Rightarrow> (nat \<Rightarrow> uint32) \<Rightarrow> block \<Rightarrow> block" where
  "head_block n bl d = fold (\<lambda>i. bst32 (4 + 4 * i) (bl i)) [0..<nat n] (bst32 0 (word_of_int n) d)"

definition read_head :: "'a log_state_scheme \<Rightarrow> 'a log_state_scheme res" where
  "read_head s =
     bindr (bread (log_dev s) (log_start s) s) (\<lambda>(i, s1).
       let d = bdata (bufs s1 i); n = sint (bld32 d 0)
       in brelse i (s1\<lparr>lh_n := n, lh_block := (\<lambda>k. if k < nat n then bld32 d (4 + 4 * k) else lh_block s1 k)\<rparr>))"

definition write_head :: "'a log_state_scheme \<Rightarrow> 'a log_state_scheme res" where
  "write_head s =
     bindr (bread (log_dev s) (log_start s) s) (\<lambda>(i, s1).
     bindr (bwrite i (upd_data i (head_block (lh_n s1) (lh_block s1)) s1)) (brelse i))"

definition install_one :: "bool \<Rightarrow> nat \<Rightarrow> 'a log_state_scheme \<Rightarrow> 'a log_state_scheme res" where
  "install_one recovering tail s =
     bindr (bread (log_dev s) (log_start s + of_nat tail + 1) s) (\<lambda>(lbuf, s1).
     bindr (bread (log_dev s1) (lh_block s1 tail) s1) (\<lambda>(dbuf, s2).
     bindr (bwrite dbuf (upd_data dbuf (\<lambda>_. bdata (bufs s2 lbuf)) s2)) (\<lambda>s3.
     bindr (brelse lbuf (if recovering then s3 else bunpin dbuf s3)) (brelse dbuf))))"

definition install_trans :: "bool \<Rightarrow> 'a log_state_scheme \<Rightarrow> 'a log_state_scheme res" where
  "install_trans recovering s = foldM (install_one recovering) [0..<nat (lh_n s)] s"

definition recover_from_log :: "'a log_state_scheme \<Rightarrow> 'a log_state_scheme res" where
  "recover_from_log s =
     bindr (read_head s) (\<lambda>s1.
     bindr (install_trans True s1) (\<lambda>s2.
     write_head (s2\<lparr>lh_n := 0\<rparr>)))"

definition initlog :: "uint32 \<Rightarrow> uint32 \<Rightarrow> uint32 \<Rightarrow> 'a log_state_scheme \<Rightarrow> 'a log_state_scheme res" where
  "initlog dev logstart nlog s =
     recover_from_log (s\<lparr>log_start := logstart, log_size := sint nlog, log_dev := dev\<rparr>)"

definition begin_op :: "'a log_state_scheme \<Rightarrow> 'a log_state_scheme res" where
  "begin_op s =
     (if committing s then Block
      else if LOGSIZE < lh_n s + (outstanding s + 1) * MAXOPBLOCKS then Block
      else Ok (s\<lparr>outstanding := outstanding s + 1\<rparr>))"

definition write_log_one :: "nat \<Rightarrow> 'a log_state_scheme \<Rightarrow> 'a log_state_scheme res" where
  "write_log_one tail s =
     bindr (bread (log_dev s) (log_start s + of_nat tail + 1) s) (\<lambda>(to, s1).
     bindr (bread (log_dev s1) (lh_block s1 tail) s1) (\<lambda>(from, s2).
     bindr (bwrite to (upd_data to (\<lambda>_. bdata (bufs s2 from)) s2)) (\<lambda>s3.
     bindr (brelse from s3) (brelse to))))"

definition write_log :: "'a log_state_scheme \<Rightarrow> 'a log_state_scheme res" where
  "write_log s = foldM write_log_one [0..<nat (lh_n s)] s"

definition commit :: "'a log_state_scheme \<Rightarrow> 'a log_state_scheme res" where
  "commit s =
     (if 0 < lh_n s then
        bindr (write_log s) (\<lambda>s1.
        bindr (write_head s1) (\<lambda>s2.
        bindr (install_trans False s2) (\<lambda>s3.
        write_head (s3\<lparr>lh_n := 0\<rparr>))))
      else Ok s)"

definition end_op :: "'a log_state_scheme \<Rightarrow> 'a log_state_scheme res" where
  "end_op s =
     (let s1 = s\<lparr>outstanding := outstanding s - 1\<rparr>
      in if committing s1 then Panic ''log.committing''
         else if outstanding s1 = 0
         then bindr (commit (s1\<lparr>committing := True\<rparr>)) (\<lambda>s2. Ok (wakeup ChLog (s2\<lparr>committing := False\<rparr>)))
         else Ok (wakeup ChLog s1))"

definition log_write :: "nat \<Rightarrow> 'a log_state_scheme \<Rightarrow> 'a log_state_scheme res" where
  "log_write b s =
     (if LOGSIZE \<le> lh_n s \<or> log_size s - 1 \<le> lh_n s then Panic ''too big a transaction''
      else if outstanding s < 1 then Panic ''log_write outside of trans''
      else let bn = blockno (bufs s b);
               i = (case find_slot (\<lambda>k. lh_block s k = bn) 0 (nat (lh_n s)) of Some k \<Rightarrow> k | None \<Rightarrow> nat (lh_n s));
               s1 = s\<lparr>lh_block := (lh_block s)(i := bn)\<rparr>
        in Ok (if i = nat (lh_n s) then (bpin b s1)\<lparr>lh_n := lh_n s + 1\<rparr> else s1))"

section \<open>The header block\<close>

lemma bld32_bst32: "bld32 (bst32 a v d) a = v"
proof (rule bit_eqI)
  fix n
  assume "possible_bit TYPE(32 word) n"
  then have n: "n < 32" by simp
  consider "n < 8" | "8 \<le> n" "n < 16" | "16 \<le> n" "n < 24" | "24 \<le> n"
    by linarith
  then show "bit (bld32 (bst32 a v d) a) n = bit v n"
    using n by cases (auto simp: bld32_def bst32_def bit_simps)
qed

lemma bld32_bst32_other: "a + 4 \<le> c \<or> c + 4 \<le> a \<Longrightarrow> bld32 (bst32 a v d) c = bld32 d c"
  by (auto simp: bld32_def bst32_def)

lemma head_block_n:
  assumes "0 \<le> n" and "n < 2 ^ 31"
  shows "sint (bld32 (head_block n bl d) 0) = n"
proof -
  have "bld32 (fold (\<lambda>i. bst32 (4 + 4 * i) (bl i)) xs e) 0 = bld32 e 0" for xs e
    by (induction xs arbitrary: e) (simp_all add: bld32_bst32_other)
  then have "bld32 (head_block n bl d) 0 = word_of_int n"
    by (simp add: head_block_def bld32_bst32)
  with assms show ?thesis
    by (simp add: sint_sbintrunc' signed_take_bit_int_eq_self)
qed

lemma head_block_nth:
  assumes "i < nat n"
  shows "bld32 (head_block n bl d) (4 + 4 * i) = bl i"
proof -
  have o: "bld32 (fold (\<lambda>i. bst32 (4 + 4 * i) (bl i)) xs e) (4 + 4 * k) = bld32 e (4 + 4 * k)"
    if "k \<notin> set xs" for xs e k
    using that
  proof (induction xs arbitrary: e)
    case (Cons j xs)
    then have "4 + 4 * j + 4 \<le> 4 + 4 * k \<or> 4 + 4 * k + 4 \<le> 4 + 4 * j" by auto
    from bld32_bst32_other [OF this] Cons show ?case by simp
  qed simp
  have "[0..<nat n] = [0..<i] @ i # [Suc i..<nat n]"
    using upt_add_eq_append [of 0 i "nat n - i"] upt_conv_Cons [OF assms] assms by simp
  then show ?thesis
    by (simp add: head_block_def o bld32_bst32)
qed

section \<open>Properties\<close>

text \<open>The blocks of the running transaction.\<close>

definition logged :: "'a log_state_scheme \<Rightarrow> uint32 list" where
  "logged s = map (lh_block s) [0..<nat (lh_n s)]"

text \<open>C30: within its reservation \<open>log_write\<close> does not panic. A block already in the transaction is absorbed and
  nothing else changes; a new one is appended and its buffer pinned, so that it stays in the cache until the
  commit. No block is logged twice.\<close>

theorem log_write_correct:
  assumes "0 \<le> lh_n s" and "lh_n s < LOGSIZE" and "lh_n s < log_size s - 1" and "1 \<le> outstanding s" and "distinct (logged s)"
  shows "\<exists>s'. log_write b s = Ok s' \<and> distinct (logged s') \<and> disk s' = disk s \<and>
    (if blockno (bufs s b) \<in> set (logged s) then logged s' = logged s \<and> bufs s' = bufs s
     else logged s' = logged s @ [blockno (bufs s b)] \<and>
       bufs s' = (bufs s)(b := (bufs s b)\<lparr>refcnt := refcnt (bufs s b) + 1\<rparr>))"
proof -
  let ?bn = "blockno (bufs s b)" and ?n = "nat (lh_n s)"
  show ?thesis
  proof (cases "find_slot (\<lambda>k. lh_block s k = ?bn) 0 ?n")
    case None
    then have new: "?bn \<notin> set (logged s)"
      unfolding find_slot_None by (auto simp: logged_def)
    let ?s = "(bpin b (s\<lparr>lh_block := (lh_block s)(?n := ?bn)\<rparr>))\<lparr>lh_n := lh_n s + 1\<rparr>"
    have "log_write b s = Ok ?s"
      using assms None by (simp add: log_write_def Let_def)
    moreover have "nat (lh_n s + 1) = Suc ?n" using assms(1) by simp
    then have "logged ?s = logged s @ [?bn]"
      by (simp add: logged_def bpin_def upd_buf_def)
    ultimately show ?thesis
      using new assms(5) by (simp add: bpin_def upd_buf_def)
  next
    case (Some k)
    from find_slot_Some [OF Some] have k: "k < ?n" "lh_block s k = ?bn" by auto
    then have old: "?bn \<in> set (logged s)" by (force simp: logged_def)
    have "(lh_block s)(k := ?bn) = lh_block s" using k(2) by auto
    then have "log_write b s = Ok s"
      using assms Some k by (simp add: log_write_def Let_def)
    with old assms(5) show ?thesis by auto
  qed
qed

definition log0 :: log_state where
  "log0 = bio_state.extend bio0 \<lparr>log_start = 2, log_size = 31, outstanding = 1, committing = False, log_dev = 1,
     lh_n = 1, lh_block = (\<lambda>_. 40)\<rparr>"

theorem log_write_correct_witness: "\<exists>s'. log_write 3 log0 = Ok s' \<and> logged s' = [40, 0]"
  using log_write_correct [of log0 3]
  by (auto simp: log0_def bio_state.defs bio0_def ipc_state.defs logged_def)

text \<open>The header written to the log reads back as the count and the block numbers it was written from.\<close>

theorem head_roundtrip:
  assumes "0 \<le> n" and "n \<le> LOGSIZE"
  shows "sint (bld32 (head_block n bl d) 0) = n \<and> (\<forall>i < nat n. bld32 (head_block n bl d) (4 + 4 * i) = bl i)"
  using head_block_n [of n bl d] head_block_nth [of _ n bl d] assms by auto

theorem head_roundtrip_witness: "sint (bld32 (head_block 3 (\<lambda>i. of_nat i + 40) (\<lambda>_. 0)) 0) = 3"
  using head_roundtrip [of 3 "\<lambda>i. of_nat i + 40" "\<lambda>_. 0"] by simp

end
