(* ===== verification/XvFs.thy ===== *)
theory XvFs
  imports XvLog
begin

text \<open>
  kernel/fs.c: blocks, inodes, directories and paths on top of the log. The local \<open>struct dirent\<close> of the
  directory routines lives at the address \<open>de_addr\<close> of the kernel stack; a path is the list of its bytes
  before the NUL. Inode \<open>k\<close> of the table has the sleep lock \<open>30 + k\<close>.
\<close>

section \<open>State\<close>

abbreviation (input) NINODE :: nat where "NINODE \<equiv> 50"
abbreviation (input) NDIRECT :: nat where "NDIRECT \<equiv> 12"
abbreviation (input) NINDIRECT :: nat where "NINDIRECT \<equiv> 256"
abbreviation (input) MAXFILE :: nat where "MAXFILE \<equiv> 268"
abbreviation (input) BPB :: nat where "BPB \<equiv> 8192"
abbreviation (input) DIRSIZ :: nat where "DIRSIZ \<equiv> 14"
abbreviation (input) DESIZE :: nat where "DESIZE \<equiv> 16"
abbreviation (input) FSMAGIC :: uint32 where "FSMAGIC \<equiv> 0x10203040"
abbreviation (input) T_DIR :: uint16 where "T_DIR \<equiv> 1"
abbreviation (input) T_FILE :: uint16 where "T_FILE \<equiv> 2"
abbreviation (input) T_DEVICE :: uint16 where "T_DEVICE \<equiv> 3"
abbreviation (input) ROOTDEV :: uint32 where "ROOTDEV \<equiv> 1"
abbreviation (input) ROOTINO :: uint32 where "ROOTINO \<equiv> 1"

record superblock =
  magic :: uint32
  sb_size :: uint32
  nblocks :: uint32
  ninodes :: uint32
  nlog :: uint32
  logstart :: uint32
  inodestart :: uint32
  bmapstart :: uint32

record inode =
  idev :: uint32
  inum :: uint32
  iref :: int
  ivalid :: bool
  itype :: uint16
  imajor :: uint16
  iminor :: uint16
  nlink :: uint16
  isize :: uint32
  addrs :: "nat \<Rightarrow> uint32"

record fs_state = log_state +
  sb :: superblock
  itable :: "nat \<Rightarrow> inode"
  de_addr :: uint64

definition upd_inode :: "nat \<Rightarrow> (inode \<Rightarrow> inode) \<Rightarrow> 'a fs_state_scheme \<Rightarrow> 'a fs_state_scheme" where
  "upd_inode k f s = s\<lparr>itable := (itable s)(k := f (itable s k))\<rparr>"

abbreviation ilk :: "nat \<Rightarrow> nat" where "ilk k \<equiv> 30 + k"

section \<open>Blocks\<close>

definition readsb :: "uint32 \<Rightarrow> 'a fs_state_scheme \<Rightarrow> 'a fs_state_scheme res" where
  "readsb dev s =
     bindr (bread dev 1 s) (\<lambda>(i, s1).
       let d = bdata (bufs s1 i)
       in brelse i (s1\<lparr>sb := \<lparr>magic = bld32 d 0, sb_size = bld32 d 4, nblocks = bld32 d 8, ninodes = bld32 d 12,
            nlog = bld32 d 16, logstart = bld32 d 20, inodestart = bld32 d 24, bmapstart = bld32 d 28\<rparr>\<rparr>))"

definition fsinit :: "uint32 \<Rightarrow> 'a fs_state_scheme \<Rightarrow> 'a fs_state_scheme res" where
  "fsinit dev s =
     bindr (readsb dev s) (\<lambda>s1.
       if magic (sb s1) \<noteq> FSMAGIC then Panic ''invalid file system''
       else initlog dev (logstart (sb s1)) (nlog (sb s1)) s1)"

definition bzero :: "uint32 \<Rightarrow> uint32 \<Rightarrow> 'a fs_state_scheme \<Rightarrow> 'a fs_state_scheme res" where
  "bzero dev bno s =
     bindr (bread dev bno s) (\<lambda>(i, s1).
     bindr (log_write i (upd_data i (\<lambda>_ _. 0) s1)) (brelse i))"

definition BBLOCK :: "uint32 \<Rightarrow> superblock \<Rightarrow> uint32" where
  "BBLOCK b sb' = b div 8192 + bmapstart sb'"

definition bit_mask :: "nat \<Rightarrow> uint8" where
  "bit_mask bi = push_bit (bi mod 8) 1"

text \<open>The number \<open>n\<close> of blocks of the file system is fixed once it is mounted.\<close>

function balloc_loop :: "uint32 \<Rightarrow> nat \<Rightarrow> nat \<Rightarrow> 'a fs_state_scheme \<Rightarrow> (uint32 \<times> 'a fs_state_scheme) res" where
  "balloc_loop dev n b s =
     (if b < n then
        bindr (bread dev (BBLOCK (of_nat b) (sb s)) s) (\<lambda>(i, s1).
          case find (\<lambda>bi. bdata (bufs s1 i) (bi div 8) AND bit_mask bi = 0) [0..<min BPB (n - b)] of
            Some bi \<Rightarrow>
              bindr (log_write i (upd_data i (\<lambda>d. d(bi div 8 := d (bi div 8) OR bit_mask bi)) s1)) (\<lambda>s2.
              bindr (brelse i s2) (\<lambda>s3.
              bindr (bzero dev (of_nat (b + bi)) s3) (\<lambda>s4. Ok (of_nat (b + bi), s4))))
          | None \<Rightarrow> bindr (brelse i s1) (balloc_loop dev n (b + BPB)))
      else bindr (printf (cbytes ''balloc: out of blocks'' @ [10]) [] s) (\<lambda>s1. Ok (0, s1)))"
  by pat_completeness auto
termination
  by (relation "measure (\<lambda>(dev, n, b, s). n - b)") auto

declare balloc_loop.simps [simp del]

definition balloc :: "uint32 \<Rightarrow> 'a fs_state_scheme \<Rightarrow> (uint32 \<times> 'a fs_state_scheme) res" where
  "balloc dev s = balloc_loop dev (unat (sb_size (sb s))) 0 s"

definition bfree :: "uint32 \<Rightarrow> uint32 \<Rightarrow> 'a fs_state_scheme \<Rightarrow> 'a fs_state_scheme res" where
  "bfree dev b s =
     bindr (bread dev (BBLOCK b (sb s)) s) (\<lambda>(i, s1).
       let bi = unat b mod BPB
       in if bdata (bufs s1 i) (bi div 8) AND bit_mask bi = 0 then Panic ''freeing free block''
          else bindr (log_write i (upd_data i (\<lambda>d. d(bi div 8 := d (bi div 8) AND NOT (bit_mask bi))) s1)) (brelse i))"

section \<open>Inodes\<close>

definition iinit :: "'a fs_state_scheme \<Rightarrow> 'a fs_state_scheme" where
  "iinit s = fold (\<lambda>k. initsleeplock (ilk k)) [0..<NINODE] s"

definition IBLOCK :: "uint32 \<Rightarrow> superblock \<Rightarrow> uint32" where
  "IBLOCK k sb' = k div 16 + inodestart sb'"

definition dinode_off :: "uint32 \<Rightarrow> nat" where
  "dinode_off k = unat (k mod 16) * 64"

definition iget :: "uint32 \<Rightarrow> uint32 \<Rightarrow> 'a fs_state_scheme \<Rightarrow> (nat \<times> 'a fs_state_scheme) res" where
  "iget dev k s =
     (case find_slot (\<lambda>j. 0 < iref (itable s j) \<and> idev (itable s j) = dev \<and> inum (itable s j) = k) 0 NINODE of
        Some j \<Rightarrow> Ok (j, upd_inode j (\<lambda>ip. ip\<lparr>iref := iref ip + 1\<rparr>) s)
      | None \<Rightarrow>
          case find_slot (\<lambda>j. iref (itable s j) = 0) 0 NINODE of
            None \<Rightarrow> Panic ''iget: no inodes''
          | Some j \<Rightarrow> Ok (j, upd_inode j (\<lambda>ip. ip\<lparr>idev := dev, inum := k, iref := 1, ivalid := False\<rparr>) s))"

text \<open>\<open>None\<close> is the null pointer.\<close>

function ialloc_loop :: "uint32 \<Rightarrow> uint16 \<Rightarrow> nat \<Rightarrow> nat \<Rightarrow> 'a fs_state_scheme \<Rightarrow> (nat option \<times> 'a fs_state_scheme) res" where
  "ialloc_loop dev ty n k s =
     (if k < n then
        bindr (bread dev (IBLOCK (of_nat k) (sb s)) s) (\<lambda>(i, s1).
          let a = dinode_off (of_nat k)
          in if bld16 (bdata (bufs s1 i)) a = 0 then
               bindr (log_write i (upd_data i (\<lambda>d. bst16 a ty (\<lambda>x. if a \<le> x \<and> x < a + 64 then 0 else d x)) s1)) (\<lambda>s2.
               bindr (brelse i s2) (\<lambda>s3.
               bindr (iget dev (of_nat k) s3) (\<lambda>(j, s4). Ok (Some j, s4))))
             else bindr (brelse i s1) (ialloc_loop dev ty n (Suc k)))
      else bindr (printf (cbytes ''ialloc: no inodes'' @ [10]) [] s) (\<lambda>s1. Ok (None, s1)))"
  by pat_completeness auto
termination
  by (relation "measure (\<lambda>(dev, ty, n, k, s). n - k)") auto

declare ialloc_loop.simps [simp del]

definition ialloc :: "uint32 \<Rightarrow> uint16 \<Rightarrow> 'a fs_state_scheme \<Rightarrow> (nat option \<times> 'a fs_state_scheme) res" where
  "ialloc dev ty s = ialloc_loop dev ty (unat (ninodes (sb s))) 1 s"

definition put_dinode :: "nat \<Rightarrow> inode \<Rightarrow> block \<Rightarrow> block" where
  "put_dinode a ip d = fold (\<lambda>k. bst32 (a + 12 + 4 * k) (addrs ip k)) [0..<13]
     (bst32 (a + 8) (isize ip) (bst16 (a + 6) (nlink ip) (bst16 (a + 4) (iminor ip)
     (bst16 (a + 2) (imajor ip) (bst16 a (itype ip) d)))))"

definition get_dinode :: "nat \<Rightarrow> block \<Rightarrow> inode \<Rightarrow> inode" where
  "get_dinode a d ip = ip\<lparr>itype := bld16 d a, imajor := bld16 d (a + 2), iminor := bld16 d (a + 4), nlink := bld16 d (a + 6),
     isize := bld32 d (a + 8), addrs := (\<lambda>k. if k < 13 then bld32 d (a + 12 + 4 * k) else addrs ip k)\<rparr>"

definition iupdate :: "nat \<Rightarrow> 'a fs_state_scheme \<Rightarrow> 'a fs_state_scheme res" where
  "iupdate k s =
     bindr (bread (idev (itable s k)) (IBLOCK (inum (itable s k)) (sb s)) s) (\<lambda>(i, s1).
     bindr (log_write i (upd_data i (put_dinode (dinode_off (inum (itable s1 k))) (itable s1 k)) s1)) (brelse i))"

definition idup :: "nat \<Rightarrow> 'a fs_state_scheme \<Rightarrow> 'a fs_state_scheme" where
  "idup k s = upd_inode k (\<lambda>ip. ip\<lparr>iref := iref ip + 1\<rparr>) s"

definition ilock :: "nat \<Rightarrow> 'a fs_state_scheme \<Rightarrow> 'a fs_state_scheme res" where
  "ilock k s =
     (if iref (itable s k) < 1 then Panic ''ilock''
      else case acquiresleep (ilk k) s of
             (Asleep _, s1) \<Rightarrow> Block
           | (Done _, s1) \<Rightarrow>
               if \<not> ivalid (itable s1 k) then
                 bindr (bread (idev (itable s1 k)) (IBLOCK (inum (itable s1 k)) (sb s1)) s1) (\<lambda>(i, s2).
                   let s3 = upd_inode k (get_dinode (dinode_off (inum (itable s2 k))) (bdata (bufs s2 i))) s2
                   in bindr (brelse i s3) (\<lambda>s4.
                     let s5 = upd_inode k (\<lambda>ip. ip\<lparr>ivalid := True\<rparr>) s4
                     in if itype (itable s5 k) = 0 then Panic ''ilock: no type'' else Ok s5))
               else Ok s1)"

definition iunlock :: "nat \<Rightarrow> 'a fs_state_scheme \<Rightarrow> 'a fs_state_scheme res" where
  "iunlock k s =
     (if \<not> holdingsleep (ilk k) s \<or> iref (itable s k) < 1 then Panic ''iunlock'' else Ok (releasesleep (ilk k) s))"

definition itrunc_direct :: "nat \<Rightarrow> nat \<Rightarrow> 'a fs_state_scheme \<Rightarrow> 'a fs_state_scheme res" where
  "itrunc_direct k i s =
     (if addrs (itable s k) i \<noteq> 0
      then bindr (bfree (idev (itable s k)) (addrs (itable s k) i) s) (\<lambda>s1.
        Ok (upd_inode k (\<lambda>ip. ip\<lparr>addrs := (addrs ip)(i := 0)\<rparr>) s1))
      else Ok s)"

definition itrunc :: "nat \<Rightarrow> 'a fs_state_scheme \<Rightarrow> 'a fs_state_scheme res" where
  "itrunc k s =
     bindr (foldM (itrunc_direct k) [0..<NDIRECT] s) (\<lambda>s1.
     bindr (if addrs (itable s1 k) NDIRECT \<noteq> 0 then
              bindr (bread (idev (itable s1 k)) (addrs (itable s1 k) NDIRECT) s1) (\<lambda>(i, s2).
              bindr (foldM (\<lambda>j s. let a = bld32 (bdata (bufs s i)) (4 * j)
                in if a \<noteq> 0 then bfree (idev (itable s k)) a s else Ok s) [0..<NINDIRECT] s2) (\<lambda>s3.
              bindr (brelse i s3) (\<lambda>s4.
              bindr (bfree (idev (itable s4 k)) (addrs (itable s4 k) NDIRECT) s4) (\<lambda>s5.
              Ok (upd_inode k (\<lambda>ip. ip\<lparr>addrs := (addrs ip)(NDIRECT := 0)\<rparr>) s5)))))
            else Ok s1) (\<lambda>s6.
     iupdate k (upd_inode k (\<lambda>ip. ip\<lparr>isize := 0\<rparr>) s6)))"

definition iput :: "nat \<Rightarrow> 'a fs_state_scheme \<Rightarrow> 'a fs_state_scheme res" where
  "iput k s =
     bindr (if iref (itable s k) = 1 \<and> ivalid (itable s k) \<and> nlink (itable s k) = 0 then
              case acquiresleep (ilk k) s of
                (Asleep _, s1) \<Rightarrow> Block
              | (Done _, s1) \<Rightarrow>
                  bindr (itrunc k s1) (\<lambda>s2.
                  bindr (iupdate k (upd_inode k (\<lambda>ip. ip\<lparr>itype := 0\<rparr>) s2)) (\<lambda>s3.
                  Ok (releasesleep (ilk k) (upd_inode k (\<lambda>ip. ip\<lparr>ivalid := False\<rparr>) s3))))
            else Ok s) (\<lambda>s4.
     Ok (upd_inode k (\<lambda>ip. ip\<lparr>iref := iref ip - 1\<rparr>) s4))"

definition iunlockput :: "nat \<Rightarrow> 'a fs_state_scheme \<Rightarrow> 'a fs_state_scheme res" where
  "iunlockput k s = bindr (iunlock k s) (iput k)"

section \<open>Contents\<close>

definition bmap :: "nat \<Rightarrow> nat \<Rightarrow> 'a fs_state_scheme \<Rightarrow> (uint32 \<times> 'a fs_state_scheme) res" where
  "bmap k bn s =
     (if bn < NDIRECT then
        let addr = addrs (itable s k) bn
        in if addr = 0 then
             bindr (balloc (idev (itable s k)) s) (\<lambda>(addr, s1).
               if addr = 0 then Ok (0, s1)
               else Ok (addr, upd_inode k (\<lambda>ip. ip\<lparr>addrs := (addrs ip)(bn := addr)\<rparr>) s1))
           else Ok (addr, s)
      else if bn - NDIRECT < NINDIRECT then
        bindr (let addr = addrs (itable s k) NDIRECT
               in if addr = 0 then
                    bindr (balloc (idev (itable s k)) s) (\<lambda>(addr, s1).
                      if addr = 0 then Ok (0, s1)
                      else Ok (addr, upd_inode k (\<lambda>ip. ip\<lparr>addrs := (addrs ip)(NDIRECT := addr)\<rparr>) s1))
                  else Ok (addr, s)) (\<lambda>(addr, s2).
          if addr = 0 then Ok (0, s2)
          else bindr (bread (idev (itable s2 k)) addr s2) (\<lambda>(i, s3).
            let a = bld32 (bdata (bufs s3 i)) (4 * (bn - NDIRECT))
            in bindr (if a = 0 then
                   bindr (balloc (idev (itable s3 k)) s3) (\<lambda>(addr, s4).
                     if addr \<noteq> 0 then
                       bindr (log_write i (upd_data i (bst32 (4 * (bn - NDIRECT)) addr) s4)) (\<lambda>s5. Ok (addr, s5))
                     else Ok (0, s4))
                 else Ok (a, s3)) (\<lambda>(addr, s6).
               bindr (brelse i s6) (\<lambda>s7. Ok (addr, s7)))))
      else Panic ''bmap: out of range'')"

definition bytes_at :: "block \<Rightarrow> nat \<Rightarrow> nat \<Rightarrow> uint8 list" where
  "bytes_at d a m = map (\<lambda>x. d (a + x)) [0..<m]"

definition put_bytes :: "nat \<Rightarrow> uint8 list \<Rightarrow> block \<Rightarrow> block" where
  "put_bytes a bs d = (\<lambda>x. if a \<le> x \<and> x < a + length bs then bs ! (x - a) else d x)"

function readi_loop :: "nat \<Rightarrow> bool \<Rightarrow> uint64 \<Rightarrow> nat \<Rightarrow> nat \<Rightarrow> nat \<Rightarrow> 'a fs_state_scheme \<Rightarrow> (int \<times> 'a fs_state_scheme) res" where
  "readi_loop k user_dst dst off n tot s =
     (if tot < n then
        bindr (bmap k (off div BSIZE) s) (\<lambda>(addr, s1).
          if addr = 0 then Ok (int tot, s1)
          else bindr (bread (idev (itable s1 k)) addr s1) (\<lambda>(i, s2).
            let m = min (n - tot) (BSIZE - off mod BSIZE)
            in bindr (either_copyout user_dst dst (bytes_at (bdata (bufs s2 i)) (off mod BSIZE) m) s2) (\<lambda>(r, s3).
               bindr (brelse i s3) (\<lambda>s4.
                 if r = -1 then Ok (-1, s4)
                 else readi_loop k user_dst (dst + of_nat m) (off + m) n (tot + m) s4))))
      else Ok (int tot, s))"
  by pat_completeness auto
termination
  by (relation "measure (\<lambda>(k, u, dst, off, n, tot, s). n - tot)") (auto simp: min_def)

declare readi_loop.simps [simp del]

definition readi :: "nat \<Rightarrow> bool \<Rightarrow> uint64 \<Rightarrow> uint32 \<Rightarrow> uint32 \<Rightarrow> 'a fs_state_scheme \<Rightarrow> (int \<times> 'a fs_state_scheme) res" where
  "readi k user_dst dst off n s =
     (let sz = isize (itable s k)
      in if sz < off \<or> off + n < off then Ok (0, s)
         else readi_loop k user_dst dst (unat off) (unat (if sz < off + n then sz - off else n)) 0 s)"

text \<open>The loop of \<open>writei\<close> returns the final offset and count. A copy that fails part way has already
  changed the buffer.\<close>

function writei_loop :: "nat \<Rightarrow> bool \<Rightarrow> uint64 \<Rightarrow> nat \<Rightarrow> nat \<Rightarrow> nat \<Rightarrow> 'a fs_state_scheme \<Rightarrow>
    (nat \<times> nat \<times> 'a fs_state_scheme) res" where
  "writei_loop k user_src src off n tot s =
     (if tot < n then
        bindr (bmap k (off div BSIZE) s) (\<lambda>(addr, s1).
          if addr = 0 then Ok (off, tot, s1)
          else bindr (bread (idev (itable s1 k)) addr s1) (\<lambda>(i, s2).
            let m = min (n - tot) (BSIZE - off mod BSIZE)
            in bindr (either_copyin user_src src m s2) (\<lambda>(r, bs, s3).
               let s4 = upd_data i (put_bytes (off mod BSIZE) bs) s3
               in if r = -1 then bindr (brelse i s4) (\<lambda>s5. Ok (off, tot, s5))
                  else bindr (log_write i s4) (\<lambda>s5.
                    bindr (brelse i s5) (writei_loop k user_src (src + of_nat m) (off + m) n (tot + m))))))
      else Ok (off, tot, s))"
  by pat_completeness auto
termination
  by (relation "measure (\<lambda>(k, u, src, off, n, tot, s). n - tot)") (auto simp: min_def)

declare writei_loop.simps [simp del]

definition writei :: "nat \<Rightarrow> bool \<Rightarrow> uint64 \<Rightarrow> uint32 \<Rightarrow> uint32 \<Rightarrow> 'a fs_state_scheme \<Rightarrow> (int \<times> 'a fs_state_scheme) res" where
  "writei k user_src src off n s =
     (if isize (itable s k) < off \<or> off + n < off then Ok (-1, s)
      else if MAXFILE * BSIZE < unat (off + n) then Ok (-1, s)
      else bindr (writei_loop k user_src src (unat off) (unat n) 0 s) (\<lambda>(off', tot, s1).
        let s2 = (if isize (itable s1 k) < of_nat off' then upd_inode k (\<lambda>ip. ip\<lparr>isize := of_nat off'\<rparr>) s1 else s1)
        in bindr (iupdate k s2) (\<lambda>s3. Ok (int tot, s3))))"

definition stati :: "nat \<Rightarrow> 'a fs_state_scheme \<Rightarrow> uint8 list" where
  "stati k s =
     (let ip = itable s k
      in bytes_at (bst32 0 (idev ip) (bst32 4 (inum ip) (bst16 8 (itype ip) (bst16 10 (nlink ip)
           (bst32 16 (isize ip) (\<lambda>_. 0)))))) 0 24)"

section \<open>Directories\<close>

definition namecmp :: "cbuf \<Rightarrow> cbuf \<Rightarrow> int" where
  "namecmp p q = strncmp p q DIRSIZ"

definition de_inum :: "'a fs_state_scheme \<Rightarrow> uint16" where
  "de_inum s = ucast (phys s (de_addr s)) OR push_bit 8 (ucast (phys s (de_addr s + 1)))"

definition de_name :: "'a fs_state_scheme \<Rightarrow> cbuf" where
  "de_name s = cptr (phys s) (de_addr s + 2)"

text \<open>The offset found, if any, comes with the inode.\<close>

function dirlookup_loop :: "nat \<Rightarrow> cbuf \<Rightarrow> nat \<Rightarrow> nat \<Rightarrow> 'a fs_state_scheme \<Rightarrow>
    ((nat \<times> nat) option \<times> 'a fs_state_scheme) res" where
  "dirlookup_loop dp name off sz s =
     (if off < sz then
        bindr (readi dp False (de_addr s) (of_nat off) 16 s) (\<lambda>(r, s1).
          if r \<noteq> 16 then Panic ''dirlookup read''
          else if de_inum s1 = 0 then dirlookup_loop dp name (off + DESIZE) sz s1
          else if namecmp name (de_name s1) = 0 then
            bindr (iget (idev (itable s1 dp)) (ucast (de_inum s1)) s1) (\<lambda>(j, s2). Ok (Some (j, off), s2))
          else dirlookup_loop dp name (off + DESIZE) sz s1)
      else Ok (None, s))"
  by pat_completeness auto
termination
  by (relation "measure (\<lambda>(dp, name, off, sz, s). sz - off)") auto

declare dirlookup_loop.simps [simp del]

definition dirlookup :: "nat \<Rightarrow> cbuf \<Rightarrow> 'a fs_state_scheme \<Rightarrow> ((nat \<times> nat) option \<times> 'a fs_state_scheme) res" where
  "dirlookup dp name s =
     (if itype (itable s dp) \<noteq> T_DIR then Panic ''dirlookup not DIR''
      else dirlookup_loop dp name 0 (unat (isize (itable s dp))) s)"

function dirlink_loop :: "nat \<Rightarrow> nat \<Rightarrow> nat \<Rightarrow> 'a fs_state_scheme \<Rightarrow> (nat \<times> 'a fs_state_scheme) res" where
  "dirlink_loop dp off sz s =
     (if off < sz then
        bindr (readi dp False (de_addr s) (of_nat off) 16 s) (\<lambda>(r, s1).
          if r \<noteq> 16 then Panic ''dirlink read''
          else if de_inum s1 = 0 then Ok (off, s1)
          else dirlink_loop dp (off + DESIZE) sz s1)
      else Ok (off, s))"
  by pat_completeness auto
termination
  by (relation "measure (\<lambda>(dp, off, sz, s). sz - off)") auto

declare dirlink_loop.simps [simp del]

definition put_dirent :: "cbuf \<Rightarrow> uint16 \<Rightarrow> 'a fs_state_scheme \<Rightarrow> 'a fs_state_scheme" where
  "put_dirent name k s =
     (let nm = strncpy (de_name s) name 14
      in s\<lparr>phys := wr_bytes (phys s) (de_addr s) ([ucast k, ucast (drop_bit 8 k)] @ map nm [0..<DIRSIZ])\<rparr>)"

definition dirlink :: "nat \<Rightarrow> cbuf \<Rightarrow> uint32 \<Rightarrow> 'a fs_state_scheme \<Rightarrow> (int \<times> 'a fs_state_scheme) res" where
  "dirlink dp name k s =
     bindr (dirlookup dp name s) (\<lambda>(found, s1).
       case found of
         Some (j, _) \<Rightarrow> bindr (iput j s1) (\<lambda>s2. Ok (-1, s2))
       | None \<Rightarrow>
           bindr (dirlink_loop dp 0 (unat (isize (itable s1 dp))) s1) (\<lambda>(off, s2).
             bindr (writei dp False (de_addr s2) (of_nat off) 16 (put_dirent name (ucast k) s2)) (\<lambda>(r, s3).
               Ok (if r \<noteq> 16 then -1 else 0, s3))))"

section \<open>Paths\<close>

abbreviation (input) SLASH :: uint8 where "SLASH \<equiv> 47"

definition skipelem :: "uint8 list \<Rightarrow> cbuf \<Rightarrow> (uint8 list \<times> cbuf) option" where
  "skipelem path name =
     (let p1 = dropWhile (\<lambda>c. c = SLASH) path
      in if p1 = [] then None
         else let e = takeWhile (\<lambda>c. c \<noteq> SLASH) p1; rest = dropWhile (\<lambda>c. c \<noteq> SLASH) p1;
                  nm = (if DIRSIZ \<le> length e then (\<lambda>i. if i < DIRSIZ then e ! i else name i)
                        else (\<lambda>i. if i < length e then e ! i else if i = length e then 0 else name i))
              in Some (dropWhile (\<lambda>c. c = SLASH) rest, nm))"

lemma skipelem_shorter: "skipelem path name = Some (path', name') \<Longrightarrow> length path' < length path"
proof -
  assume a: "skipelem path name = Some (path', name')"
  let ?p = "dropWhile (\<lambda>c. c = SLASH) path"
  have ne: "?p \<noteq> []" and p': "path' = dropWhile (\<lambda>c. c = SLASH) (dropWhile (\<lambda>c. c \<noteq> SLASH) ?p)"
    using a by (auto simp: skipelem_def Let_def split: if_splits)
  obtain x xs where x: "?p = x # xs" "x \<noteq> SLASH"
    using ne hd_dropWhile [of "\<lambda>c. c = SLASH" path] by (cases ?p) auto
  then have "length (dropWhile (\<lambda>c. c \<noteq> SLASH) ?p) \<le> length xs"
    by (simp add: length_dropWhile_le)
  moreover have "length ?p \<le> length path" by (rule length_dropWhile_le)
  ultimately show ?thesis
    using x(1) length_dropWhile_le [of "\<lambda>c. c = SLASH" "dropWhile (\<lambda>c. c \<noteq> SLASH) ?p"] by (simp add: p')
qed

function namex_loop :: "nat \<Rightarrow> uint8 list \<Rightarrow> bool \<Rightarrow> cbuf \<Rightarrow> 'a fs_state_scheme \<Rightarrow>
    (nat option \<times> cbuf \<times> 'a fs_state_scheme) res" where
  "namex_loop ip path par name s =
     (case skipelem path name of
        None \<Rightarrow>
          if par then bindr (iput ip s) (\<lambda>s1. Ok (None, name, s1)) else Ok (Some ip, name, s)
      | Some (path', name') \<Rightarrow>
          bindr (ilock ip s) (\<lambda>s1.
            if itype (itable s1 ip) \<noteq> T_DIR then bindr (iunlockput ip s1) (\<lambda>s2. Ok (None, name', s2))
            else if par \<and> path' = [] then bindr (iunlock ip s1) (\<lambda>s2. Ok (Some ip, name', s2))
            else bindr (dirlookup ip name' s1) (\<lambda>(next, s2).
              bindr (iunlockput ip s2) (\<lambda>s3.
                case next of
                  None \<Rightarrow> Ok (None, name', s3)
                | Some (j, _) \<Rightarrow> namex_loop j path' par name' s3))))"
  by pat_completeness auto
termination
  by (relation "measure (\<lambda>(ip, path, par, name, s). length path)") (auto dest: skipelem_shorter)

declare namex_loop.simps [simp del]

definition namex :: "uint8 list \<Rightarrow> bool \<Rightarrow> cbuf \<Rightarrow> 'a fs_state_scheme \<Rightarrow> (nat option \<times> cbuf \<times> 'a fs_state_scheme) res" where
  "namex path par name s =
     bindr (if path \<noteq> [] \<and> hd path = SLASH then iget ROOTDEV ROOTINO s
            else case cwd (myproc s) of None \<Rightarrow> Panic ''kerneltrap'' | Some k \<Rightarrow> Ok (k, idup k s)) (\<lambda>(ip, s1).
       namex_loop ip path par name s1)"

definition namei :: "uint8 list \<Rightarrow> 'a fs_state_scheme \<Rightarrow> (nat option \<times> 'a fs_state_scheme) res" where
  "namei path s = bindr (namex path False (\<lambda>_. 0) s) (\<lambda>(ip, _, s1). Ok (ip, s1))"

definition nameiparent :: "uint8 list \<Rightarrow> cbuf \<Rightarrow> 'a fs_state_scheme \<Rightarrow> (nat option \<times> cbuf \<times> 'a fs_state_scheme) res" where
  "nameiparent path name s = namex path True name s"

section \<open>Properties\<close>

lemma bld16_bst16: "bld16 (bst16 a v d) a = v"
proof (rule bit_eqI)
  fix n
  assume "possible_bit TYPE(16 word) n"
  then have n: "n < 16" by simp
  consider "n < 8" | "8 \<le> n" by linarith
  then show "bit (bld16 (bst16 a v d) a) n = bit v n"
    using n by cases (auto simp: bld16_def bst16_def bit_simps)
qed

lemma bld16_other:
  "a + 2 \<le> c \<or> c + 2 \<le> a \<Longrightarrow> bld16 (bst16 a v d) c = bld16 d c"
  "a + 4 \<le> c \<or> c + 2 \<le> a \<Longrightarrow> bld16 (bst32 a w d) c = bld16 d c"
  by (auto simp: bld16_def bst16_def bst32_def)

lemma bld32_other: "a + 2 \<le> c \<or> c + 4 \<le> a \<Longrightarrow> bld32 (bst16 a v d) c = bld32 d c"
  by (auto simp: bld32_def bst16_def)

lemma addrs_store:
  "c + 4 \<le> a + 12 \<Longrightarrow>
   bld32 (fold (\<lambda>k. bst32 (a + 12 + 4 * k) (f k)) xs d) c = bld32 d c"
  by (induction xs arbitrary: d) (simp_all add: bld32_bst32_other)

lemma addrs_store16:
  "c + 2 \<le> a + 12 \<Longrightarrow> bld16 (fold (\<lambda>k. bst32 (a + 12 + 4 * k) (f k)) xs d) c = bld16 d c"
  by (induction xs arbitrary: d) (simp_all add: bld16_other)

lemma addrs_load:
  assumes "i < n"
  shows "bld32 (fold (\<lambda>k. bst32 (a + 12 + 4 * k) (f k)) [0..<n] d) (a + 12 + 4 * i) = f i"
  using assms
proof (induction n)
  case (Suc n)
  show ?case
  proof (cases "i = n")
    case True
    then show ?thesis by (simp add: bld32_bst32)
  next
    case False
    then have "bld32 (bst32 (a + 12 + 4 * n) (f n) e) (a + 12 + 4 * i) = bld32 e (a + 12 + 4 * i)" for e
      using Suc.prems by (intro bld32_bst32_other) auto
    with Suc False show ?thesis by simp
  qed
qed simp

text \<open>The on-disk inode written by \<open>iupdate\<close> is read back by \<open>ilock\<close>: type, device numbers, link count, size
  and the 13 block addresses.\<close>

theorem dinode_roundtrip:
  "get_dinode a (put_dinode a ip d) jp = jp\<lparr>itype := itype ip, imajor := imajor ip, iminor := iminor ip,
     nlink := nlink ip, isize := isize ip, addrs := (\<lambda>k. if k < 13 then addrs ip k else addrs jp k)\<rparr>"
proof -
  have "(\<lambda>k. if k < 13 then bld32 (put_dinode a ip d) (a + 12 + 4 * k) else addrs jp k) =
      (\<lambda>k. if k < 13 then addrs ip k else addrs jp k)"
    using addrs_load [of _ 13] by (auto simp: put_dinode_def fun_eq_iff simp del: upt_rec_numeral)
  moreover have "bld32 (put_dinode a ip d) (a + 8) = isize ip"
    unfolding put_dinode_def by (subst addrs_store) (simp_all add: bld32_bst32)
  moreover have "bld16 (put_dinode a ip d) a = itype ip" "bld16 (put_dinode a ip d) (a + 2) = imajor ip"
    "bld16 (put_dinode a ip d) (a + 4) = iminor ip" "bld16 (put_dinode a ip d) (a + 6) = nlink ip"
    unfolding put_dinode_def by (subst addrs_store16; simp add: bld16_other bld16_bst16)+
  ultimately show ?thesis by (simp add: get_dinode_def)
qed

text \<open>C31: on a path without NUL bytes, \<open>skipelem\<close> returns null exactly when only slashes are left; otherwise it
  cuts off the next element, which is not empty and holds no slash, leaves in the name buffer its first 14
  bytes as a C string, and returns the rest of the path without leading slashes.\<close>

theorem skipelem_correct:
  assumes "0 \<notin> set path"
  shows "case skipelem path name of
      None \<Rightarrow> set path \<subseteq> {SLASH}
    | Some (path', name') \<Rightarrow> \<exists>s1 e s2. path = s1 @ e @ s2 @ path' \<and> set s1 \<subseteq> {SLASH} \<and> set s2 \<subseteq> {SLASH} \<and>
        e \<noteq> [] \<and> SLASH \<notin> set e \<and> (path' = [] \<or> hd path' \<noteq> SLASH) \<and> (path' = [] \<or> s2 \<noteq> []) \<and>
        cstr name' DIRSIZ = take DIRSIZ e"
proof -
  let ?s1 = "takeWhile (\<lambda>c. c = SLASH) path" and ?p = "dropWhile (\<lambda>c. c = SLASH) path"
  let ?e = "takeWhile (\<lambda>c. c \<noteq> SLASH) ?p" and ?r = "dropWhile (\<lambda>c. c \<noteq> SLASH) ?p"
  let ?s2 = "takeWhile (\<lambda>c. c = SLASH) ?r" and ?q = "dropWhile (\<lambda>c. c = SLASH) ?r"
  have p: "path = ?s1 @ ?e @ ?s2 @ ?q" by simp
  have sl: "set ?s1 \<subseteq> {SLASH}" "set ?s2 \<subseteq> {SLASH}" "SLASH \<notin> set ?e"
    by (auto dest: set_takeWhileD)
  show ?thesis
  proof (cases "?p = []")
    case True
    then have "set path \<subseteq> {SLASH}" by (auto simp: dropWhile_eq_Nil_conv)
    with True show ?thesis by (simp add: skipelem_def)
  next
    case False
    then have "hd ?p \<noteq> SLASH" by (rule hd_dropWhile)
    with False have e: "?e \<noteq> []" by (cases ?p) auto
    have q: "?q = [] \<or> hd ?q \<noteq> SLASH" using hd_dropWhile [of "\<lambda>c. c = SLASH" ?r] by blast
    have s2: "?q = [] \<or> ?s2 \<noteq> []"
    proof (cases ?r)
      case Nil
      then show ?thesis by (simp only: dropWhile.simps simp_thms)
    next
      case (Cons x xs)
      then have "?r \<noteq> []" by simp
      from hd_dropWhile [OF this] Cons have "x = SLASH" by (simp only: list.sel not_not)
      with Cons show ?thesis by (simp only: takeWhile.simps if_True list.distinct simp_thms)
    qed
    have nz: "0 \<notin> set ?e"
    proof
      assume "0 \<in> set ?e"
      then have "0 \<in> set ?p" by (rule set_takeWhileD [THEN conjunct1])
      then have "0 \<in> set path" by (rule set_dropWhileD)
      with assms show False by contradiction
    qed
    obtain nm where k: "skipelem path name = Some (?q, nm)" and nm: "nm = (if DIRSIZ \<le> length ?e then (\<lambda>i. if i < DIRSIZ then ?e ! i else name i)
        else (\<lambda>i. if i < length ?e then ?e ! i else if i = length ?e then 0 else name i))"
      using False by (auto simp: skipelem_def Let_def)
    have "cstr nm DIRSIZ = take DIRSIZ ?e"
    proof (cases "DIRSIZ \<le> length ?e")
      case True
      then have "map nm [0..<DIRSIZ] = take DIRSIZ ?e"
        by (intro nth_equalityI) (auto simp: nm simp del: upt_rec_numeral)
      then show ?thesis
        unfolding cstr_def using nz by (auto simp: takeWhile_eq_all_conv dest: in_set_takeD)
    next
      case False
      let ?l = "length ?e"
      have "[0..<DIRSIZ] = [0..<?l] @ ?l # [Suc ?l..<DIRSIZ]"
        using False upt_add_eq_append [of 0 ?l "DIRSIZ - ?l"] upt_conv_Cons [of ?l DIRSIZ] by simp
      moreover have "map nm [0..<?l] = ?e"
        using False by (intro nth_equalityI) (auto simp: nm)
      moreover have "nm ?l = 0" using False by (simp add: nm)
      ultimately show ?thesis
        unfolding cstr_def using nz False by (auto simp: takeWhile_append takeWhile_eq_all_conv)
    qed
    with k p sl e q s2 show ?thesis
      by (simp only: option.case prod.case) blast
  qed
qed

theorem skipelem_correct_witness: "\<exists>q nm. skipelem [47, 47, 97, 47, 47, 98] (\<lambda>_. 1) = Some (q, nm) \<and> cstr nm DIRSIZ \<noteq> []"
proof -
  have "skipelem [47, 47, 97, 47, 47, 98] (\<lambda>_. 1) \<noteq> None"
    by (simp add: skipelem_def Let_def)
  then obtain q nm where s: "skipelem [47, 47, 97, 47, 47, 98] (\<lambda>_. 1) = Some (q, nm)"
    by auto
  with skipelem_correct [of "[47, 47, 97, 47, 47, 98]" "\<lambda>_. 1"] show ?thesis by auto
qed

end
