(* ===== verification/XvFile.thy ===== *)
theory XvFile
  imports XvFs
begin

text \<open>
  kernel/file.c and \<open>pipealloc\<close> of kernel/pipe.c: the table of open files. The device switch has the console
  under major number 1 and nothing else, as \<open>consoleinit\<close> sets it. A call that sleeps in a pipe, the console
  or the log is \<open>Block\<close>.
\<close>

section \<open>State and operations\<close>

abbreviation (input) NFILE :: nat where "NFILE \<equiv> 100"
abbreviation (input) CONSOLE :: uint16 where "CONSOLE \<equiv> 1"

datatype fdtype = FD_NONE | FD_PIPE | FD_INODE | FD_DEVICE

record kfile =
  ftype :: fdtype
  fref :: int
  freadable :: bool
  fwritable :: bool
  fpipe :: uint64
  fip :: nat
  foff :: uint32
  fmajor :: uint16

record file_state = fs_state +
  ftable :: "nat \<Rightarrow> kfile"

definition upd_file :: "nat \<Rightarrow> (kfile \<Rightarrow> kfile) \<Rightarrow> 'a file_state_scheme \<Rightarrow> 'a file_state_scheme" where
  "upd_file f g s = s\<lparr>ftable := (ftable s)(f := g (ftable s f))\<rparr>"

definition filealloc :: "'a file_state_scheme \<Rightarrow> nat option \<times> 'a file_state_scheme" where
  "filealloc s = (case find_slot (\<lambda>f. fref (ftable s f) = 0) 0 NFILE of
     None \<Rightarrow> (None, s) | Some f \<Rightarrow> (Some f, upd_file f (\<lambda>x. x\<lparr>fref := 1\<rparr>) s))"

definition filedup :: "nat \<Rightarrow> 'a file_state_scheme \<Rightarrow> 'a file_state_scheme res" where
  "filedup f s = (if fref (ftable s f) < 1 then Panic ''filedup''
     else Ok (upd_file f (\<lambda>x. x\<lparr>fref := fref x + 1\<rparr>) s))"

definition fileclose :: "nat \<Rightarrow> 'a file_state_scheme \<Rightarrow> 'a file_state_scheme res" where
  "fileclose f s =
     (if fref (ftable s f) < 1 then Panic ''fileclose''
      else let s1 = upd_file f (\<lambda>x. x\<lparr>fref := fref x - 1\<rparr>) s
        in if 0 < fref (ftable s1 f) then Ok s1
           else let ff = ftable s1 f; s2 = upd_file f (\<lambda>x. x\<lparr>fref := 0, ftype := FD_NONE\<rparr>) s1
             in case ftype ff of
                  FD_PIPE \<Rightarrow> pipeclose (fpipe ff) (fwritable ff) s2
                | FD_NONE \<Rightarrow> Ok s2
                | _ \<Rightarrow> bindr (begin_op s2) (\<lambda>s3. bindr (iput (fip ff) s3) end_op))"

definition filestat :: "nat \<Rightarrow> uint64 \<Rightarrow> 'a file_state_scheme \<Rightarrow> (int \<times> 'a file_state_scheme) res" where
  "filestat f addr s =
     (if ftype (ftable s f) = FD_INODE \<or> ftype (ftable s f) = FD_DEVICE then
        let k = fip (ftable s f)
        in bindr (ilock k s) (\<lambda>s1.
           let st = stati k s1
           in bindr (iunlock k s1) (\<lambda>s2.
              bindr (copyout (pagetable (myproc s2)) (psz (myproc s2)) (pagetable (myproc s2)) addr st s2) (\<lambda>(r, s3).
                Ok (if r < 0 then -1 else 0, s3))))
      else Ok (-1, s))"

definition finish :: "('k run \<times> 's) res \<Rightarrow> (int \<times> 's) res" where
  "finish r = bindr r (\<lambda>(out, s). case out of Done v \<Rightarrow> Ok (v, s) | Asleep _ \<Rightarrow> Block)"

definition fileread :: "nat \<Rightarrow> uint64 \<Rightarrow> int \<Rightarrow> 'a file_state_scheme \<Rightarrow> (int \<times> 'a file_state_scheme) res" where
  "fileread f addr n s =
     (if \<not> freadable (ftable s f) then Ok (-1, s)
      else case ftype (ftable s f) of
        FD_PIPE \<Rightarrow> finish (piperead (fpipe (ftable s f)) addr n s)
      | FD_DEVICE \<Rightarrow>
          if fmajor (ftable s f) \<noteq> CONSOLE then Ok (-1, s) else finish (consoleread True addr n s)
      | FD_INODE \<Rightarrow>
          let k = fip (ftable s f)
          in bindr (ilock k s) (\<lambda>s1.
             bindr (readi k True addr (foff (ftable s1 f)) (word_of_int n) s1) (\<lambda>(r, s2).
             bindr (iunlock k (if 0 < r then upd_file f (\<lambda>x. x\<lparr>foff := foff x + word_of_int r\<rparr>) s2 else s2)) (\<lambda>s3.
             Ok (r, s3))))
      | FD_NONE \<Rightarrow> Panic ''fileread'')"

text \<open>The loop of \<open>filewrite\<close> on an inode, at most \<open>((10 - 1 - 1 - 2) / 2) * 1024\<close> bytes in each transaction.\<close>

abbreviation (input) WMAX :: int where "WMAX \<equiv> 3072"

function filewrite_loop :: "nat \<Rightarrow> uint64 \<Rightarrow> int \<Rightarrow> int \<Rightarrow> 'a file_state_scheme \<Rightarrow> (int \<times> 'a file_state_scheme) res" where
  "filewrite_loop f addr n i s =
     (if i < n then
        let n1 = min (n - i) WMAX; k = fip (ftable s f)
        in bindr (begin_op s) (\<lambda>s1.
           bindr (ilock k s1) (\<lambda>s2.
           bindr (writei k True (addr + word_of_int i) (foff (ftable s2 f)) (word_of_int n1) s2) (\<lambda>(r, s3).
           bindr (iunlock k (if 0 < r then upd_file f (\<lambda>x. x\<lparr>foff := foff x + word_of_int r\<rparr>) s3 else s3)) (\<lambda>s4.
           bindr (end_op s4) (\<lambda>s5.
             if r \<noteq> n1 then Ok (i, s5) else filewrite_loop f addr n (i + r) s5)))))
      else Ok (i, s))"
  by pat_completeness auto
termination
  by (relation "measure (\<lambda>(f, addr, n, i, s). nat (n - i))") (auto simp: min_def)

declare filewrite_loop.simps [simp del]

definition filewrite :: "nat \<Rightarrow> uint64 \<Rightarrow> int \<Rightarrow> 'a file_state_scheme \<Rightarrow> (int \<times> 'a file_state_scheme) res" where
  "filewrite f addr n s =
     (if \<not> fwritable (ftable s f) then Ok (-1, s)
      else case ftype (ftable s f) of
        FD_PIPE \<Rightarrow> finish (pipewrite (fpipe (ftable s f)) addr n s)
      | FD_DEVICE \<Rightarrow>
          if fmajor (ftable s f) \<noteq> CONSOLE then Ok (-1, s) else finish (consolewrite True addr n s)
      | FD_INODE \<Rightarrow>
          bindr (filewrite_loop f addr n 0 s) (\<lambda>(i, s1). Ok (if i = n then n else -1, s1))
      | FD_NONE \<Rightarrow> Panic ''filewrite'')"

text \<open>\<open>pipealloc\<close> returns the two files, or \<open>None\<close>.\<close>

definition close_opt :: "nat option \<Rightarrow> 'a file_state_scheme \<Rightarrow> 'a file_state_scheme res" where
  "close_opt f s = (case f of None \<Rightarrow> Ok s | Some f \<Rightarrow> fileclose f s)"

definition pipealloc :: "'a file_state_scheme \<Rightarrow> ((nat \<times> nat) option \<times> 'a file_state_scheme) res" where
  "pipealloc s =
     (let (f0, s1) = filealloc s
      in case f0 of
           None \<Rightarrow> Ok (None, s1)
         | Some a \<Rightarrow>
             let (f1, s2) = filealloc s1
             in case f1 of
                  None \<Rightarrow> bindr (fileclose a s2) (\<lambda>s3. Ok (None, s3))
                | Some b \<Rightarrow>
                    bindr (kalloc s2) (\<lambda>(pi, s3).
                      if pi = 0 then bindr (fileclose a s3) (\<lambda>s4. bindr (fileclose b s4) (\<lambda>s5. Ok (None, s5)))
                      else let s4 = upd_pipe pi (\<lambda>q. q\<lparr>readopen := True, writeopen := True, nwrite := 0, nread := 0\<rparr>) s3;
                               s5 = upd_file a (\<lambda>x. x\<lparr>ftype := FD_PIPE, freadable := True, fwritable := False, fpipe := pi\<rparr>) s4
                        in Ok (Some (a, b), upd_file b (\<lambda>x. x\<lparr>ftype := FD_PIPE, freadable := False, fwritable := True, fpipe := pi\<rparr>) s5)))"

end
