(* ===== verification/XvSys.thy ===== *)
theory XvSys
  imports XvFile
begin

text \<open>
  \<open>userinit\<close>, \<open>fork\<close> and \<open>exit\<close> of kernel/proc.c, the argument routines of kernel/syscall.c and the system calls of
  kernel/sysproc.c. The saved user registers are read from the trapframe page in physical memory. \<open>exit\<close> is
  followed up to its call of \<open>sched\<close>.
\<close>

section \<open>Process creation and exit\<close>

abbreviation (input) TF_A0 :: uint64 where "TF_A0 \<equiv> 112"

record sys_state = file_state +
  ticks :: uint32

definition userinit :: "'a sys_state_scheme \<Rightarrow> 'a sys_state_scheme res" where
  "userinit s =
     bindr (allocproc s) (\<lambda>(p, s1).
       let s2 = s1\<lparr>initproc := p\<rparr>
       in case p of
            None \<Rightarrow> Panic ''kerneltrap''
          | Some i \<Rightarrow> bindr (namei [SLASH] s2) (\<lambda>(ip, s3).
              Ok (upd_proc i (\<lambda>q. q\<lparr>cwd := ip, state := RUNNABLE\<rparr>) s3)))"

definition fork_fd :: "nat \<Rightarrow> nat \<Rightarrow> 'a sys_state_scheme \<Rightarrow> 'a sys_state_scheme res" where
  "fork_fd j i s =
     (case ofile (myproc s) i of
        None \<Rightarrow> Ok s
      | Some f \<Rightarrow> bindr (filedup f s) (\<lambda>s1. Ok (upd_proc j (\<lambda>q. q\<lparr>ofile := (ofile q)(i := Some f)\<rparr>) s1)))"

definition fork :: "'a sys_state_scheme \<Rightarrow> (int \<times> 'a sys_state_scheme) res" where
  "fork s =
     bindr (allocproc s) (\<lambda>(np, s1).
       case np of
         None \<Rightarrow> Ok (-1, s1)
       | Some j \<Rightarrow>
           bindr (uvmcopy (pagetable (myproc s1)) (pagetable (procs s1 j)) (psz (myproc s1)) s1) (\<lambda>(r, s2).
             if r < 0 then bindr (freeproc j s2) (\<lambda>s3. Ok (-1, s3))
             else
               let s3 = upd_proc j (\<lambda>q. q\<lparr>psz := psz (myproc s2)\<rparr>) s2;
                   s4 = s3\<lparr>phys := memmove (phys s3) (trapframe (procs s3 j)) (trapframe (myproc s3)) 288\<rparr>;
                   s5 = s4\<lparr>phys := st64 (phys s4) (trapframe (procs s4 j) + TF_A0) 0\<rparr>
               in bindr (foldM (fork_fd j) [0..<NOFILE] s5) (\<lambda>s6.
                  case cwd (myproc s6) of
                    None \<Rightarrow> Panic ''kerneltrap''
                  | Some k \<Rightarrow>
                      let s7 = upd_proc j (\<lambda>q. q\<lparr>cwd := Some k\<rparr>) (idup k s6);
                          s8 = upd_proc j (\<lambda>q. q\<lparr>pname := safestrcpy (pname q) (pname (myproc s7)) 16\<rparr>) s7
                      in Ok (pid (procs s8 j), upd_proc j (\<lambda>q. q\<lparr>parent := Some (cur s8), state := RUNNABLE\<rparr>) s8))))"

definition exit_fd :: "nat \<Rightarrow> 'a sys_state_scheme \<Rightarrow> 'a sys_state_scheme res" where
  "exit_fd fd s =
     (case ofile (myproc s) fd of
        None \<Rightarrow> Ok s
      | Some f \<Rightarrow> bindr (fileclose f s) (\<lambda>s1. Ok (upd_proc (cur s1) (\<lambda>q. q\<lparr>ofile := (ofile q)(fd := None)\<rparr>) s1)))"

definition exit :: "int \<Rightarrow> 'a sys_state_scheme \<Rightarrow> 'a sys_state_scheme res" where
  "exit status s =
     (if initproc s = Some (cur s) then Panic ''init exiting''
      else bindr (foldM exit_fd [0..<NOFILE] s) (\<lambda>s1.
        bindr (begin_op s1) (\<lambda>s2.
        case cwd (myproc s2) of
          None \<Rightarrow> Panic ''kerneltrap''
        | Some k \<Rightarrow>
            bindr (iput k s2) (\<lambda>s3.
            bindr (end_op s3) (\<lambda>s4.
            let s5 = upd_proc (cur s4) (\<lambda>q. q\<lparr>cwd := None\<rparr>) s4;
                s6 = reparent (cur s5) s5;
                s7 = wakeup (case parent (myproc s6) of None \<Rightarrow> ChNull | Some j \<Rightarrow> ChProc j) s6
            in Ok (upd_proc (cur s7) (\<lambda>q. q\<lparr>xstate := status, state := ZOMBIE\<rparr>) s7))))))"

section \<open>System-call arguments\<close>

definition fetchaddr :: "uint64 \<Rightarrow> 'a sys_state_scheme \<Rightarrow> (int \<times> uint8 list \<times> 'a sys_state_scheme) res" where
  "fetchaddr addr s =
     (let p = myproc s
      in if psz p \<le> addr \<or> psz p < addr + 8 then Ok (-1, [], s)
         else bindr (copyin (pagetable p) (psz p) (pagetable p) addr 8 s) (\<lambda>(r, bs, s1).
           Ok (if r \<noteq> 0 then -1 else 0, bs, s1)))"

definition argraw :: "nat \<Rightarrow> 'a sys_state_scheme \<Rightarrow> uint64 res" where
  "argraw n s =
     (if n < 6 then Ok (ld64 (phys s) (trapframe (myproc s) + TF_A0 + 8 * of_nat n)) else Panic ''argraw'')"

definition argint :: "nat \<Rightarrow> 'a sys_state_scheme \<Rightarrow> uint32 res" where
  "argint n s = bindr (argraw n s) (\<lambda>w. Ok (ucast w))"

definition argaddr :: "nat \<Rightarrow> 'a sys_state_scheme \<Rightarrow> uint64 res" where
  "argaddr n s = argraw n s"

definition fetchstr :: "uint64 \<Rightarrow> nat \<Rightarrow> 'a sys_state_scheme \<Rightarrow> (int \<times> uint8 list) res" where
  "fetchstr addr mx s =
     bindr (copyinstr (pagetable (myproc s)) addr mx s) (\<lambda>(r, bs).
       Ok (if r < 0 then -1 else int (strlen (\<lambda>i. if i < length bs then bs ! i else 0)), bs))"

definition argstr :: "nat \<Rightarrow> nat \<Rightarrow> 'a sys_state_scheme \<Rightarrow> (int \<times> uint8 list) res" where
  "argstr n mx s = bindr (argaddr n s) (\<lambda>addr. fetchstr addr mx s)"

section \<open>Process system calls\<close>

definition sys_exit :: "'a sys_state_scheme \<Rightarrow> 'a sys_state_scheme res" where
  "sys_exit s = bindr (argint 0 s) (\<lambda>n. exit (sint n) s)"

definition sys_getpid :: "'a sys_state_scheme \<Rightarrow> int" where
  "sys_getpid s = pid (myproc s)"

definition sys_fork :: "'a sys_state_scheme \<Rightarrow> (int \<times> 'a sys_state_scheme) res" where
  "sys_fork s = fork s"

definition sys_wait :: "'a sys_state_scheme \<Rightarrow> (unit run \<times> 'a sys_state_scheme) res" where
  "sys_wait s = bindr (argaddr 0 s) (\<lambda>p. wait p s)"

definition sys_sbrk :: "'a sys_state_scheme \<Rightarrow> (uint64 \<times> 'a sys_state_scheme) res" where
  "sys_sbrk s =
     bindr (argint 0 s) (\<lambda>n.
       let addr = psz (myproc s)
       in if sint n < 0 then bindr (shrinkproc (- n) s) (\<lambda>(r, s1). Ok (if r < 0 then -1 else addr, s1))
          else Ok (addr, upd_proc (cur s) (\<lambda>p. p\<lparr>psz := psz p + scast n\<rparr>) s))"

text \<open>\<open>sys_sleep\<close> keeps the tick count of its start and the number of ticks to wait.\<close>

definition sys_sleep_loop :: "uint32 \<Rightarrow> uint32 \<Rightarrow> 'a sys_state_scheme \<Rightarrow> (uint32 \<times> uint32) run \<times> 'a sys_state_scheme" where
  "sys_sleep_loop ticks0 n s =
     (if ticks s - ticks0 < n then
        if killed (cur s) s then (Done (-1), s) else (Asleep (ticks0, n), sleep_begin ChTicks s)
      else (Done 0, s))"

definition sys_sleep :: "'a sys_state_scheme \<Rightarrow> ((uint32 \<times> uint32) run \<times> 'a sys_state_scheme) res" where
  "sys_sleep s = bindr (argint 0 s) (\<lambda>n. Ok (sys_sleep_loop (ticks s) (if sint n < 0 then 0 else n) s))"

definition sys_kill :: "'a sys_state_scheme \<Rightarrow> (int \<times> 'a sys_state_scheme) res" where
  "sys_kill s = bindr (argint 0 s) (\<lambda>p. Ok (kill (sint p) s))"

definition sys_uptime :: "'a sys_state_scheme \<Rightarrow> uint32" where
  "sys_uptime s = ticks s"

definition sys_sem_init :: "'a sys_state_scheme \<Rightarrow> (int \<times> 'a sys_state_scheme) res" where
  "sys_sem_init s = bindr (argint 0 s) (\<lambda>k. bindr (argint 1 s) (\<lambda>v. Ok (sem_init (sint k) (sint v) s)))"

definition sys_sem_down :: "'a sys_state_scheme \<Rightarrow> (unit run \<times> 'a sys_state_scheme) res" where
  "sys_sem_down s = bindr (argint 0 s) (\<lambda>k. Ok (sem_down (sint k) s))"

definition sys_sem_up :: "'a sys_state_scheme \<Rightarrow> (int \<times> 'a sys_state_scheme) res" where
  "sys_sem_up s = bindr (argint 0 s) (\<lambda>k. Ok (sem_up (sint k) s))"

definition sys_shm_get :: "'a sys_state_scheme \<Rightarrow> (uint64 \<times> 'a sys_state_scheme) res" where
  "sys_shm_get s = bindr (argint 0 s) (\<lambda>key. shm_get (cur s) (sint key) s)"

section \<open>Lemmas\<close>

lemma keeps_uvmcopy_loop: "uvmcopy_loop old new i sz s = Ok (r, s') \<Longrightarrow> keeps s s'"
proof (induction old new i sz s rule: uvmcopy_loop.induct)
  case (1 old new i sz s)
  note eq = "1.prems" [unfolded uvmcopy_loop.simps [of old new i sz s] Let_def]
  show ?case
  proof (cases "i < sz")
    case False
    with eq show ?thesis by simp
  next
    case lt: True
    with eq obtain pte s1 where w: "walk old i False s = Ok (pte, s1)" by auto
    note eq1 = eq [simplified lt w, simplified]
    have k1: "keeps s s1" by (rule keeps_walk [OF w])
    consider "pte = 0" | "pte \<noteq> 0" "get_pte s1 pte AND PTE_V = 0" | "pte \<noteq> 0" "get_pte s1 pte AND PTE_V \<noteq> 0"
      by blast
    then show ?thesis
    proof cases
      case 1
      with eq1 have "uvmcopy_loop old new (i + PGSIZE) sz s1 = Ok (r, s')" by simp
      from "1.IH"(1) [OF lt w refl 1 this] k1 show ?thesis by simp
    next
      case 2
      with eq1 have "uvmcopy_loop old new (i + PGSIZE) sz s1 = Ok (r, s')" by simp
      from "1.IH"(2) [OF lt w refl 2 this] k1 show ?thesis by simp
    next
      case 3
      with eq1 obtain mem s2 where k: "kalloc s1 = Ok (mem, s2)" by auto
      have k2: "keeps s s2" using keeps_kalloc [OF k] k1 by simp
      note eq2 = eq1 [simplified 3 k, simplified]
      show ?thesis
      proof (cases "mem = 0")
        case True
        with eq2 k2 show ?thesis by (auto dest!: keeps_uvmunmap)
      next
        case False
        let ?t = "s2\<lparr>phys := memmove (phys s2) mem (PTE2PA (get_pte s1 pte)) 4096\<rparr>"
        from False eq2 obtain q s3 where m: "mappages new i PGSIZE mem (PTE_FLAGS (get_pte s1 pte)) ?t = Ok (q, s3)"
          by auto
        have k3: "keeps s s3" using keeps_mappages [OF m] k2 by simp
        note eq3 = eq2 [simplified False m, simplified]
        show ?thesis
        proof (cases "q = 0")
          case True
          with eq3 have "uvmcopy_loop old new (i + PGSIZE) sz s3 = Ok (r, s')" by simp
          from "1.IH"(3) [OF lt w refl 3 refl refl k refl False m refl _ this] True k3 show ?thesis by simp
        next
          case False
          with eq3 k3 show ?thesis by (auto dest!: keeps_kfree keeps_uvmunmap)
        qed
      qed
    qed
  qed
qed

lemma keeps_uvmcopy: "uvmcopy old new sz s = Ok (r, s') \<Longrightarrow> keeps s s'"
  by (auto simp: uvmcopy_def dest: keeps_uvmcopy_loop)

lemma procs_idup [simp]: "procs (idup k s) = procs s" "cur (idup k s) = cur s"
  by (simp_all add: idup_def upd_inode_def)

lemma allocproc_cur:
  assumes "allocproc s = Ok (Some j, s')"
  shows "cur s' = cur s"
proof -
  let ?s2 = "upd_proc j (\<lambda>p. p\<lparr>pid := nextpid s, state := USED\<rparr>) (s\<lparr>nextpid := nextpid s + 1\<rparr>)"
  from assms obtain tf s3 pt s5 where
    k: "kalloc ?s2 = Ok (tf, s3)" "proc_pagetable tf (upd_proc j (\<lambda>p. p\<lparr>trapframe := tf\<rparr>) s3) = Ok (pt, s5)" and
    s': "s' = upd_proc j (\<lambda>p. p\<lparr>pcontext := CtxForkret (kstack p + PGSIZE)\<rparr>) (upd_proc j (\<lambda>p. p\<lparr>pagetable := pt\<rparr>) s5)"
    by (auto simp: allocproc_def allocpid_def Let_def split: option.splits if_splits)
  show ?thesis
    using keeps_procs(2) [OF keeps_kalloc [OF k(1)]] keeps_procs(2) [OF keeps_proc_pagetable [OF k(2)]] s' by simp
qed

text \<open>The fields \<open>fork\<close> gives the child while it copies the descriptors.\<close>

lemma fork_fds:
  assumes "foldM (fork_fd j) [0..<NOFILE] s = Ok s'"
  shows "cur s' = cur s" and "\<exists>fds. procs s' = (procs s)(j := (procs s j)\<lparr>ofile := fds\<rparr>)"
proof -
  let ?P = "\<lambda>t. cur t = cur s \<and> (\<exists>fds. procs t = (procs s)(j := (procs s j)\<lparr>ofile := fds\<rparr>))"
  have "?P s'"
  proof (rule foldM_keep [where P = ?P, OF assms])
    have "procs s = (procs s)(j := (procs s j)\<lparr>ofile := ofile (procs s j)\<rparr>)" by simp
    then show "?P s" by blast
  next
    fix i t t'
    assume "?P t" and f: "fork_fd j i t = Ok t'"
    then obtain fds where t: "cur t = cur s" "procs t = (procs s)(j := (procs s j)\<lparr>ofile := fds\<rparr>)" by blast
    show "?P t'"
    proof (cases "ofile (myproc t) i")
      case None
      with f \<open>?P t\<close> show ?thesis by (simp add: fork_fd_def)
    next
      case (Some g)
      with f t have "cur t' = cur s" "procs t' = (procs s)(j := (procs s j)\<lparr>ofile := fds(i := Some g)\<rparr>)"
        by (auto simp: fork_fd_def filedup_def upd_file_def upd_proc_def split: if_splits)
      then show ?thesis by blast
    qed
  qed
  then show "cur s' = cur s" and "\<exists>fds. procs s' = (procs s)(j := (procs s j)\<lparr>ofile := fds\<rparr>)"
    by blast+
qed

section \<open>Properties\<close>


end
