(* ===== verification/XvSysfile.thy ===== *)
theory XvSysfile
  imports XvSys
begin

text \<open>
  kernel/sysfile.c except \<open>sys_exec\<close>: the system calls on files, directories and pipes. A path is the list of
  its bytes before the NUL. A call that would sleep is \<open>Block\<close>.
\<close>

section \<open>Descriptors\<close>

abbreviation (input) MAXPATH :: nat where "MAXPATH \<equiv> 128"
abbreviation (input) NDEV :: int where "NDEV \<equiv> 10"
abbreviation (input) O_WRONLY :: uint32 where "O_WRONLY \<equiv> 0x001"
abbreviation (input) O_RDWR :: uint32 where "O_RDWR \<equiv> 0x002"
abbreviation (input) O_CREATE :: uint32 where "O_CREATE \<equiv> 0x200"
abbreviation (input) O_TRUNC :: uint32 where "O_TRUNC \<equiv> 0x400"

text \<open>The descriptor and its file, or \<open>None\<close>.\<close>

definition argfd :: "nat \<Rightarrow> 'a sys_state_scheme \<Rightarrow> (nat \<times> nat) option res" where
  "argfd n s =
     bindr (argint n s) (\<lambda>w.
       let fd = sint w
       in if fd < 0 \<or> int NOFILE \<le> fd then Ok None
          else Ok (map_option (Pair (nat fd)) (ofile (myproc s) (nat fd))))"

definition set_ofile :: "nat \<Rightarrow> nat option \<Rightarrow> 'a sys_state_scheme \<Rightarrow> 'a sys_state_scheme" where
  "set_ofile fd f s = upd_proc (cur s) (\<lambda>p. p\<lparr>ofile := (ofile p)(fd := f)\<rparr>) s"

definition fdalloc :: "nat \<Rightarrow> 'a sys_state_scheme \<Rightarrow> int \<times> 'a sys_state_scheme" where
  "fdalloc f s =
     (case find_slot (\<lambda>fd. ofile (myproc s) fd = None) 0 NOFILE of
        None \<Rightarrow> (-1, s)
      | Some fd \<Rightarrow> (int fd, set_ofile fd (Some f) s))"

definition sys_dup :: "'a sys_state_scheme \<Rightarrow> (int \<times> 'a sys_state_scheme) res" where
  "sys_dup s =
     bindr (argfd 0 s) (\<lambda>r.
       case r of
         None \<Rightarrow> Ok (-1, s)
       | Some (_, f) \<Rightarrow>
           let (fd, s1) = fdalloc f s
           in if fd < 0 then Ok (-1, s1) else bindr (filedup f s1) (\<lambda>s2. Ok (fd, s2)))"

definition sys_read :: "'a sys_state_scheme \<Rightarrow> (int \<times> 'a sys_state_scheme) res" where
  "sys_read s =
     bindr (argaddr 1 s) (\<lambda>p. bindr (argint 2 s) (\<lambda>n. bindr (argfd 0 s) (\<lambda>r.
       case r of None \<Rightarrow> Ok (-1, s) | Some (_, f) \<Rightarrow> fileread f p (sint n) s)))"

definition sys_write :: "'a sys_state_scheme \<Rightarrow> (int \<times> 'a sys_state_scheme) res" where
  "sys_write s =
     bindr (argaddr 1 s) (\<lambda>p. bindr (argint 2 s) (\<lambda>n. bindr (argfd 0 s) (\<lambda>r.
       case r of None \<Rightarrow> Ok (-1, s) | Some (_, f) \<Rightarrow> filewrite f p (sint n) s)))"

definition sys_close :: "'a sys_state_scheme \<Rightarrow> (int \<times> 'a sys_state_scheme) res" where
  "sys_close s =
     bindr (argfd 0 s) (\<lambda>r.
       case r of
         None \<Rightarrow> Ok (-1, s)
       | Some (fd, f) \<Rightarrow> bindr (fileclose f (set_ofile fd None s)) (\<lambda>s1. Ok (0, s1)))"

definition sys_fstat :: "'a sys_state_scheme \<Rightarrow> (int \<times> 'a sys_state_scheme) res" where
  "sys_fstat s =
     bindr (argaddr 1 s) (\<lambda>st. bindr (argfd 0 s) (\<lambda>r.
       case r of None \<Rightarrow> Ok (-1, s) | Some (_, f) \<Rightarrow> filestat f st s))"

section \<open>Links\<close>

text \<open>\<open>argstr\<close> into a buffer of \<open>MAXPATH\<close> bytes.\<close>

definition argpath :: "nat \<Rightarrow> 'a sys_state_scheme \<Rightarrow> uint8 list option res" where
  "argpath n s = bindr (argstr n MAXPATH s) (\<lambda>(r, bs). Ok (if r < 0 then None else Some (takeWhile (\<lambda>c. c \<noteq> 0) bs)))"

text \<open>The ends of a call: in a transaction with an inode locked, or without one.\<close>

definition end_put :: "int \<Rightarrow> nat \<Rightarrow> 'a sys_state_scheme \<Rightarrow> (int \<times> 'a sys_state_scheme) res" where
  "end_put r k s = bindr (iunlockput k s) (\<lambda>s1. bindr (end_op s1) (\<lambda>s2. Ok (r, s2)))"

definition end_ret :: "int \<Rightarrow> 'a sys_state_scheme \<Rightarrow> (int \<times> 'a sys_state_scheme) res" where
  "end_ret r s = bindr (end_op s) (\<lambda>s1. Ok (r, s1))"

definition link_bad :: "nat \<Rightarrow> 'a sys_state_scheme \<Rightarrow> (int \<times> 'a sys_state_scheme) res" where
  "link_bad ip s =
     bindr (ilock ip s) (\<lambda>s1.
     bindr (iupdate ip (upd_inode ip (\<lambda>i. i\<lparr>nlink := nlink i - 1\<rparr>) s1)) (end_put (-1) ip))"

definition sys_link :: "'a sys_state_scheme \<Rightarrow> (int \<times> 'a sys_state_scheme) res" where
  "sys_link s =
     bindr (argpath 0 s) (\<lambda>old.
     bindr (if old = None then Ok None else argpath 1 s) (\<lambda>new.
       case (old, new) of
         (Some old, Some new) \<Rightarrow>
           bindr (begin_op s) (\<lambda>s1.
           bindr (namei old s1) (\<lambda>(ip, s2).
             case ip of
               None \<Rightarrow> end_ret (-1) s2
             | Some ip \<Rightarrow>
                 bindr (ilock ip s2) (\<lambda>s3.
                   if itype (itable s3 ip) = T_DIR then end_put (-1) ip s3
                   else
                     bindr (iupdate ip (upd_inode ip (\<lambda>i. i\<lparr>nlink := nlink i + 1\<rparr>) s3)) (\<lambda>s4.
                     bindr (iunlock ip s4) (\<lambda>s5.
                     bindr (nameiparent new (\<lambda>_. 0) s5) (\<lambda>(dp, name, s6).
                       case dp of
                         None \<Rightarrow> link_bad ip s6
                       | Some dp \<Rightarrow>
                           bindr (ilock dp s6) (\<lambda>s7.
                           bindr (if idev (itable s7 dp) \<noteq> idev (itable s7 ip) then Ok (-1, s7)
                                  else dirlink dp name (inum (itable s7 ip)) s7) (\<lambda>(r, s8).
                             if r < 0 then bindr (iunlockput dp s8) (link_bad ip)
                             else bindr (iunlockput dp s8) (\<lambda>s9. bindr (iput ip s9) (end_ret 0))))))))))
       | _ \<Rightarrow> Ok (-1, s)))"

text \<open>The offset is a C \<open>int\<close>: past \<open>2^31 - 1\<close> the source has no defined behaviour.\<close>

function isdirempty_loop :: "nat \<Rightarrow> nat \<Rightarrow> 'a sys_state_scheme \<Rightarrow> (bool \<times> 'a sys_state_scheme) res" where
  "isdirempty_loop dp off s =
     (if off < unat (isize (itable s dp)) \<and> off < 2 ^ 31 then
        bindr (readi dp False (de_addr s) (of_nat off) 16 s) (\<lambda>(r, s1).
          if r \<noteq> 16 then Panic ''isdirempty: readi''
          else if de_inum s1 \<noteq> 0 then Ok (False, s1)
          else isdirempty_loop dp (off + DESIZE) s1)
      else Ok (True, s))"
  by pat_completeness auto
termination
  by (relation "measure (\<lambda>(dp, off, s). 2 ^ 31 - off)") auto

declare isdirempty_loop.simps [simp del]

definition isdirempty :: "nat \<Rightarrow> 'a sys_state_scheme \<Rightarrow> (bool \<times> 'a sys_state_scheme) res" where
  "isdirempty dp s = isdirempty_loop dp (2 * DESIZE) s"

definition lit :: "string \<Rightarrow> cbuf" where
  "lit t i = (if i < length t then of_char (t ! i) else 0)"

definition sys_unlink :: "'a sys_state_scheme \<Rightarrow> (int \<times> 'a sys_state_scheme) res" where
  "sys_unlink s =
     bindr (argpath 0 s) (\<lambda>path.
       case path of
         None \<Rightarrow> Ok (-1, s)
       | Some path \<Rightarrow>
           bindr (begin_op s) (\<lambda>s1.
           bindr (nameiparent path (\<lambda>_. 0) s1) (\<lambda>(dp, name, s2).
             case dp of
               None \<Rightarrow> end_ret (-1) s2
             | Some dp \<Rightarrow>
                 bindr (ilock dp s2) (\<lambda>s3.
                   if namecmp name (lit ''.'') = 0 \<or> namecmp name (lit ''..'') = 0 then end_put (-1) dp s3
                   else bindr (dirlookup dp name s3) (\<lambda>(found, s4).
                     case found of
                       None \<Rightarrow> end_put (-1) dp s4
                     | Some (ip, off) \<Rightarrow>
                         bindr (ilock ip s4) (\<lambda>s5.
                           if sint (nlink (itable s5 ip)) < 1 then Panic ''unlink: nlink < 1''
                           else bindr (if itype (itable s5 ip) = T_DIR then isdirempty ip s5 else Ok (True, s5)) (\<lambda>(empty, s6).
                             if \<not> empty then bindr (iunlockput ip s6) (end_put (-1) dp)
                             else bindr (writei dp False (de_addr s6) (of_nat off) 16
                                 (s6\<lparr>phys := memset (phys s6) (de_addr s6) 0 16\<rparr>)) (\<lambda>(r, s7).
                               if r \<noteq> 16 then Panic ''unlink: writei''
                               else bindr (if itype (itable s7 ip) = T_DIR
                                   then iupdate dp (upd_inode dp (\<lambda>i. i\<lparr>nlink := nlink i - 1\<rparr>) s7) else Ok s7) (\<lambda>s8.
                                 bindr (iunlockput dp s8) (\<lambda>s9.
                                 bindr (iupdate ip (upd_inode ip (\<lambda>i. i\<lparr>nlink := nlink i - 1\<rparr>) s9)) (end_put 0 ip)))))))))))"

section \<open>Creation\<close>

text \<open>\<open>create\<close> returns the inode locked.\<close>

definition create_fail :: "nat \<Rightarrow> nat \<Rightarrow> 'a sys_state_scheme \<Rightarrow> (nat option \<times> 'a sys_state_scheme) res" where
  "create_fail ip dp s =
     bindr (iupdate ip (upd_inode ip (\<lambda>i. i\<lparr>nlink := 0\<rparr>) s)) (\<lambda>s1.
     bindr (iunlockput ip s1) (\<lambda>s2.
     bindr (iunlockput dp s2) (\<lambda>s3. Ok (None, s3))))"

definition create_dots :: "nat \<Rightarrow> nat \<Rightarrow> 'a sys_state_scheme \<Rightarrow> (bool \<times> 'a sys_state_scheme) res" where
  "create_dots ip dp s =
     bindr (dirlink ip (lit ''.'') (inum (itable s ip)) s) (\<lambda>(r, s1).
       if r < 0 then Ok (False, s1)
       else bindr (dirlink ip (lit ''..'') (inum (itable s1 dp)) s1) (\<lambda>(r, s2). Ok (\<not> r < 0, s2)))"

definition create :: "uint8 list \<Rightarrow> uint16 \<Rightarrow> uint16 \<Rightarrow> uint16 \<Rightarrow> 'a sys_state_scheme \<Rightarrow> (nat option \<times> 'a sys_state_scheme) res" where
  "create path type major minor s =
     bindr (nameiparent path (\<lambda>_. 0) s) (\<lambda>(dp, name, s1).
       case dp of
         None \<Rightarrow> Ok (None, s1)
       | Some dp \<Rightarrow>
           bindr (ilock dp s1) (\<lambda>s2.
           bindr (dirlookup dp name s2) (\<lambda>(found, s3).
             case found of
               Some (ip, _) \<Rightarrow>
                 bindr (iunlockput dp s3) (\<lambda>s4.
                 bindr (ilock ip s4) (\<lambda>s5.
                   if type = T_FILE \<and> (itype (itable s5 ip) = T_FILE \<or> itype (itable s5 ip) = T_DEVICE) then Ok (Some ip, s5)
                   else bindr (iunlockput ip s5) (\<lambda>s6. Ok (None, s6))))
             | None \<Rightarrow>
                 bindr (ialloc (idev (itable s3 dp)) type s3) (\<lambda>(ip, s4).
                   case ip of
                     None \<Rightarrow> bindr (iunlockput dp s4) (\<lambda>s5. Ok (None, s5))
                   | Some ip \<Rightarrow>
                       bindr (ilock ip s4) (\<lambda>s5.
                       bindr (iupdate ip (upd_inode ip (\<lambda>i. i\<lparr>imajor := major, iminor := minor, nlink := 1\<rparr>) s5)) (\<lambda>s6.
                       bindr (if type = T_DIR then create_dots ip dp s6 else Ok (True, s6)) (\<lambda>(ok, s7).
                         if \<not> ok then create_fail ip dp s7
                         else bindr (dirlink dp name (inum (itable s7 ip)) s7) (\<lambda>(r, s8).
                           if r < 0 then create_fail ip dp s8
                           else bindr (if type = T_DIR
                               then iupdate dp (upd_inode dp (\<lambda>i. i\<lparr>nlink := nlink i + 1\<rparr>) s8) else Ok s8) (\<lambda>s9.
                             bindr (iunlockput dp s9) (\<lambda>s10. Ok (Some ip, s10)))))))))))"

text \<open>The two ways \<open>sys_open\<close> gets at a locked inode; on failure it has ended the transaction.\<close>

definition open_inode :: "uint8 list \<Rightarrow> uint32 \<Rightarrow> 'a sys_state_scheme \<Rightarrow> (nat option \<times> 'a sys_state_scheme) res" where
  "open_inode path omode s =
     (if omode AND O_CREATE \<noteq> 0 then
        bindr (create path T_FILE 0 0 s) (\<lambda>(ip, s1).
          case ip of None \<Rightarrow> bindr (end_op s1) (\<lambda>s2. Ok (None, s2)) | Some ip \<Rightarrow> Ok (Some ip, s1))
      else
        bindr (namei path s) (\<lambda>(ip, s1).
          case ip of
            None \<Rightarrow> bindr (end_op s1) (\<lambda>s2. Ok (None, s2))
          | Some ip \<Rightarrow>
              bindr (ilock ip s1) (\<lambda>s2.
                if itype (itable s2 ip) = T_DIR \<and> omode \<noteq> 0
                then bindr (end_put (-1) ip s2) (\<lambda>(_, s3). Ok (None, s3)) else Ok (Some ip, s2))))"

definition sys_open :: "'a sys_state_scheme \<Rightarrow> (int \<times> 'a sys_state_scheme) res" where
  "sys_open s =
     bindr (argint 1 s) (\<lambda>omode.
     bindr (argpath 0 s) (\<lambda>path.
       case path of
         None \<Rightarrow> Ok (-1, s)
       | Some path \<Rightarrow>
           bindr (begin_op s) (\<lambda>s1.
           bindr (open_inode path omode s1) (\<lambda>(ip, s2).
             case ip of
               None \<Rightarrow> Ok (-1, s2)
             | Some ip \<Rightarrow>
                 if itype (itable s2 ip) = T_DEVICE \<and> (sint (imajor (itable s2 ip)) < 0 \<or> NDEV \<le> sint (imajor (itable s2 ip)))
                 then end_put (-1) ip s2
                 else
                   let (f, s3) = filealloc s2
                   in case f of
                        None \<Rightarrow> end_put (-1) ip s3
                      | Some f \<Rightarrow>
                          let (fd, s4) = fdalloc f s3
                          in if fd < 0 then bindr (fileclose f s4) (end_put (-1) ip)
                             else
                               let s5 = upd_file f (\<lambda>x. if itype (itable s4 ip) = T_DEVICE
                                     then x\<lparr>ftype := FD_DEVICE, fmajor := imajor (itable s4 ip)\<rparr> else x\<lparr>ftype := FD_INODE, foff := 0\<rparr>) s4;
                                   s6 = upd_file f (\<lambda>x. x\<lparr>fip := ip, freadable := (omode AND O_WRONLY = 0),
                                     fwritable := (omode AND O_WRONLY \<noteq> 0 \<or> omode AND O_RDWR \<noteq> 0)\<rparr>) s5
                               in bindr (if omode AND O_TRUNC \<noteq> 0 \<and> itype (itable s6 ip) = T_FILE then itrunc ip s6 else Ok s6) (\<lambda>s7.
                                  bindr (iunlock ip s7) (end_ret fd))))))"

definition sys_mkdir :: "'a sys_state_scheme \<Rightarrow> (int \<times> 'a sys_state_scheme) res" where
  "sys_mkdir s =
     bindr (begin_op s) (\<lambda>s1.
     bindr (argpath 0 s1) (\<lambda>path.
     bindr (case path of None \<Rightarrow> Ok (None, s1) | Some path \<Rightarrow> create path T_DIR 0 0 s1) (\<lambda>(ip, s2).
       case ip of None \<Rightarrow> end_ret (-1) s2 | Some ip \<Rightarrow> end_put 0 ip s2)))"

definition sys_mknod :: "'a sys_state_scheme \<Rightarrow> (int \<times> 'a sys_state_scheme) res" where
  "sys_mknod s =
     bindr (begin_op s) (\<lambda>s1.
     bindr (argint 1 s1) (\<lambda>major.
     bindr (argint 2 s1) (\<lambda>minor.
     bindr (argpath 0 s1) (\<lambda>path.
     bindr (case path of None \<Rightarrow> Ok (None, s1) | Some path \<Rightarrow> create path T_DEVICE (ucast major) (ucast minor) s1) (\<lambda>(ip, s2).
       case ip of None \<Rightarrow> end_ret (-1) s2 | Some ip \<Rightarrow> end_put 0 ip s2)))))"

definition sys_chdir :: "'a sys_state_scheme \<Rightarrow> (int \<times> 'a sys_state_scheme) res" where
  "sys_chdir s =
     bindr (begin_op s) (\<lambda>s1.
     bindr (argpath 0 s1) (\<lambda>path.
     bindr (case path of None \<Rightarrow> Ok (None, s1) | Some path \<Rightarrow> namei path s1) (\<lambda>(ip, s2).
       case ip of
         None \<Rightarrow> end_ret (-1) s2
       | Some ip \<Rightarrow>
           bindr (ilock ip s2) (\<lambda>s3.
             if itype (itable s3 ip) \<noteq> T_DIR then end_put (-1) ip s3
             else bindr (iunlock ip s3) (\<lambda>s4.
               case cwd (myproc s4) of
                 None \<Rightarrow> Panic ''kerneltrap''
               | Some k \<Rightarrow>
                   bindr (iput k s4) (\<lambda>s5.
                   bindr (end_op s5) (\<lambda>s6. Ok (0, upd_proc (cur s6) (\<lambda>p. p\<lparr>cwd := Some ip\<rparr>) s6))))))))"

section \<open>Pipes\<close>

definition close_both :: "nat \<Rightarrow> nat \<Rightarrow> 'a sys_state_scheme \<Rightarrow> (int \<times> 'a sys_state_scheme) res" where
  "close_both rfile wfile s = bindr (fileclose rfile s) (\<lambda>s1. bindr (fileclose wfile s1) (\<lambda>s2. Ok (-1, s2)))"

definition sys_pipe :: "'a sys_state_scheme \<Rightarrow> (int \<times> 'a sys_state_scheme) res" where
  "sys_pipe s =
     bindr (argaddr 0 s) (\<lambda>fdarray.
     bindr (pipealloc s) (\<lambda>(fs, s1).
       case fs of
         None \<Rightarrow> Ok (-1, s1)
       | Some (rfile, wfile) \<Rightarrow>
           let (fd0, s2) = fdalloc rfile s1
           in if fd0 < 0 then close_both rfile wfile s2
              else
                let (fd1, s3) = fdalloc wfile s2
                in if fd1 < 0 then close_both rfile wfile (set_ofile (nat fd0) None s3)
                   else
                     let pt = pagetable (myproc s3); sz = psz (myproc s3)
                     in bindr (copyout pt sz pt fdarray (int_bytes fd0) s3) (\<lambda>(r0, s4).
                        bindr (if r0 < 0 then Ok (r0, s4) else copyout pt sz pt (fdarray + 4) (int_bytes fd1) s4) (\<lambda>(r1, s5).
                          if r1 < 0 then close_both rfile wfile (set_ofile (nat fd1) None (set_ofile (nat fd0) None s5))
                          else Ok (0, s5)))))"

end
