(* ===== verification/XvExec.thy ===== *)
theory XvExec
  imports XvSysfile
begin

text \<open>
  kernel/exec.c, \<open>sys_exec\<close> of kernel/sysfile.c and \<open>syscall\<close> of kernel/syscall.c. The locals \<open>elf\<close> and \<open>ph\<close> of
  \<open>exec\<close> live at the addresses \<open>elf_addr\<close> and \<open>ph_addr\<close> of the kernel stack. The argument vector is the list of the
  pointers before the null pointer.
\<close>

section \<open>Executable files\<close>

abbreviation (input) ELF_MAGIC :: uint32 where "ELF_MAGIC \<equiv> 0x464C457F"
abbreviation (input) ELF_PROG_LOAD :: uint32 where "ELF_PROG_LOAD \<equiv> 1"
abbreviation (input) MAXARG :: nat where "MAXARG \<equiv> 32"
abbreviation (input) USERSTACK :: uint64 where "USERSTACK \<equiv> 1"
abbreviation (input) TF_EPC :: uint64 where "TF_EPC \<equiv> 24"
abbreviation (input) TF_SP :: uint64 where "TF_SP \<equiv> 48"
abbreviation (input) TF_A1 :: uint64 where "TF_A1 \<equiv> 120"
abbreviation (input) TF_A7 :: uint64 where "TF_A7 \<equiv> 168"

record exec_state = sys_state +
  elf_addr :: uint64
  ph_addr :: uint64

definition ld16 :: "memory \<Rightarrow> uint64 \<Rightarrow> uint16" where
  "ld16 m a = ucast (m a) OR push_bit 8 (ucast (m (a + 1)))"

definition ld32 :: "memory \<Rightarrow> uint64 \<Rightarrow> uint32" where
  "ld32 m a = ucast (ld16 m a) OR push_bit 16 (ucast (ld16 m (a + 2)))"

record elfhdr =
  emagic :: uint32
  eentry :: uint64
  ephoff :: uint64
  ephnum :: uint16

record proghdr =
  phtype :: uint32
  phflags :: uint32
  phoff :: uint64
  vaddr :: uint64
  filesz :: uint64
  memsz :: uint64

definition get_elf :: "memory \<Rightarrow> uint64 \<Rightarrow> elfhdr" where
  "get_elf m a = \<lparr>emagic = ld32 m a, eentry = ld64 m (a + 24), ephoff = ld64 m (a + 32), ephnum = ld16 m (a + 56)\<rparr>"

definition get_ph :: "memory \<Rightarrow> uint64 \<Rightarrow> proghdr" where
  "get_ph m a = \<lparr>phtype = ld32 m a, phflags = ld32 m (a + 4), phoff = ld64 m (a + 8), vaddr = ld64 m (a + 16),
     filesz = ld64 m (a + 32), memsz = ld64 m (a + 40)\<rparr>"

definition flags2perm :: "uint32 \<Rightarrow> uint64" where
  "flags2perm flags = (if flags AND 1 \<noteq> 0 then PTE_X else 0) OR (if flags AND 2 \<noteq> 0 then PTE_W else 0)"

text \<open>When the counter of \<open>loadseg\<close> wraps around, the loop starts over and does not end.\<close>

function loadseg_loop :: "uint64 \<Rightarrow> uint64 \<Rightarrow> nat \<Rightarrow> uint32 \<Rightarrow> uint32 \<Rightarrow> uint32 \<Rightarrow> 'a exec_state_scheme \<Rightarrow>
    (int \<times> 'a exec_state_scheme) res" where
  "loadseg_loop pt va ip off sz i s =
     (if i < sz then
        bindr (walkaddr pt (va + ucast i) s) (\<lambda>pa.
          if pa = 0 then Panic ''loadseg: address should exist''
          else let n = (if sz - i < 4096 then sz - i else 4096)
            in bindr (readi ip False pa (off + i) n s) (\<lambda>(r, s1).
              if r \<noteq> int (unat n) then Ok (-1, s1)
              else if i + 4096 < i then Diverge
              else loadseg_loop pt va ip off sz (i + 4096) s1))
      else Ok (0, s))"
  by pat_completeness auto
termination
proof (relation "measure (\<lambda>(pt, va, ip, off, sz, i, s). 2 ^ 32 - unat i)", goal_cases)
  case (2 pt va ip off sz i s)
  then have "i \<noteq> i + 4096" "\<not> i + 4096 < i" by simp_all
  then have "unat i < unat (i + 4096)" unfolding word_less_nat_alt [symmetric] by (meson linorder_neqE)
  then show ?case
    using unsigned_less [of "i + 4096", where ?'a = nat] by simp
qed simp

declare loadseg_loop.simps [simp del]

definition loadseg :: "uint64 \<Rightarrow> uint64 \<Rightarrow> nat \<Rightarrow> uint32 \<Rightarrow> uint32 \<Rightarrow> 'a exec_state_scheme \<Rightarrow> (int \<times> 'a exec_state_scheme) res" where
  "loadseg pt va ip off sz s = loadseg_loop pt va ip off sz 0 s"

text \<open>The loop over the program headers returns the size of the image, and whether all segments were loaded.\<close>

function exec_load :: "uint64 \<Rightarrow> nat \<Rightarrow> nat \<Rightarrow> uint32 \<Rightarrow> uint64 \<Rightarrow> 'a exec_state_scheme \<Rightarrow> (bool \<times> uint64 \<times> 'a exec_state_scheme) res" where
  "exec_load pt ip i off sz s =
     (if i < unat (ephnum (get_elf (phys s) (elf_addr s))) then
        bindr (readi ip False (ph_addr s) off 56 s) (\<lambda>(r, s1).
          if r \<noteq> 56 then Ok (False, sz, s1)
          else let ph = get_ph (phys s1) (ph_addr s1)
            in if phtype ph \<noteq> ELF_PROG_LOAD then exec_load pt ip (Suc i) (off + 56) sz s1
               else if memsz ph < filesz ph \<or> vaddr ph + memsz ph < vaddr ph \<or> vaddr ph mod PGSIZE \<noteq> 0 then Ok (False, sz, s1)
               else bindr (uvmalloc pt sz (vaddr ph + memsz ph) (flags2perm (phflags ph)) s1) (\<lambda>(sz1, s2).
                 if sz1 = 0 then Ok (False, sz, s2)
                 else bindr (loadseg pt (vaddr ph) ip (ucast (phoff ph)) (ucast (filesz ph)) s2) (\<lambda>(r, s3).
                   if r < 0 then Ok (False, sz1, s3) else exec_load pt ip (Suc i) (off + 56) sz1 s3)))
      else Ok (True, sz, s))"
  by pat_completeness auto
termination
proof (relation "measure (\<lambda>(pt, ip, i, off, sz, s). 2 ^ 16 - i)", goal_cases)
  case (2 pt ip i off sz s)
  then show ?case using unsigned_less [of "ephnum (get_elf (phys s) (elf_addr s))", where ?'a = nat] by simp
next
  case (3 pt ip i off sz s)
  then show ?case using unsigned_less [of "ephnum (get_elf (phys s) (elf_addr s))", where ?'a = nat] by simp
qed simp

declare exec_load.simps [simp del]

section \<open>exec\<close>

definition exec_bad :: "uint64 \<Rightarrow> uint64 \<Rightarrow> nat option \<Rightarrow> 'a exec_state_scheme \<Rightarrow> (int \<times> 'a exec_state_scheme) res" where
  "exec_bad pt sz ip s =
     bindr (if pt \<noteq> 0 then proc_freepagetable pt sz s else Ok s) (\<lambda>s1.
       case ip of None \<Rightarrow> Ok (-1, s1) | Some ip \<Rightarrow> end_put (-1) ip s1)"

definition align16 :: "uint64 \<Rightarrow> uint64" where
  "align16 sp = sp - sp mod 16"

text \<open>The argument strings are copied to the stack; the result is the stack pointer and the pointers pushed, or
  \<open>None\<close> when there are too many, or no room for them.\<close>

fun push_args :: "uint64 \<Rightarrow> uint64 \<Rightarrow> uint64 list \<Rightarrow> uint64 list \<Rightarrow> uint64 \<Rightarrow> 'a exec_state_scheme \<Rightarrow>
    ((uint64 \<times> uint64 list) option \<times> 'a exec_state_scheme) res" where
  "push_args pt stackbase [] ustack sp s = Ok (Some (sp, ustack), s)"
| "push_args pt stackbase (a # argv) ustack sp s =
     (if MAXARG \<le> length ustack then Ok (None, s)
      else let n = strlen (cptr (phys s) a) + 1; sp1 = align16 (sp - of_nat n)
        in if sp1 < stackbase then Ok (None, s)
           else bindr (copyout (pagetable (myproc s)) (psz (myproc s)) pt sp1 (rd_bytes (phys s) a n) s) (\<lambda>(r, s1).
             if r < 0 then Ok (None, s1) else push_args pt stackbase argv (ustack @ [sp1]) sp1 s1))"

definition u64_bytes :: "uint64 \<Rightarrow> uint8 list" where
  "u64_bytes v = map (\<lambda>k. ucast (drop_bit (8 * k) v)) [0..<8]"

definition last_elem :: "uint8 list \<Rightarrow> uint8 list" where
  "last_elem path = rev (takeWhile (\<lambda>c. c \<noteq> SLASH) (rev path))"

definition cstr_of :: "uint8 list \<Rightarrow> cbuf" where
  "cstr_of bs i = (if i < length bs then bs ! i else 0)"

text \<open>From the point where the new image replaces the old one.\<close>

definition exec_commit :: "uint8 list \<Rightarrow> uint64 \<Rightarrow> uint64 \<Rightarrow> uint64 \<Rightarrow> uint64 \<Rightarrow> nat \<Rightarrow> 'a exec_state_scheme \<Rightarrow> (int \<times> 'a exec_state_scheme) res" where
  "exec_commit path pt sz sp oldsz argc s =
     (let tf = trapframe (myproc s);
          s1 = s\<lparr>phys := st64 (phys s) (tf + TF_A1) sp\<rparr>;
          s2 = upd_proc (cur s1) (\<lambda>p. p\<lparr>pname := safestrcpy (pname p) (cstr_of (last_elem path)) 16\<rparr>) s1;
          oldpt = pagetable (myproc s2);
          s3 = upd_proc (cur s2) (\<lambda>p. p\<lparr>pagetable := pt, psz := sz\<rparr>) s2;
          s4 = s3\<lparr>phys := st64 (st64 (phys s3) (tf + TF_EPC) (eentry (get_elf (phys s3) (elf_addr s3)))) (tf + TF_SP) sp\<rparr>
      in bindr (proc_freepagetable oldpt oldsz s4) (\<lambda>s5. Ok (int argc, s5)))"

definition exec_stack :: "uint8 list \<Rightarrow> uint64 list \<Rightarrow> uint64 \<Rightarrow> uint64 \<Rightarrow> 'a exec_state_scheme \<Rightarrow> (int \<times> 'a exec_state_scheme) res" where
  "exec_stack path argv pt sz0 s =
     (let oldsz = psz (myproc s); sz = PGROUNDUP sz0
      in bindr (uvmalloc pt sz (sz + (USERSTACK + 1) * PGSIZE) PTE_W s) (\<lambda>(sz1, s1).
        if sz1 = 0 then exec_bad pt sz None s1
        else bindr (uvmclear pt (sz1 - (USERSTACK + 1) * PGSIZE) s1) (\<lambda>s2.
          let stackbase = sz1 - USERSTACK * PGSIZE
          in bindr (push_args pt stackbase argv [] sz1 s2) (\<lambda>(r, s3).
            case r of
              None \<Rightarrow> exec_bad pt sz1 None s3
            | Some (sp, ustack) \<Rightarrow>
                let bs = concat (map u64_bytes (ustack @ [0])); sp1 = align16 (sp - of_nat (length bs))
                in if sp1 < stackbase then exec_bad pt sz1 None s3
                   else bindr (copyout (pagetable (myproc s3)) (psz (myproc s3)) pt sp1 bs s3) (\<lambda>(r, s4).
                     if r < 0 then exec_bad pt sz1 None s4
                     else exec_commit path pt sz1 sp1 oldsz (length ustack) s4)))))"

definition exec :: "uint8 list \<Rightarrow> uint64 list \<Rightarrow> 'a exec_state_scheme \<Rightarrow> (int \<times> 'a exec_state_scheme) res" where
  "exec path argv s =
     bindr (begin_op s) (\<lambda>s1.
     bindr (namei path s1) (\<lambda>(ip, s2).
       case ip of
         None \<Rightarrow> end_ret (-1) s2
       | Some ip \<Rightarrow>
           bindr (ilock ip s2) (\<lambda>s3.
           bindr (readi ip False (elf_addr s3) 0 64 s3) (\<lambda>(r, s4).
             if r \<noteq> 64 \<or> emagic (get_elf (phys s4) (elf_addr s4)) \<noteq> ELF_MAGIC then exec_bad 0 0 (Some ip) s4
             else bindr (proc_pagetable (trapframe (myproc s4)) s4) (\<lambda>(pt, s5).
               if pt = 0 then exec_bad 0 0 (Some ip) s5
               else bindr (exec_load pt ip 0 (ucast (ephoff (get_elf (phys s5) (elf_addr s5)))) 0 s5) (\<lambda>(ok, sz, s6).
                 if \<not> ok then exec_bad pt sz (Some ip) s6
                 else bindr (iunlockput ip s6) (\<lambda>s7.
                   bindr (end_op s7) (exec_stack path argv pt sz))))))))"

section \<open>sys_exec\<close>

text \<open>The copies of the argument strings, each in a page of its own, and whether the vector was complete.\<close>

fun fetch_args :: "nat \<Rightarrow> uint64 \<Rightarrow> uint64 list \<Rightarrow> 'a exec_state_scheme \<Rightarrow> (bool \<times> uint64 list \<times> 'a exec_state_scheme) res" where
  "fetch_args 0 uargv argv s = Ok (False, argv, s)"
| "fetch_args (Suc n) uargv argv s =
     bindr (fetchaddr (uargv + 8 * of_nat (length argv)) s) (\<lambda>(r, bs, s1).
       if r < 0 then Ok (False, argv, s1)
       else let uarg = ld64 (wr_bytes (\<lambda>_. 0) 0 bs) 0
         in if uarg = 0 then Ok (True, argv, s1)
            else bindr (kalloc s1) (\<lambda>(a, s2).
              if a = 0 then Ok (False, argv, s2)
              else bindr (fetchstr uarg 4096 s2) (\<lambda>(r, bs).
                let s3 = s2\<lparr>phys := wr_bytes (phys s2) a bs\<rparr>
                in if r < 0 then Ok (False, argv @ [a], s3) else fetch_args n uargv (argv @ [a]) s3)))"

definition sys_exec :: "'a exec_state_scheme \<Rightarrow> (int \<times> 'a exec_state_scheme) res" where
  "sys_exec s =
     bindr (argaddr 1 s) (\<lambda>uargv.
     bindr (argpath 0 s) (\<lambda>path.
       case path of
         None \<Rightarrow> Ok (-1, s)
       | Some path \<Rightarrow>
           bindr (fetch_args MAXARG uargv [] s) (\<lambda>(ok, argv, s1).
           bindr (if ok then exec path argv s1 else Ok (-1, s1)) (\<lambda>(ret, s2).
           bindr (foldM kfree argv s2) (\<lambda>s3. Ok (ret, s3))))))"

section \<open>syscall\<close>

text \<open>The table of the system calls. A call that sleeps, and \<open>exit\<close>, which does not come back, is \<open>Block\<close>.\<close>

definition ret64 :: "(int \<times> 's) res \<Rightarrow> (uint64 \<times> 's) res" where
  "ret64 r = bindr r (\<lambda>(v, s). Ok (word_of_int v, s))"

definition syscalls :: "nat \<Rightarrow> 'a exec_state_scheme \<Rightarrow> (uint64 \<times> 'a exec_state_scheme) res option" where
  "syscalls n s = map_option (\<lambda>f. f s) (map_of
     [(1, \<lambda>s. ret64 (sys_fork s)), (2, \<lambda>s. bindr (sys_exit s) (\<lambda>_. Block)), (3, \<lambda>s. ret64 (finish (sys_wait s))),
      (4, \<lambda>s. ret64 (sys_pipe s)), (5, \<lambda>s. ret64 (sys_read s)), (6, \<lambda>s. ret64 (sys_kill s)), (7, \<lambda>s. ret64 (sys_exec s)),
      (8, \<lambda>s. ret64 (sys_fstat s)), (9, \<lambda>s. ret64 (sys_chdir s)), (10, \<lambda>s. ret64 (sys_dup s)),
      (11, \<lambda>s. Ok (word_of_int (sys_getpid s), s)), (12, sys_sbrk), (13, \<lambda>s. ret64 (finish (sys_sleep s))),
      (14, \<lambda>s. Ok (ucast (sys_uptime s), s)), (15, \<lambda>s. ret64 (sys_open s)), (16, \<lambda>s. ret64 (sys_write s)),
      (17, \<lambda>s. ret64 (sys_mknod s)), (18, \<lambda>s. ret64 (sys_unlink s)), (19, \<lambda>s. ret64 (sys_link s)),
      (20, \<lambda>s. ret64 (sys_mkdir s)), (21, \<lambda>s. ret64 (sys_close s)), (22, \<lambda>s. ret64 (sys_sem_init s)),
      (23, \<lambda>s. ret64 (finish (sys_sem_down s))), (24, \<lambda>s. ret64 (sys_sem_up s)), (25, sys_shm_get)] n)"

definition set_a0 :: "uint64 \<Rightarrow> 'a exec_state_scheme \<Rightarrow> 'a exec_state_scheme" where
  "set_a0 v s = s\<lparr>phys := st64 (phys s) (trapframe (myproc s) + TF_A0) v\<rparr>"

definition syscall :: "'a exec_state_scheme \<Rightarrow> 'a exec_state_scheme res" where
  "syscall s =
     (let num = sint (ucast (ld64 (phys s) (trapframe (myproc s) + TF_A7)) :: uint32)
      in case (if 0 < num then syscalls (nat num) s else None) of
           Some r \<Rightarrow> bindr r (\<lambda>(v, s1). Ok (set_a0 v s1))
         | None \<Rightarrow>
             bindr (printf (cbytes ''%d %s: unknown sys call %d'' @ [10])
                 [VWord (word_of_int (pid (myproc s))), VStr (Some (cstr (pname (myproc s)) 16)), VWord (word_of_int num)] s)
               (\<lambda>s1. Ok (set_a0 (-1) s1)))"

end
