(* ===== verification/XvFrame.thy ===== *)
theory XvFrame
  imports XvExec
begin

text \<open>
  What the routines below the system calls leave alone: the open files of every process, which slots of the
  process table are dead, the current process, and the state of the layers above the file system.
\<close>

named_theorems frame

section \<open>The view\<close>

definition dead :: "proc \<Rightarrow> bool" where
  "dead p \<longleftrightarrow> state p = UNUSED \<or> state p = ZOMBIE"

definition view :: "'a fs_state_scheme \<Rightarrow> 'a \<times> nat \<times> (nat \<Rightarrow> (nat \<Rightarrow> nat option) \<times> bool)" where
  "view s = (fs_state.more s, cur s, (\<lambda>i. (ofile (procs s i), dead (procs s i))))"

lemma view_keeps:
  fixes s s' :: "'a fs_state_scheme"
  shows "keeps s s' \<Longrightarrow> view s' = view s"
  by (cases s; cases s') (simp add: view_def)

lemma view_simps [simp]:
  fixes s :: "'a fs_state_scheme"
  shows "view (s\<lparr>phys := a1\<rparr>) = view s" "view (s\<lparr>slocks := a2\<rparr>) = view s" "view (s\<lparr>sems := a3\<rparr>) = view s"
    "view (s\<lparr>bufs := a4\<rparr>) = view s" "view (s\<lparr>lru := a5\<rparr>) = view s" "view (s\<lparr>disk := a6\<rparr>) = view s"
    "view (s\<lparr>lh_n := a7\<rparr>) = view s" "view (s\<lparr>lh_block := a8\<rparr>) = view s" "view (s\<lparr>outstanding := a9\<rparr>) = view s"
    "view (s\<lparr>committing := b1\<rparr>) = view s" "view (s\<lparr>itable := b2\<rparr>) = view s" "view (s\<lparr>shared_page := b3\<rparr>) = view s"
    "view (s\<lparr>shm_allocated := b4\<rparr>) = view s" "view (s\<lparr>pipes := b5\<rparr>) = view s" "view (s\<lparr>initproc := b6\<rparr>) = view s"
    "view (s\<lparr>nextpid := b7\<rparr>) = view s" "view (s\<lparr>ulsr_n := b8\<rparr>) = view s" "view (s\<lparr>uwrites := b9\<rparr>) = view s"
    "view (s\<lparr>uart_tx_r := c1\<rparr>) = view s" "view (s\<lparr>uart_tx_w := c2\<rparr>) = view s" "view (s\<lparr>uart_tx_buf := c3\<rparr>) = view s"
    "view (s\<lparr>cons_r := c4\<rparr>) = view s"
  by (simp_all add: view_def)

lemma view_wakeup [simp]: "view (wakeup ch s) = view s"
  by (auto simp: view_def wakeup_def dead_def fun_eq_iff)

lemma view_ops [simp]:
  fixes s :: "'a fs_state_scheme"
  shows "view (releasesleep l s) = view s" "view (upd_buf i f s) = view s"
    "view (upd_data i g s) = view s" "view (bpin i s) = view s" "view (bunpin i s) = view s" "view (upd_inode k h s) = view s"
    "view (idup k s) = view s" "view (upd_pipe pi u s) = view s" "view (zero_page p s) = view s"
    "view (virtio_disk_rw i w s) = view s" "view (put_dirent nm k2 s) = view s"
  by (simp_all add: releasesleep_def upd_buf_def upd_data_def bpin_def bunpin_def upd_inode_def idup_def
      upd_pipe_def zero_page_def virtio_disk_rw_def put_dirent_def Let_def)

section \<open>Memory\<close>

lemma view_mem [frame]:
  fixes s s' :: "'a fs_state_scheme"
  shows "kalloc s = Ok (p, s') \<Longrightarrow> view s' = view s" "kfree p s = Ok s' \<Longrightarrow> view s' = view s"
    "copyout ppt psz0 pt va src s = Ok (r, s') \<Longrightarrow> view s' = view s"
    "copyin ppt psz0 pt va len s = Ok (r, bs, s') \<Longrightarrow> view s' = view s"
    "mappages pt va sz pa perm s = Ok (r, s') \<Longrightarrow> view s' = view s"
    "proc_pagetable tf s = Ok (pt, s') \<Longrightarrow> view s' = view s"
    "proc_freepagetable pt sz s = Ok s' \<Longrightarrow> view s' = view s"
    "uvmcopy old new sz s = Ok (r, s') \<Longrightarrow> view s' = view s"
  by (blast dest: keeps_kalloc keeps_kfree keeps_copyout keeps_copyin keeps_mappages keeps_proc_pagetable
      keeps_proc_freepagetable keeps_uvmcopy intro: view_keeps)+

lemma view_either [frame]:
  fixes s s' :: "'a fs_state_scheme"
  shows "either_copyout u dst src s = Ok (r, s') \<Longrightarrow> view s' = view s"
    "either_copyin u sr len s = Ok (r, bs, s') \<Longrightarrow> view s' = view s"
  by (auto simp: either_copyout_def either_copyin_def Let_def split: if_splits dest: frame)

lemma view_foldM:
  fixes s s' :: "'a fs_state_scheme"
  assumes "foldM f xs s = Ok s'" and "\<And>x t t'. f x t = Ok t' \<Longrightarrow> view t' = view t"
  shows "view s' = view s"
  by (rule foldM_keep [where P = "\<lambda>t. view t = view s", OF assms(1)]) (auto dest: assms(2))

lemma view_uart [frame]:
  fixes s s' :: "'a fs_state_scheme"
  shows "uartputc_sync c s = Ok s' \<Longrightarrow> view s' = view s" "consputc c s = Ok s' \<Longrightarrow> view s' = view s"
  by (auto simp: consputc_def uartputc_sync_def WriteReg_def split: if_splits option.splits)

lemma view_printf [frame]:
  fixes s s' :: "'a fs_state_scheme"
  shows "printf fmt ap s = Ok s' \<Longrightarrow> view s' = view s"
  by (auto simp: printf_def split: option.splits intro: view_foldM frame)

section \<open>Buffers and log\<close>

lemma view_bread [frame]:
  fixes s s' :: "'a fs_state_scheme"
  shows "bread d b s = Ok (i, s') \<Longrightarrow> view s' = view s"
  by (auto simp: bread_def bget_def lock_buf_def acquiresleep_def split: if_splits option.splits)

lemma view_bwrite [frame]:
  fixes s s' :: "'a fs_state_scheme"
  shows "bwrite i s = Ok s' \<Longrightarrow> view s' = view s" "brelse i s = Ok s' \<Longrightarrow> view s' = view s"
    "log_write i s = Ok s' \<Longrightarrow> view s' = view s"
  by (auto simp: bwrite_def brelse_def log_write_def Let_def split: if_splits)

lemma view_log [frame]:
  fixes s s' :: "'a fs_state_scheme"
  shows "write_head s = Ok s' \<Longrightarrow> view s' = view s" "write_log s = Ok s' \<Longrightarrow> view s' = view s"
    "install_trans rec s = Ok s' \<Longrightarrow> view s' = view s"
proof -
  show "write_head s = Ok s' \<Longrightarrow> view s' = view s"
    by (auto simp: write_head_def dest!: frame)
  show "write_log s = Ok s' \<Longrightarrow> view s' = view s"
    unfolding write_log_def by (erule view_foldM) (auto simp: write_log_one_def dest!: frame)
  show "install_trans rec s = Ok s' \<Longrightarrow> view s' = view s"
    unfolding install_trans_def by (erule view_foldM) (auto simp: install_one_def split: if_splits dest!: frame)
qed

lemma view_ops_log [frame]:
  fixes s s' :: "'a fs_state_scheme"
  shows "begin_op s = Ok s' \<Longrightarrow> view s' = view s" "end_op s = Ok s' \<Longrightarrow> view s' = view s"
  by (auto simp: begin_op_def end_op_def commit_def Let_def split: if_splits dest!: frame)

section \<open>File system\<close>

lemma view_bzero [frame]:
  fixes s s' :: "'a fs_state_scheme"
  shows "bzero d b s = Ok s' \<Longrightarrow> view s' = view s" "bfree d b s = Ok s' \<Longrightarrow> view s' = view s"
    "iupdate k s = Ok s' \<Longrightarrow> view s' = view s" "iget d n s = Ok (j, s') \<Longrightarrow> view s' = view s"
  by (auto simp: bzero_def bfree_def iupdate_def iget_def Let_def split: if_splits option.splits dest!: frame)

lemma view_balloc_loop:
  fixes s s' :: "'a fs_state_scheme"
  shows "balloc_loop d n b s = Ok (r, s') \<Longrightarrow> view s' = view s"
proof (induction d n b s rule: balloc_loop.induct)
  case (1 d n b s)
  note eq = "1.prems" [unfolded balloc_loop.simps [of d n b s]]
  show ?case
  proof (cases "b < n")
    case True
    with eq obtain i s1 where 1: "bread d (BBLOCK (of_nat b) (sb s)) s = Ok (i, s1)" by auto
    let ?f = "find (\<lambda>bi. bdata (bufs s1 i) (bi div 8) AND bit_mask bi = 0) [0..<min BPB (n - b)]"
    show ?thesis
    proof (cases ?f)
      case None
      with eq True 1 obtain s2 where 2: "brelse i s1 = Ok s2" "balloc_loop d n (b + BPB) s2 = Ok (r, s')" by auto
      from "1.IH" [OF True 1 refl None 2] 1 2(1) show ?thesis by (auto dest!: frame)
    next
      case (Some bi)
      with eq True 1 show ?thesis by (auto dest!: frame)
    qed
  next
    case False
    with eq show ?thesis by (auto dest!: frame)
  qed
qed

lemma view_ialloc_loop:
  fixes s s' :: "'a fs_state_scheme"
  shows "ialloc_loop d ty n k s = Ok (r, s') \<Longrightarrow> view s' = view s"
proof (induction d ty n k s rule: ialloc_loop.induct)
  case (1 d ty n k s)
  note eq = "1.prems" [unfolded ialloc_loop.simps [of d ty n k s] Let_def]
  show ?case
  proof (cases "k < n")
    case True
    with eq obtain i s1 where 1: "bread d (IBLOCK (of_nat k) (sb s)) s = Ok (i, s1)" by auto
    show ?thesis
    proof (cases "bld16 (bdata (bufs s1 i)) (dinode_off (of_nat k)) = 0")
      case False
      with eq True 1 obtain s2 where 2: "brelse i s1 = Ok s2" "ialloc_loop d ty n (Suc k) s2 = Ok (r, s')" by auto
      from "1.IH" [OF True 1 refl refl False 2] 1 2(1) show ?thesis by (auto dest!: frame)
    next
      case t: True
      with eq True 1 show ?thesis by (auto dest!: frame)
    qed
  next
    case False
    with eq show ?thesis by (auto dest!: frame)
  qed
qed

lemma view_alloc [frame]:
  fixes s s' :: "'a fs_state_scheme"
  shows "balloc d s = Ok (r, s') \<Longrightarrow> view s' = view s" "ialloc d ty s = Ok (q, s') \<Longrightarrow> view s' = view s"
  by (auto simp: balloc_def ialloc_def dest: view_balloc_loop view_ialloc_loop)

lemma view_ilock [frame]:
  fixes s s' :: "'a fs_state_scheme"
  shows "ilock k s = Ok s' \<Longrightarrow> view s' = view s" "iunlock k s = Ok s' \<Longrightarrow> view s' = view s"
  by (auto simp: ilock_def iunlock_def acquiresleep_def Let_def split: if_splits dest!: frame)

lemma view_itrunc [frame]:
  fixes s s' :: "'a fs_state_scheme"
  assumes "itrunc k s = Ok s'"
  shows "view s' = view s"
proof -
  have d: "view t' = view t" if "foldM (itrunc_direct k) xs t = Ok t'" for xs and t t' :: "'a fs_state_scheme"
    using that by (rule view_foldM) (auto simp: itrunc_direct_def split: if_splits dest!: frame)
  have i: "view t' = view t" if "foldM (\<lambda>j s. let a = bld32 (bdata (bufs s i)) (4 * j)
      in if a \<noteq> 0 then bfree (idev (itable s k)) a s else Ok s) xs t = Ok t'" for xs i and t t' :: "'a fs_state_scheme"
    using that by (rule view_foldM) (auto simp: Let_def split: if_splits dest!: frame)
  show ?thesis
    using assms unfolding itrunc_def by (auto split: if_splits dest!: d i frame)
qed

lemma view_iput [frame]:
  fixes s s' :: "'a fs_state_scheme"
  shows "iput k s = Ok s' \<Longrightarrow> view s' = view s"
  by (auto simp: iput_def acquiresleep_def split: if_splits dest!: frame)

lemma view_iunlockput [frame]:
  fixes s s' :: "'a fs_state_scheme"
  shows "iunlockput k s = Ok s' \<Longrightarrow> view s' = view s"
  by (auto simp: iunlockput_def dest!: frame)

lemma view_bmap [frame]:
  fixes s s' :: "'a fs_state_scheme"
  assumes "bmap k bn s = Ok (a, s')"
  shows "view s' = view s"
proof (cases "bn < NDIRECT")
  case True
  with assms show ?thesis by (auto simp: bmap_def Let_def split: if_splits dest!: frame)
next
  case False
  let ?ind = "if addrs (itable s k) NDIRECT = 0 then bindr (balloc (idev (itable s k)) s) (\<lambda>(addr, s1).
      if addr = 0 then Ok (0, s1) else Ok (addr, upd_inode k (\<lambda>ip. ip\<lparr>addrs := (addrs ip)(NDIRECT := addr)\<rparr>) s1))
    else Ok (addrs (itable s k) NDIRECT, s)"
  let ?slot = "\<lambda>i t. if bld32 (bdata (bufs t i)) (4 * (bn - NDIRECT)) = 0
    then bindr (balloc (idev (itable t k)) t) (\<lambda>(addr, s4). if addr \<noteq> 0
      then bindr (log_write i (upd_data i (bst32 (4 * (bn - NDIRECT)) addr) s4)) (\<lambda>s5. Ok (addr, s5)) else Ok (0, s4))
    else Ok (bld32 (bdata (bufs t i)) (4 * (bn - NDIRECT)), t)"
  have 1: "view t = view s" if "?ind = Ok (x, t)" for x t
    using that by (auto split: if_splits dest!: frame)
  have 2: "view t' = view t" if "?slot i t = Ok (x, t')" for i x and t t' :: "'a fs_state_scheme"
    using that by (auto split: if_splits dest!: frame)
  have "bn - NDIRECT < NINDIRECT" using assms False by (auto simp: bmap_def split: if_splits)
  with assms False obtain x s2 where s2: "?ind = Ok (x, s2)" and
    rest: "(if x = 0 then Ok (0, s2) else bindr (bread (idev (itable s2 k)) x s2) (\<lambda>(i, s3).
      bindr (?slot i s3) (\<lambda>(addr, s6). bindr (brelse i s6) (\<lambda>s7. Ok (addr, s7))))) = Ok (a, s')"
    unfolding bmap_def Let_def by auto
  show ?thesis
  proof (cases "x = 0")
    case True
    with rest 1 [OF s2] show ?thesis by simp
  next
    case False
    with rest obtain i s3 y s6 where
      b: "bread (idev (itable s2 k)) x s2 = Ok (i, s3)" "?slot i s3 = Ok (y, s6)" "brelse i s6 = Ok s'" by auto
    show ?thesis
      using view_bread [OF b(1)] 2 [OF b(2)] view_bwrite(2) [OF b(3)] 1 [OF s2] by simp
  qed
qed

lemma view_readi_loop:
  fixes s s' :: "'a fs_state_scheme"
  shows "readi_loop k u dst off n tot s = Ok (r, s') \<Longrightarrow> view s' = view s"
proof (induction k u dst off n tot s rule: readi_loop.induct)
  case (1 k u dst off n tot s)
  note eq = "1.prems" [unfolded readi_loop.simps [of k u dst off n tot s] Let_def]
  show ?case
  proof (cases "tot < n")
    case True
    with eq obtain a s1 where 1: "bmap k (off div BSIZE) s = Ok (a, s1)" by auto
    show ?thesis
    proof (cases "a = 0")
      case True
      with eq \<open>tot < n\<close> 1 show ?thesis by (auto dest!: frame)
    next
      case False
      let ?m = "min (n - tot) (BSIZE - off mod BSIZE)"
      from False eq True 1 obtain i s2 q s3 s4 where 2: "bread (idev (itable s1 k)) a s1 = Ok (i, s2)"
        "either_copyout u dst (bytes_at (bdata (bufs s2 i)) (off mod BSIZE) ?m) s2 = Ok (q, s3)" "brelse i s3 = Ok s4"
        and r: "(if q = -1 then Ok (-1, s4) else readi_loop k u (dst + of_nat ?m) (off + ?m) n (tot + ?m) s4) = Ok (r, s')"
        by auto
      have v: "view s4 = view s" using 1 2 by (auto dest!: frame)
      show ?thesis
      proof (cases "q = -1")
        case True
        with r v show ?thesis by simp
      next
        case q: False
        with r have "readi_loop k u (dst + of_nat ?m) (off + ?m) n (tot + ?m) s4 = Ok (r, s')" by simp
        from "1.IH" [OF True 1 refl False 2(1) refl refl 2(2) refl 2(3) q this] v show ?thesis by simp
      qed
    qed
  next
    case False
    with eq show ?thesis by simp
  qed
qed

lemma view_writei_loop:
  fixes s s' :: "'a fs_state_scheme"
  shows "writei_loop k u src off n tot s = Ok (r1, r2, s') \<Longrightarrow> view s' = view s"
proof (induction k u src off n tot s rule: writei_loop.induct)
  case (1 k u src off n tot s)
  note eq = "1.prems" [unfolded writei_loop.simps [of k u src off n tot s] Let_def]
  show ?case
  proof (cases "tot < n")
    case True
    with eq obtain a s1 where 1: "bmap k (off div BSIZE) s = Ok (a, s1)" by auto
    show ?thesis
    proof (cases "a = 0")
      case True
      with eq \<open>tot < n\<close> 1 show ?thesis by (auto dest!: frame)
    next
      case False
      let ?m = "min (n - tot) (BSIZE - off mod BSIZE)"
      let ?s4 = "\<lambda>i bs s3. upd_data i (put_bytes (off mod BSIZE) bs) s3"
      from False eq True 1 obtain i s2 q bs s3 where 2: "bread (idev (itable s1 k)) a s1 = Ok (i, s2)"
        "either_copyin u src ?m s2 = Ok (q, bs, s3)"
        and r: "(if q = -1 then bindr (brelse i (?s4 i bs s3)) (\<lambda>s5. Ok (off, tot, s5))
          else bindr (log_write i (?s4 i bs s3)) (\<lambda>s5. bindr (brelse i s5)
            (writei_loop k u (src + of_nat ?m) (off + ?m) n (tot + ?m)))) = Ok (r1, r2, s')"
        by auto
      have v: "view (?s4 i bs s3) = view s" using 1 2 by (auto dest!: frame)
      show ?thesis
      proof (cases "q = -1")
        case True
        with r v show ?thesis by (auto dest!: frame)
      next
        case q: False
        with r obtain s5 s6 where 3: "log_write i (?s4 i bs s3) = Ok s5" "brelse i s5 = Ok s6"
          "writei_loop k u (src + of_nat ?m) (off + ?m) n (tot + ?m) s6 = Ok (r1, r2, s')" by auto
        have "view s6 = view s" using 3(1,2) v by (auto dest!: frame)
        with "1.IH" [OF True 1 refl False 2(1) refl refl 2(2) refl refl refl q 3] show ?thesis by simp
      qed
    qed
  next
    case False
    with eq show ?thesis by simp
  qed
qed

lemma view_readi [frame]:
  fixes s s' :: "'a fs_state_scheme"
  shows "readi k u dst off n s = Ok (r, s') \<Longrightarrow> view s' = view s" "writei k u dst off n s = Ok (r, s') \<Longrightarrow> view s' = view s"
  by (auto simp: readi_def writei_def Let_def split: if_splits dest!: view_readi_loop view_writei_loop frame)

end
