(* ===== verification/XvFrameSys.thy ===== *)
theory XvFrameSys
  imports XvFrame
begin

text \<open>The frame of directories, paths, pipes, the console and \<open>exec\<close>: these too leave the open files alone.\<close>

section \<open>Directories and paths\<close>

lemma view_dirlookup_loop:
  fixes s s' :: "'a fs_state_scheme"
  shows "dirlookup_loop dp name off sz s = Ok (r, s') \<Longrightarrow> view s' = view s"
proof (induction dp name off sz s rule: dirlookup_loop.induct)
  case (1 dp name off sz s)
  note eq = "1.prems" [unfolded dirlookup_loop.simps [of dp name off sz s]]
  show ?case
  proof (cases "off < sz")
    case True
    with eq obtain n s1 where 1: "readi dp False (de_addr s) (of_nat off) 16 s = Ok (n, s1)" by auto
    have n: "\<not> n \<noteq> 16" using eq True 1 by (auto split: if_splits)
    consider "de_inum s1 = 0" | "de_inum s1 \<noteq> 0" "namecmp name (de_name s1) = 0" | "de_inum s1 \<noteq> 0" "namecmp name (de_name s1) \<noteq> 0"
      by blast
    then show ?thesis
    proof cases
      case z: 1
      with eq True 1 n have "dirlookup_loop dp name (off + DESIZE) sz s1 = Ok (r, s')" by simp
      from "1.IH"(1) [OF True 1 refl n z this] 1 show ?thesis by (auto dest!: frame)
    next
      case 2
      with eq True 1 n show ?thesis by (auto dest!: frame)
    next
      case z: 3
      with eq True 1 n have "dirlookup_loop dp name (off + DESIZE) sz s1 = Ok (r, s')" by simp
      from "1.IH"(2) [OF True 1 refl n z this] 1 show ?thesis by (auto dest!: frame)
    qed
  next
    case False
    with eq show ?thesis by simp
  qed
qed

lemma view_dirlink_loop:
  fixes s s' :: "'a fs_state_scheme"
  shows "dirlink_loop dp off sz s = Ok (r, s') \<Longrightarrow> view s' = view s"
proof (induction dp off sz s rule: dirlink_loop.induct)
  case (1 dp off sz s)
  note eq = "1.prems" [unfolded dirlink_loop.simps [of dp off sz s]]
  show ?case
  proof (cases "off < sz")
    case True
    with eq obtain n s1 where 1: "readi dp False (de_addr s) (of_nat off) 16 s = Ok (n, s1)" by auto
    have n: "\<not> n \<noteq> 16" using eq True 1 by (auto split: if_splits)
    show ?thesis
    proof (cases "de_inum s1 = 0")
      case z: True
      with eq True 1 n show ?thesis by (auto dest!: frame)
    next
      case z: False
      with eq True 1 n have "dirlink_loop dp (off + DESIZE) sz s1 = Ok (r, s')" by simp
      from "1.IH" [OF True 1 refl n z this] 1 show ?thesis by (auto dest!: frame)
    qed
  next
    case False
    with eq show ?thesis by simp
  qed
qed

lemma view_dirlookup [frame]:
  fixes s s' :: "'a fs_state_scheme"
  shows "dirlookup dp name s = Ok (r, s') \<Longrightarrow> view s' = view s"
  by (auto simp: dirlookup_def split: if_splits dest: view_dirlookup_loop)

lemma view_dirlink [frame]:
  fixes s s' :: "'a fs_state_scheme"
  shows "dirlink dp name k s = Ok (r, s') \<Longrightarrow> view s' = view s"
  by (auto simp: dirlink_def split: option.splits dest!: view_dirlink_loop frame)

lemma view_namex_loop:
  fixes s s' :: "'a fs_state_scheme"
  shows "namex_loop ip path par name s = Ok (r, nm, s') \<Longrightarrow> view s' = view s"
proof (induction ip path par name s rule: namex_loop.induct)
  case (1 ip path par name s)
  note eq = "1.prems" [unfolded namex_loop.simps [of ip path par name s]]
  show ?case
  proof (cases "skipelem path name")
    case None
    with eq show ?thesis by (auto split: if_splits dest!: frame)
  next
    case (Some pn)
    obtain path' name' where pn: "pn = (path', name')" by (cases pn)
    from eq Some pn obtain s1 where 1: "ilock ip s = Ok s1" by auto
    show ?thesis
    proof (cases "itype (itable s1 ip) \<noteq> T_DIR \<or> par \<and> path' = []")
      case True
      with eq Some pn 1 show ?thesis by (auto split: if_splits dest!: frame)
    next
      case False
      with eq Some pn 1 obtain nx s2 s3 where 2: "dirlookup ip name' s1 = Ok (nx, s2)" "iunlockput ip s2 = Ok s3" and
        rest: "(case nx of None \<Rightarrow> Ok (None, name', s3) | Some (j, _) \<Rightarrow> namex_loop j path' par name' s3) = Ok (r, nm, s')"
        by auto
      have v: "view s3 = view s" using 1 2 by (auto dest!: frame)
      show ?thesis
      proof (cases nx)
        case None
        with rest v show ?thesis by simp
      next
        case (Some jo)
        obtain j off where jo: "jo = (j, off)" by (cases jo)
        from rest Some jo have "namex_loop j path' par name' s3 = Ok (r, nm, s')" by simp
        with "1.IH" [OF \<open>skipelem path name = Some pn\<close> pn [symmetric] 1 _ _ 2(1) refl 2(2) Some jo [symmetric]] False v show ?thesis by auto
      qed
    qed
  qed
qed

lemma view_namei [frame]:
  fixes s s' :: "'a fs_state_scheme"
  shows "namei path s = Ok (r, s') \<Longrightarrow> view s' = view s" "nameiparent path name s = Ok (r, nm, s') \<Longrightarrow> view s' = view s"
  by (auto simp: namei_def nameiparent_def namex_def split: if_splits option.splits dest!: view_namex_loop frame)

section \<open>Pipes and console\<close>

lemma view_pipeclose [frame]:
  fixes s s' :: "'a fs_state_scheme"
  shows "pipeclose pi w s = Ok s' \<Longrightarrow> view s' = view s"
  by (auto simp: pipeclose_def Let_def split: if_splits dest!: frame)

lemma view_pipewrite_loop:
  fixes s s' :: "'a fs_state_scheme"
  shows "pipewrite_loop pi addr i n s = Ok (Done r, s') \<Longrightarrow> view s' = view s"
proof (induction pi addr i n s rule: pipewrite_loop.induct)
  case (1 pi addr i n s)
  note eq = "1.prems" [unfolded pipewrite_loop.simps [of pi addr i n s]]
  show ?case
  proof (cases "i < n \<and> readopen (pipes s pi) \<and> \<not> killed (cur s) s \<and> \<not> pipe_full (pipes s pi)")
    case True
    with eq obtain q ch s1 where 1: "copyin (pagetable (myproc s)) (psz (myproc s)) (pagetable (myproc s)) (addr + of_nat i) 1 s = Ok (q, ch, s1)"
      by auto
    show ?thesis
    proof (cases "q = -1")
      case True
      with eq 1 \<open>i < n \<and> _\<close> show ?thesis by (auto dest!: frame)
    next
      case False
      with eq 1 True have "pipewrite_loop pi addr (Suc i) n (upd_pipe pi (pipe_put (hd ch)) s1) = Ok (Done r, s')" by simp
      with "1.IH" [OF _ _ _ 1 refl refl False] True 1 show ?thesis by (auto dest!: frame)
    qed
  next
    case False
    with eq show ?thesis by (auto split: if_splits)
  qed
qed

lemma view_piperead_loop:
  fixes s s' :: "'a fs_state_scheme"
  shows "piperead_loop pi addr i n s = Ok (r, s') \<Longrightarrow> view s' = view s"
proof (induction pi addr i n s rule: piperead_loop.induct)
  case (1 pi addr i n s)
  note eq = "1.prems" [unfolded piperead_loop.simps [of pi addr i n s] Let_def]
  show ?case
  proof (cases "i < n \<and> nread (pipes s pi) \<noteq> nwrite (pipes s pi)")
    case True
    obtain ch q where g: "pipe_get (pipes s pi) = (ch, q)" by (cases "pipe_get (pipes s pi)")
    let ?s1 = "upd_pipe pi (\<lambda>_. q) s"
    from eq True g obtain x s2 where 1: "copyout (pagetable (myproc ?s1)) (psz (myproc ?s1)) (pagetable (myproc ?s1)) (addr + of_nat i) [ch] ?s1 = Ok (x, s2)"
      by auto
    show ?thesis
    proof (cases "x = -1")
      case True
      with eq 1 g \<open>i < n \<and> _\<close> show ?thesis by (auto dest!: frame)
    next
      case False
      with eq 1 g True have "piperead_loop pi addr (Suc i) n s2 = Ok (r, s')" by simp
      with "1.IH" [OF _ _ g [symmetric] refl refl 1 refl False] True 1 show ?thesis by (auto dest!: frame)
    qed
  next
    case False
    with eq show ?thesis by (auto split: if_splits)
  qed
qed

lemma view_pipe [frame]:
  fixes s s' :: "'a fs_state_scheme"
  shows "pipewrite pi addr n s = Ok (Done r, s') \<Longrightarrow> view s' = view s" "piperead pi addr n s = Ok (Done r, s') \<Longrightarrow> view s' = view s"
  by (auto simp: pipewrite_def piperead_def split: if_splits dest!: view_pipewrite_loop view_piperead_loop)

lemma view_uartstart [simp]:
  fixes s :: "'a fs_state_scheme"
  shows "view (uartstart s) = view s"
proof (induction s rule: uartstart.induct)
  case (1 s)
  show ?case
    unfolding uartstart.simps [of s] using "1.IH"
    by (auto simp: read_lsr_def tx_get_def WriteReg_def Let_def)
qed

lemma view_uartputc [frame]:
  fixes s s' :: "'a fs_state_scheme"
  shows "uartputc c s = Ok (Done r, s') \<Longrightarrow> view s' = view s"
  by (auto simp: uartputc_def tx_put_def split: if_splits)

lemma view_consolewrite_loop:
  fixes s s' :: "'a fs_state_scheme"
  shows "consolewrite_loop u src i n s = Ok (Done r, s') \<Longrightarrow> view s' = view s"
proof (induction u src i n s rule: consolewrite_loop.induct)
  case (1 u src i n s)
  note eq = "1.prems" [unfolded consolewrite_loop.simps [of u src i n s]]
  show ?case
  proof (cases "i < n")
    case True
    with eq obtain q bs s1 where 1: "either_copyin u (src + of_nat i) 1 s = Ok (q, bs, s1)" by auto
    show ?thesis
    proof (cases "q = -1")
      case True
      with eq \<open>i < n\<close> 1 show ?thesis by (auto dest!: frame)
    next
      case False
      with eq True 1 obtain out s2 where o: "uartputc (hd bs) s1 = Ok (out, s2)" and
        rest: "(case out of Asleep c \<Rightarrow> Ok (Asleep (i, c), s2) | Done _ \<Rightarrow> consolewrite_loop u src (Suc i) n s2) = Ok (Done r, s')"
        by auto
      from rest obtain v where "out = Done v" by (cases out) auto
      with o rest have 2: "uartputc (hd bs) s1 = Ok (Done v, s2)" "consolewrite_loop u src (Suc i) n s2 = Ok (Done r, s')" by simp_all
      from "1.IH" [OF True 1 refl refl False 2(1) refl refl 2(2)] 1 2(1) show ?thesis by (auto dest!: frame)
    qed
  next
    case False
    with eq show ?thesis by simp
  qed
qed

lemma view_consoleread_loop:
  fixes s s' :: "'a fs_state_scheme"
  shows "consoleread_loop u dst tgt n s = Ok (Done r, s') \<Longrightarrow> view s' = view s"
proof (induction u dst tgt n s rule: consoleread_loop.induct)
  case (1 u dst tgt n s)
  note eq = "1.prems" [unfolded consoleread_loop.simps [of u dst tgt n s] Let_def]
  show ?case
  proof (cases "0 < n \<and> cons_r s \<noteq> cons_w s")
    case True
    obtain c s1 where g: "cons_get s = (c, s1)" by (cases "cons_get s")
    have vg: "view s1 = view s" using g by (auto simp: cons_get_def)
    show ?thesis
    proof (cases "uint c = CTRL_D")
      case d: True
      with eq True g vg show ?thesis by (auto split: if_splits)
    next
      case d: False
      with eq True g obtain q s2 where 2: "either_copyout u dst [c] s1 = Ok (q, s2)" by auto
      show ?thesis
      proof (cases "q = -1 \<or> uint c = 10")
        case l: True
        with eq True d g 2 vg show ?thesis by (auto split: if_splits dest!: frame)
      next
        case l: False
        with eq True d g 2 have "consoleread_loop u (dst + 1) tgt (n - 1) s2 = Ok (Done r, s')" by simp
        with "1.IH" [OF _ _ g [symmetric] refl d 2 refl] True l 2 vg show ?thesis by (auto dest!: frame)
      qed
    qed
  next
    case False
    with eq show ?thesis by (auto split: if_splits)
  qed
qed

lemma view_console [frame]:
  fixes s s' :: "'a fs_state_scheme"
  shows "consolewrite u src n s = Ok (Done r, s') \<Longrightarrow> view s' = view s" "consoleread u dst n s = Ok (Done r, s') \<Longrightarrow> view s' = view s"
  by (auto simp: consolewrite_def consoleread_def dest!: view_consolewrite_loop view_consoleread_loop)

section \<open>Processes, semaphores, shared memory\<close>

lemma view_upd_proc:
  fixes s :: "'a fs_state_scheme"
  assumes "\<And>p. ofile (f p) = ofile p \<and> dead (f p) = dead p"
  shows "view (upd_proc i f s) = view s"
  using assms by (auto simp: view_def upd_proc_def fun_eq_iff)

lemma view_sem [frame]:
  fixes s s' :: "'a fs_state_scheme"
  shows "sem_init k v s = (r, s') \<Longrightarrow> view s' = view s" "sem_down k s = (Done r, s') \<Longrightarrow> view s' = view s"
    "sem_up k s = (r, s') \<Longrightarrow> view s' = view s" "shm_get p key s = Ok (a, s') \<Longrightarrow> view s' = view s"
    "kill q s = (r, s') \<Longrightarrow> view s' = view s"
  by (auto simp: sem_init_def sem_down_def sem_down_loop_def sem_up_def shm_get_def kill_def Let_def dead_def
      split: if_splits option.splits dest!: frame intro!: view_upd_proc)

lemma view_uvmdealloc [frame]:
  fixes s s' :: "'a fs_state_scheme"
  shows "uvmdealloc pt a b s = Ok (r, s') \<Longrightarrow> view s' = view s" "uvmclear pt a s = Ok s' \<Longrightarrow> view s' = view s"
proof -
  show "uvmdealloc pt a b s = Ok (r, s') \<Longrightarrow> view s' = view s"
    by (rule view_keeps) (auto simp: uvmdealloc_def Let_def split: if_splits dest!: keeps_uvmunmap)
  show "uvmclear pt a s = Ok s' \<Longrightarrow> view s' = view s"
    by (rule view_keeps) (auto simp: uvmclear_def split: if_splits dest!: keeps_walk)
qed

lemma keeps_uvmalloc_loop: "uvmalloc_loop pt a old n x s = Ok (r, s') \<Longrightarrow> keeps s s'"
proof (induction pt a old n x s rule: uvmalloc_loop.induct)
  case (1 pt a old n x s)
  note eq = "1.prems" [unfolded uvmalloc_loop.simps [of pt a old n x s]]
  have d: "uvmdealloc pt b c t = Ok (q, t') \<Longrightarrow> keeps t t'" for b c q t t'
    by (auto simp: uvmdealloc_def Let_def split: if_splits dest!: keeps_uvmunmap)
  show ?case
  proof (cases "a < n")
    case True
    with eq obtain mem s1 where 1: "kalloc s = Ok (mem, s1)" by auto
    show ?thesis
    proof (cases "mem = 0")
      case m: True
      with eq True 1 show ?thesis by (auto dest!: keeps_kalloc d)
    next
      case m: False
      with eq True 1 obtain q s2 where 2: "mappages pt a PGSIZE mem (PTE_R OR PTE_U OR x) (zero_page mem s1) = Ok (q, s2)" by auto
      have k: "keeps s s2" using keeps_kalloc [OF 1] keeps_mappages [OF 2] by simp
      show ?thesis
      proof (cases "q = 0")
        case q: True
        with eq True 1 m 2 have "uvmalloc_loop pt (a + PGSIZE) old n x s2 = Ok (r, s')" by simp
        with "1.IH" [OF True 1 refl m 2 refl] q k show ?thesis by simp
      next
        case q: False
        with eq True 1 m 2 k show ?thesis by (auto dest!: keeps_kfree d)
      qed
    qed
  next
    case False
    with eq show ?thesis by simp
  qed
qed

lemma view_uvmalloc [frame]:
  fixes s s' :: "'a fs_state_scheme"
  shows "uvmalloc pt a b x s = Ok (r, s') \<Longrightarrow> view s' = view s"
  by (rule view_keeps) (auto simp: uvmalloc_def split: if_splits dest: keeps_uvmalloc_loop)

section \<open>exec\<close>

lemma view_loadseg_loop:
  fixes s s' :: "'a exec_state_scheme"
  shows "loadseg_loop pt va ip off sz i s = Ok (r, s') \<Longrightarrow> view s' = view s"
proof (induction pt va ip off sz i s rule: loadseg_loop.induct)
  case (1 pt va ip off sz i s)
  note eq = "1.prems" [unfolded loadseg_loop.simps [of pt va ip off sz i s] Let_def]
  show ?case
  proof (cases "i < sz")
    case True
    let ?n = "if sz - i < 4096 then sz - i else 4096"
    from eq True obtain pa where 1: "walkaddr pt (va + ucast i) s = Ok pa" "pa \<noteq> 0" by (auto split: if_splits)
    with eq True obtain q s1 where 2: "readi ip False pa (off + i) ?n s = Ok (q, s1)" by auto
    show ?thesis
    proof (cases "q \<noteq> int (unat ?n)")
      case q: True
      with eq True 1 2 show ?thesis by (auto dest!: frame)
    next
      case q: False
      with eq True 1 2 have 3: "\<not> i + 4096 < i" "loadseg_loop pt va ip off sz (i + 4096) s1 = Ok (r, s')"
        by (simp_all split: if_split_asm)
      from "1.IH" [OF True 1 refl 2 refl q 3] 2 show ?thesis by (auto dest!: frame)
    qed
  next
    case False
    with eq show ?thesis by simp
  qed
qed

lemma view_exec_load:
  fixes s s' :: "'a exec_state_scheme"
  shows "exec_load pt ip i off sz s = Ok (b, r, s') \<Longrightarrow> view s' = view s"
proof (induction pt ip i off sz s rule: exec_load.induct)
  case (1 pt ip i off sz s)
  note eq = "1.prems" [unfolded exec_load.simps [of pt ip i off sz s] Let_def]
  show ?case
  proof (cases "i < unat (ephnum (get_elf (phys s) (elf_addr s)))")
    case True
    with eq obtain q s1 where 1: "readi ip False (ph_addr s) off 56 s = Ok (q, s1)" by auto
    let ?ph = "get_ph (phys s1) (ph_addr s1)"
    show ?thesis
    proof (cases "q = 56")
      case False
      with eq True 1 show ?thesis by (auto dest!: frame)
    next
      case q: True
      show ?thesis
      proof (cases "phtype ?ph \<noteq> ELF_PROG_LOAD")
        case ty: True
        with eq True 1 q have "exec_load pt ip (Suc i) (off + 56) sz s1 = Ok (b, r, s')" by simp
        with "1.IH"(1) [OF True 1 refl _ refl ty] q 1 show ?thesis by (auto dest!: frame)
      next
        case ty: False
        show ?thesis
        proof (cases "memsz ?ph < filesz ?ph \<or> vaddr ?ph + memsz ?ph < vaddr ?ph \<or> vaddr ?ph mod PGSIZE \<noteq> 0")
          case bad: True
          with eq True 1 q ty show ?thesis by (auto dest!: frame)
        next
          case ok: False
          with eq True 1 q ty obtain sz1 s2 where 2: "uvmalloc pt sz (vaddr ?ph + memsz ?ph) (flags2perm (phflags ?ph)) s1 = Ok (sz1, s2)"
            by auto
          show ?thesis
          proof (cases "sz1 = 0")
            case z: True
            with eq True 1 q ty ok 2 show ?thesis by (auto dest!: frame)
          next
            case z: False
            with eq True 1 q ty ok 2 obtain x s3 where 3: "loadseg pt (vaddr ?ph) ip (ucast (phoff ?ph)) (ucast (filesz ?ph)) s2 = Ok (x, s3)"
              and rest: "(if x < 0 then Ok (False, sz1, s3) else exec_load pt ip (Suc i) (off + 56) sz1 s3) = Ok (b, r, s')"
              by auto
            have v: "view s3 = view s"
              using 1 2 view_loadseg_loop [OF 3 [unfolded loadseg_def]] by (auto dest!: frame)
            show ?thesis
            proof (cases "x < 0")
              case x: True
              with rest v show ?thesis by simp
            next
              case x: False
              with rest have "exec_load pt ip (Suc i) (off + 56) sz1 s3 = Ok (b, r, s')" by simp
              with "1.IH"(2) [OF True 1 refl _ refl ty ok 2 refl z 3 refl x] q v show ?thesis by simp
            qed
          qed
        qed
      qed
    qed
  next
    case False
    with eq show ?thesis by simp
  qed
qed

lemma view_push_args:
  fixes s s' :: "'a exec_state_scheme"
  shows "push_args pt sb0 argv us sp s = Ok (r, s') \<Longrightarrow> view s' = view s"
proof (induction argv arbitrary: us sp s)
  case (Cons a argv)
  from Cons.prems show ?case by (auto simp: Let_def split: if_splits dest!: Cons.IH frame)
qed simp

lemma view_end [frame]:
  fixes s s' :: "'a sys_state_scheme"
  shows "end_put r k s = Ok (x, s') \<Longrightarrow> view s' = view s" "end_ret r s = Ok (x, s') \<Longrightarrow> view s' = view s"
  by (auto simp: end_put_def end_ret_def dest!: frame)

lemma view_exec_bad [frame]:
  fixes s s' :: "'a exec_state_scheme"
  shows "exec_bad pt sz ip s = Ok (r, s') \<Longrightarrow> view s' = view s"
  by (auto simp: exec_bad_def split: if_split_asm option.split_asm dest!: frame)

lemma view_exec_commit [frame]:
  fixes s s' :: "'a exec_state_scheme"
  shows "exec_commit path pt sz sp old n s = Ok (r, s') \<Longrightarrow> view s' = view s"
  by (auto simp: exec_commit_def Let_def view_upd_proc dead_def dest!: frame)

lemma bindr_OkE:
  assumes "bindr m f = Ok y"
  obtains x where "m = Ok x" "f x = Ok y"
  using assms by (cases m) auto

lemma view_exec_stack [frame]:
  fixes s s' :: "'a exec_state_scheme"
  shows "exec_stack path argv pt sz s = Ok (r, s') \<Longrightarrow> view s' = view s"
  by (auto simp: exec_stack_def Let_def simp del: bindr_Ok_iff elim!: bindr_OkE split: if_split_asm option.split_asm prod.split_asm
      dest!: view_push_args frame)

lemma view_exec [frame]:
  fixes s s' :: "'a exec_state_scheme"
  shows "exec path argv s = Ok (r, s') \<Longrightarrow> view s' = view s"
  by (auto simp: exec_def split: if_split_asm option.split_asm dest!: view_exec_load frame)

lemma view_fetch [frame]:
  fixes s s' :: "'a sys_state_scheme"
  shows "fetchaddr a s = Ok (r, bs, s') \<Longrightarrow> view s' = view s"
  by (auto simp: fetchaddr_def Let_def split: if_splits dest!: frame)

lemma view_fetch_args:
  fixes s s' :: "'a exec_state_scheme"
  shows "fetch_args n ua argv s = Ok (b, l, s') \<Longrightarrow> view s' = view s"
proof (induction n arbitrary: argv s)
  case (Suc n)
  from Suc.prems show ?case
    by (auto simp: Let_def simp del: bindr_Ok_iff elim!: bindr_OkE split: if_split_asm option.split_asm prod.split_asm dest!: Suc.IH frame)
qed simp

lemma view_sys_exec [frame]:
  fixes s s' :: "'a exec_state_scheme"
  assumes "sys_exec s = Ok (r, s')"
  shows "view s' = view s"
proof -
  have k: "foldM kfree xs t = Ok t' \<Longrightarrow> view t' = view t" for xs and t t' :: "'a exec_state_scheme"
    by (erule view_foldM) (rule frame)
  show ?thesis
    using assms
    by (auto simp: sys_exec_def simp del: bindr_Ok_iff elim!: bindr_OkE split: if_split_asm option.split_asm prod.split_asm dest!: view_fetch_args k frame)
qed

section \<open>File system calls that do not touch descriptors\<close>

lemma view_isdirempty_loop:
  fixes s s' :: "'a sys_state_scheme"
  shows "isdirempty_loop dp off s = Ok (r, s') \<Longrightarrow> view s' = view s"
proof (induction dp off s rule: isdirempty_loop.induct)
  case (1 dp off s)
  note eq = "1.prems" [unfolded isdirempty_loop.simps [of dp off s]]
  show ?case
  proof (cases "off < unat (isize (itable s dp)) \<and> off < 2 ^ 31")
    case True
    with eq obtain n s1 where 1: "readi dp False (de_addr s) (of_nat off) 16 s = Ok (n, s1)" by auto
    have n: "\<not> n \<noteq> 16" using eq True 1 by (auto split: if_splits)
    show ?thesis
    proof (cases "de_inum s1 \<noteq> 0")
      case z: True
      with eq True 1 n show ?thesis by (auto dest!: frame)
    next
      case z: False
      with eq True 1 n have "isdirempty_loop dp (off + DESIZE) s1 = Ok (r, s')" by simp
      from "1.IH" [OF True 1 refl n z this] 1 show ?thesis by (auto dest!: frame)
    qed
  next
    case False
    with eq show ?thesis by (auto split: if_splits)
  qed
qed

lemma view_create_parts [frame]:
  fixes s s' :: "'a sys_state_scheme"
  shows "create_fail ip dp s = Ok (r, s') \<Longrightarrow> view s' = view s" "create_dots ip dp s = Ok (b, s') \<Longrightarrow> view s' = view s"
    "link_bad ip s = Ok (q, s') \<Longrightarrow> view s' = view s"
  by (auto simp: create_fail_def create_dots_def link_bad_def simp del: bindr_Ok_iff elim!: bindr_OkE split: if_split_asm option.split_asm prod.split_asm dest!: frame)

lemma view_create [frame]:
  fixes s s' :: "'a sys_state_scheme"
  shows "create path ty ma mi s = Ok (r, s') \<Longrightarrow> view s' = view s"
  unfolding create_def
  by (auto simp del: bindr_Ok_iff elim!: bindr_OkE split: if_split_asm option.split_asm prod.split_asm dest!: frame)

lemma view_open_inode [frame]:
  fixes s s' :: "'a sys_state_scheme"
  shows "open_inode path om s = Ok (r, s') \<Longrightarrow> view s' = view s"
  unfolding open_inode_def
  by (auto simp del: bindr_Ok_iff elim!: bindr_OkE split: if_split_asm option.split_asm prod.split_asm dest!: frame)

lemma view_sys_link [frame]:
  fixes s s' :: "'a sys_state_scheme"
  shows "sys_link s = Ok (r, s') \<Longrightarrow> view s' = view s"
  unfolding sys_link_def
  by (auto simp del: bindr_Ok_iff elim!: bindr_OkE split: if_split_asm option.split_asm prod.split_asm dest!: frame)

lemma view_sys_unlink [frame]:
  fixes s s' :: "'a sys_state_scheme"
  shows "sys_unlink s = Ok (r, s') \<Longrightarrow> view s' = view s"
  unfolding sys_unlink_def isdirempty_def
  by (auto simp del: bindr_Ok_iff elim!: bindr_OkE split: if_split_asm option.split_asm prod.split_asm
      dest!: view_isdirempty_loop frame)

lemma view_sys_dirs [frame]:
  fixes s s' :: "'a sys_state_scheme"
  shows "sys_mkdir s = Ok (r, s') \<Longrightarrow> view s' = view s" "sys_mknod s = Ok (r, s') \<Longrightarrow> view s' = view s"
    "sys_chdir s = Ok (r, s') \<Longrightarrow> view s' = view s"
  unfolding sys_mkdir_def sys_mknod_def sys_chdir_def
  by (auto simp: view_upd_proc dead_def simp del: bindr_Ok_iff elim!: bindr_OkE split: if_split_asm option.split_asm prod.split_asm
      dest!: frame)

end
