(* ===== verification/XvRefs.thy ===== *)
theory XvRefs
  imports XvFrameSys
begin

text \<open>
  The open files of the whole system: the reference count of every file is the number of descriptors that
  refer to it, kept by every system call.
\<close>

section \<open>Counting descriptors\<close>

text \<open>\<open>rinv e fr om dd\<close>: the counts \<open>fr\<close> are the numbers of descriptors in the tables \<open>om\<close> of the processes plus the
  surplus \<open>e\<close> while the kernel is between two updates; a dead process (\<open>dd\<close>) has no open files.\<close>

definition fds :: "(nat \<Rightarrow> nat \<Rightarrow> nat option) \<Rightarrow> nat \<Rightarrow> (nat \<times> nat) set" where
  "fds om f = {(p, fd). p < NPROC \<and> fd < NOFILE \<and> om p fd = Some f}"

definition rinv :: "(nat \<Rightarrow> int) \<Rightarrow> (nat \<Rightarrow> int) \<Rightarrow> (nat \<Rightarrow> nat \<Rightarrow> nat option) \<Rightarrow> (nat \<Rightarrow> bool) \<Rightarrow> bool" where
  "rinv e fr om dd \<longleftrightarrow>
     (\<forall>f < NFILE. fr f = int (card (fds om f)) + e f) \<and>
     (\<forall>p < NPROC. \<forall>fd f. om p fd = Some f \<longrightarrow> fd < NOFILE \<and> f < NFILE \<and> \<not> dd p)"

definition bump :: "nat \<Rightarrow> int \<Rightarrow> (nat \<Rightarrow> int) \<Rightarrow> nat \<Rightarrow> int" where
  "bump f d e = e(f := e f + d)"

lemma bump_bump [simp]: "bump f d (bump f d' e) = bump f (d + d') e" "bump f 0 e = e"
  by (auto simp: bump_def)

lemma bump_swap: "bump f d (bump g d' e) = bump g d' (bump f d e)"
  by (auto simp: bump_def)

lemma finite_fds [simp]: "finite (fds om f)"
  by (rule finite_subset [of _ "{..<NPROC} \<times> {..<NOFILE}"]) (auto simp: fds_def)

lemma fds_give:
  assumes "p < NPROC" "fd < NOFILE" "om p fd = None"
  shows "fds (om(p := (om p)(fd := Some f))) g = (if g = f then insert (p, fd) (fds om g) else fds om g)" and "(p, fd) \<notin> fds om g"
  using assms by (auto simp: fds_def split: if_splits)

lemma fds_take:
  assumes "p < NPROC" "fd < NOFILE" "om p fd = Some f"
  shows "fds (om(p := (om p)(fd := None))) g = (if g = f then fds om g - {(p, fd)} else fds om g)" and "(p, fd) \<in> fds om f"
  using assms by (auto simp: fds_def split: if_splits)

lemma rinv_give:
  assumes "rinv e fr om dd" "p < NPROC" "fd < NOFILE" "f < NFILE" "om p fd = None" "\<not> dd p"
  shows "rinv (bump f (-1) e) fr (om(p := (om p)(fd := Some f))) dd"
proof -
  note g = fds_give [of p fd om, OF assms(2,3,5)]
  have "fr g = int (card (fds (om(p := (om p)(fd := Some f))) g)) + bump f (-1) e g" if "g < NFILE" for g
    using assms(1) g(2) [of g] that unfolding g(1) rinv_def by (auto simp: bump_def)
  then show ?thesis using assms unfolding rinv_def by auto
qed

lemma rinv_take:
  assumes "rinv e fr om dd" "p < NPROC" "fd < NOFILE" "om p fd = Some f"
  shows "rinv (bump f 1 e) fr (om(p := (om p)(fd := None))) dd"
proof -
  note g = fds_take [of p fd om f, OF assms(2-4)]
  have c: "0 < card (fds om f)" using g(2) by (auto simp: card_gt_0_iff)
  have "fr h = int (card (fds (om(p := (om p)(fd := None))) h)) + bump f 1 e h" if "h < NFILE" for h
    using assms(1) g(2) c that unfolding g(1) rinv_def by (auto simp: of_nat_diff bump_def)
  then show ?thesis using assms unfolding rinv_def by auto
qed

lemma rinv_add: "rinv e fr om dd \<Longrightarrow> rinv (bump f d e) (fr(f := fr f + d)) om dd"
  unfolding rinv_def bump_def by auto

lemma rinv_bound:
  assumes "rinv e fr om dd" "p < NPROC" "om p fd = Some f"
  shows "fd < NOFILE" "f < NFILE" "1 + e f \<le> fr f"
proof -
  show b: "fd < NOFILE" "f < NFILE" using assms unfolding rinv_def by blast+
  with assms have "(p, fd) \<in> fds om f" by (simp add: fds_def)
  then have "0 < card (fds om f)" by (auto simp: card_gt_0_iff)
  with assms(1) b show "1 + e f \<le> fr f" unfolding rinv_def by auto
qed

lemma rinv_dead:
  assumes "rinv e fr om dd" and "\<forall>p < NPROC. dd' p \<longrightarrow> dd p \<or> om p = (\<lambda>_. None)"
  shows "rinv e fr om dd'"
proof -
  have "\<not> dd' p" if "p < NPROC" "om p fd = Some f" for p fd f
  proof -
    have "\<not> dd p" using assms(1) that unfolding rinv_def by blast
    moreover have "om p \<noteq> (\<lambda>_. None)" using that(2) by auto
    ultimately show ?thesis using assms(2) that(1) by blast
  qed
  then show ?thesis using assms(1) unfolding rinv_def by blast
qed

section \<open>The invariant of the state\<close>

abbreviation omap :: "'a proc_state_scheme \<Rightarrow> nat \<Rightarrow> nat \<Rightarrow> nat option" where
  "omap s \<equiv> \<lambda>p. ofile (procs s p)"

definition refs_ok :: "(nat \<Rightarrow> int) \<Rightarrow> 'a file_state_scheme \<Rightarrow> bool" where
  "refs_ok e s \<longleftrightarrow> rinv e (\<lambda>f. fref (ftable s f)) (omap s) (\<lambda>p. dead (procs s p))"

definition live :: "'a proc_state_scheme \<Rightarrow> bool" where
  "live s \<longleftrightarrow> cur s < NPROC \<and> \<not> dead (procs s (cur s))"

lemma view_eqD:
  fixes s s' :: "'a file_state_scheme"
  assumes "view s' = view s"
  shows "ftable s' = ftable s" "omap s' = omap s" "(\<lambda>p. dead (procs s' p)) = (\<lambda>p. dead (procs s p))" "cur s' = cur s"
proof -
  have m: "fs_state.more s' = fs_state.more s" and c: "cur s' = cur s" and
    l: "\<And>i. ofile (procs s' i) = ofile (procs s i) \<and> dead (procs s' i) = dead (procs s i)"
    using assms by (auto simp: view_def fun_eq_iff)
  show "ftable s' = ftable s" using m by (cases s; cases s'; simp)
  show "omap s' = omap s" "(\<lambda>p. dead (procs s' p)) = (\<lambda>p. dead (procs s p))" using l by (auto simp: fun_eq_iff)
  show "cur s' = cur s" by (rule c)
qed

lemma refs_view:
  fixes s s' :: "'a file_state_scheme"
  assumes "view s' = view s"
  shows "refs_ok e s' \<longleftrightarrow> refs_ok e s" and "live s' \<longleftrightarrow> live s"
proof -
  note v = view_eqD [OF assms]
  show "refs_ok e s' \<longleftrightarrow> refs_ok e s" unfolding refs_ok_def v(1-3) ..
  show "live s' \<longleftrightarrow> live s" unfolding live_def v(4) using fun_cong [OF v(3), of "cur s"] by simp
qed

lemma refs_upd_file:
  assumes "refs_ok e s" and "\<And>x. fref (g x) = fref x"
  shows "refs_ok e (upd_file f g s)"
proof -
  have "(\<lambda>h. fref (ftable (upd_file f g s) h)) = (\<lambda>h. fref (ftable s h))"
    using assms(2) by (auto simp: upd_file_def)
  with assms(1) show ?thesis by (simp add: refs_ok_def upd_file_def)
qed

lemma live_upd_file [simp]: "live (upd_file f g s) \<longleftrightarrow> live s"
  by (simp add: live_def upd_file_def)

lemma refs_fref:
  "refs_ok e (upd_file f g s) \<longleftrightarrow> rinv e ((\<lambda>h. fref (ftable s h))(f := fref (g (ftable s f)))) (omap s) (\<lambda>p. dead (procs s p))"
proof -
  have "(\<lambda>h. fref (ftable (upd_file f g s) h)) = (\<lambda>h. fref (ftable s h))(f := fref (g (ftable s f)))"
    by (auto simp: upd_file_def)
  then show ?thesis by (simp add: refs_ok_def upd_file_def)
qed

lemma refs_filedup:
  assumes "filedup f s = Ok s'" "refs_ok e s"
  shows "refs_ok (bump f 1 e) s'" and "live s' \<longleftrightarrow> live s" and "procs s' = procs s" and "cur s' = cur s"
proof -
  have s': "s' = upd_file f (\<lambda>x. x\<lparr>fref := fref x + 1\<rparr>) s"
    using assms(1) by (simp add: filedup_def split: if_splits)
  show "refs_ok (bump f 1 e) s'"
    using rinv_add [OF assms(2) [unfolded refs_ok_def], of f 1] by (simp add: s' refs_fref)
  show "live s' \<longleftrightarrow> live s" "procs s' = procs s" "cur s' = cur s" by (simp_all add: s' upd_file_def live_def)
qed

lemma refs_filealloc:
  assumes "filealloc s = (Some f, s')" "refs_ok e s"
  shows "refs_ok (bump f 1 e) s'" and "f < NFILE" and "live s' \<longleftrightarrow> live s"
proof -
  from assms(1) have f: "f < NFILE" "fref (ftable s f) = 0" "s' = upd_file f (\<lambda>x. x\<lparr>fref := 1\<rparr>) s"
    by (auto simp: filealloc_def split: option.splits dest!: find_slot_Some)
  show "refs_ok (bump f 1 e) s'"
    using rinv_add [OF assms(2) [unfolded refs_ok_def], of f 1] f(2) by (simp add: f(3) refs_fref)
  show "f < NFILE" "live s' \<longleftrightarrow> live s" using f by simp_all
qed

lemma filealloc_None: "filealloc s = (None, s') \<Longrightarrow> s' = s"
  by (auto simp: filealloc_def split: option.splits)

lemma refs_fileclose:
  fixes s s' :: "'a file_state_scheme"
  assumes "fileclose f s = Ok s'" "refs_ok e s"
  shows "refs_ok (bump f (-1) e) s'" and "omap s' = omap s" and "(\<lambda>p. dead (procs s' p)) = (\<lambda>p. dead (procs s p))" and "cur s' = cur s"
proof -
  let ?e = "bump f (-1) e"
  let ?s1 = "upd_file f (\<lambda>x. x\<lparr>fref := fref x - 1\<rparr>) s"
  let ?s2 = "upd_file f (\<lambda>x. x\<lparr>fref := 0, ftype := FD_NONE\<rparr>) ?s1"
  have pos: "1 \<le> fref (ftable s f)" using assms(1) by (auto simp: fileclose_def split: if_splits)
  have r1: "refs_ok ?e ?s1" using rinv_add [OF assms(2) [unfolded refs_ok_def], of f "-1"] by (simp add: refs_fref)
  have "refs_ok ?e s' \<and> omap s' = omap s \<and> (\<lambda>p. dead (procs s' p)) = (\<lambda>p. dead (procs s p)) \<and> cur s' = cur s"
  proof (cases "0 < fref (ftable ?s1 f)")
    case True
    with assms(1) pos have "s' = ?s1" by (simp add: fileclose_def Let_def)
    with r1 show ?thesis by (simp add: upd_file_def)
  next
    case False
    with pos have z: "fref (ftable ?s1 f) = 0" by (simp add: upd_file_def)
    then have "(\<lambda>h. fref (ftable ?s1 h))(f := 0) = (\<lambda>h. fref (ftable ?s1 h))" by (auto simp: fun_eq_iff)
    with r1 have r2: "refs_ok ?e ?s2" by (simp add: refs_fref [of ?e f _ ?s1]) (simp add: refs_ok_def)
    have "view s' = view ?s2"
      using assms(1) pos z by (auto simp: fileclose_def Let_def split: fdtype.splits dest!: frame)
    from refs_view(1) [OF this] view_eqD [OF this] r2 show ?thesis by (simp add: upd_file_def)
  qed
  then show "refs_ok ?e s'" "omap s' = omap s" "(\<lambda>p. dead (procs s' p)) = (\<lambda>p. dead (procs s p))" "cur s' = cur s"
    by blast+
qed

lemma live_fileclose:
  assumes "fileclose f s = Ok s'" "refs_ok e s"
  shows "live s' \<longleftrightarrow> live s"
proof -
  note c = refs_fileclose [OF assms]
  show ?thesis unfolding live_def c(4) using fun_cong [OF c(3), of "cur s"] by simp
qed

text \<open>Descriptors.\<close>

lemma omap_upd_proc: "omap (upd_proc p f s) = (omap s)(p := ofile (f (procs s p)))"
  by (auto simp: upd_proc_def)

lemma refs_give:
  assumes "refs_ok e s" "p < NPROC" "fd < NOFILE" "f < NFILE" "ofile (procs s p) fd = None" "\<not> dead (procs s p)"
  shows "refs_ok (bump f (-1) e) (upd_proc p (\<lambda>q. q\<lparr>ofile := (ofile q)(fd := Some f)\<rparr>) s)"
proof -
  let ?s = "upd_proc p (\<lambda>q. q\<lparr>ofile := (ofile q)(fd := Some f)\<rparr>) s"
  have "ftable ?s = ftable s" "(\<lambda>p. dead (procs ?s p)) = (\<lambda>p. dead (procs s p))"
    by (auto simp: upd_proc_def dead_def)
  with rinv_give [OF assms(1) [unfolded refs_ok_def] assms(2-6)] show ?thesis
    by (simp add: refs_ok_def omap_upd_proc del: procs_upd_proc)
qed

lemma refs_take:
  assumes "refs_ok e s" "p < NPROC" "ofile (procs s p) fd = Some f"
  shows "refs_ok (bump f 1 e) (upd_proc p (\<lambda>q. q\<lparr>ofile := (ofile q)(fd := None)\<rparr>) s)"
proof -
  let ?s = "upd_proc p (\<lambda>q. q\<lparr>ofile := (ofile q)(fd := None)\<rparr>) s"
  have fd: "fd < NOFILE" by (rule rinv_bound(1) [OF assms(1) [unfolded refs_ok_def] assms(2,3)])
  have "ftable ?s = ftable s" "(\<lambda>p. dead (procs ?s p)) = (\<lambda>p. dead (procs s p))"
    by (auto simp: upd_proc_def dead_def)
  with rinv_take [OF assms(1) [unfolded refs_ok_def] assms(2) fd assms(3)] show ?thesis
    by (simp add: refs_ok_def omap_upd_proc del: procs_upd_proc)
qed

lemma live_set_ofile [simp]: "live (set_ofile fd v s) \<longleftrightarrow> live s"
  by (simp add: set_ofile_def live_def dead_def)

lemma refs_fdalloc:
  assumes "fdalloc f s = (fd, s')" "refs_ok e s" "live s" "f < NFILE"
  shows "fd < 0 \<Longrightarrow> s' = s"
    and "\<not> fd < 0 \<Longrightarrow> refs_ok (bump f (-1) e) s'" and "\<not> fd < 0 \<Longrightarrow> ofile (procs s' (cur s')) (nat fd) = Some f"
    and "live s'"
proof -
  have c: "cur s < NPROC" "\<not> dead (procs s (cur s))" using assms(3) by (simp_all add: live_def)
  show "fd < 0 \<Longrightarrow> s' = s" using assms(1) by (auto simp: fdalloc_def split: option.splits)
  show "live s'" using assms(1,3) by (auto simp: fdalloc_def split: option.splits)
  have *: "refs_ok (bump f (-1) e) s' \<and> ofile (procs s' (cur s')) (nat fd) = Some f" if "\<not> fd < 0"
  proof -
    from assms(1) that obtain k where k: "find_slot (\<lambda>fd. ofile (myproc s) fd = None) 0 NOFILE = Some k" "fd = int k"
      "s' = set_ofile k (Some f) s" by (auto simp: fdalloc_def split: option.splits)
    from find_slot_Some [OF k(1)] have "k < NOFILE" "ofile (procs s (cur s)) k = None" by (auto simp: myproc_def)
    with refs_give [OF assms(2) c(1) _ assms(4) _ c(2)] show ?thesis
      by (simp add: k(2,3) set_ofile_def)
  qed
  then show "\<not> fd < 0 \<Longrightarrow> refs_ok (bump f (-1) e) s'" "\<not> fd < 0 \<Longrightarrow> ofile (procs s' (cur s')) (nat fd) = Some f"
    by blast+
qed

section \<open>System calls on descriptors\<close>

text \<open>The state between two system calls.\<close>

definition good :: "'a file_state_scheme \<Rightarrow> bool" where
  "good s \<longleftrightarrow> refs_ok (\<lambda>_. 0) s \<and> live s"

lemma good_view: "view s' = view s \<Longrightarrow> good s \<Longrightarrow> good s'"
  using refs_view [of s' s] unfolding good_def by blast

lemma argfd_Some:
  assumes "argfd n s = Ok (Some (fd, f))" "refs_ok e s" "live s"
  shows "ofile (procs s (cur s)) fd = Some f" "f < NFILE"
proof -
  show o: "ofile (procs s (cur s)) fd = Some f"
    using assms(1) by (auto simp: argfd_def Let_def myproc_def split: if_splits)
  show "f < NFILE"
    using rinv_bound(2) [OF assms(2) [unfolded refs_ok_def] _ o] assms(3) by (simp add: live_def)
qed

lemma good_sys_dup:
  assumes "sys_dup s = Ok (r, s')" "good s"
  shows "good s'"
proof -
  from assms(1) obtain a where a: "argfd 0 s = Ok a" by (auto simp: sys_dup_def)
  have g: "refs_ok (\<lambda>_. 0) s" "live s" using assms(2) by (simp_all add: good_def)
  show ?thesis
  proof (cases a)
    case None
    with assms a show ?thesis by (simp add: sys_dup_def)
  next
    case (Some p)
    obtain fd0 f where p: "p = (fd0, f)" by (cases p)
    obtain fd s1 where f: "fdalloc f s = (fd, s1)" by (cases "fdalloc f s")
    note fl = refs_fdalloc [OF f g argfd_Some(2) [OF a [unfolded Some p] g]]
    show ?thesis
    proof (cases "fd < 0")
      case True
      with assms a Some p f fl(1) show ?thesis by (simp add: sys_dup_def)
    next
      case False
      with assms(1) a Some p f have "filedup f s1 = Ok s'" by (simp add: sys_dup_def)
      from refs_filedup(1,2) [OF this fl(2)] False fl(4) show ?thesis by (simp add: good_def)
    qed
  qed
qed

lemma good_sys_close:
  assumes "sys_close s = Ok (r, s')" "good s"
  shows "good s'"
proof -
  from assms(1) obtain a where a: "argfd 0 s = Ok a" by (auto simp: sys_close_def)
  have g: "refs_ok (\<lambda>_. 0) s" "live s" using assms(2) by (simp_all add: good_def)
  show ?thesis
  proof (cases a)
    case None
    with assms a show ?thesis by (simp add: sys_close_def)
  next
    case (Some p)
    obtain fd f where p: "p = (fd, f)" by (cases p)
    note o = argfd_Some(1) [OF a [unfolded Some p] g]
    have r: "refs_ok (bump f 1 (\<lambda>_. 0)) (set_ofile fd None s)"
      unfolding set_ofile_def by (rule refs_take [OF g(1) _ o]) (use g(2) in \<open>simp add: live_def\<close>)
    from assms(1) a Some p have c: "fileclose f (set_ofile fd None s) = Ok s'" by (simp add: sys_close_def)
    from refs_fileclose(1) [OF c r] live_fileclose [OF c r] g(2) show ?thesis by (simp add: good_def)
  qed
qed

end
