(* ===== verification/XvDescr.thy ===== *)
theory XvDescr
  imports XvRefs
begin

text \<open>
  The system calls on files and pipes, \<open>wait\<close> and the copy of the descriptors in \<open>fork\<close> keep the reference counts of
  the open files equal to the numbers of descriptors.
\<close>

section \<open>open, pipe, read, write\<close>

lemma refs_end:
  assumes "end_put r k s = Ok (x, s') \<or> end_ret r s = Ok (x, s')" "refs_ok e s" "live s"
  shows "refs_ok e s'" "live s'"
proof -
  have "view s' = view s" using assms(1) by (auto dest!: frame)
  from refs_view [OF this] assms(2,3) show "refs_ok e s'" "live s'" by blast+
qed

lemma good_end: "end_put r k s = Ok (x, s') \<or> end_ret r s = Ok (x, s') \<Longrightarrow> good s \<Longrightarrow> good s'"
  unfolding good_def using refs_end by blast

lemma good_open_tail:
  assumes "fdalloc f s = (fd, s4)" "refs_ok (bump f 1 (\<lambda>_. 0)) s" "live s" "f < NFILE" "\<not> fd < 0"
    and "\<And>x. fref (g x) = fref x" "\<And>x. fref (h x) = fref x"
    and "(if tr then itrunc ip (upd_file f h (upd_file f g s4)) else Ok (upd_file f h (upd_file f g s4))) = Ok s7"
    and "iunlock ip s7 = Ok s8" "end_ret fd s8 = Ok (r, s')"
  shows "good s'"
proof -
  note fl = refs_fdalloc [OF assms(1-4)]
  have "good s4" using fl(2) [OF assms(5)] fl(4) by (simp add: good_def)
  then have "good (upd_file f h (upd_file f g s4))"
    unfolding good_def by (intro conjI refs_upd_file assms(6,7)) simp_all
  moreover have "view s' = view (upd_file f h (upd_file f g s4))"
    using assms(8-10) by (auto split: if_split_asm dest!: frame)
  ultimately show ?thesis by (rule good_view [rotated])
qed

lemma good_sys_open:
  assumes "sys_open s = Ok (r, s')" "good s"
  shows "good s'"
proof -
  from assms(1) obtain om pa where 0: "argint 1 s = Ok om" "argpath 0 s = Ok pa" by (auto simp: sys_open_def)
  show ?thesis
  proof (cases pa)
    case None
    with assms 0 show ?thesis by (simp add: sys_open_def)
  next
    case (Some path)
    with assms(1) 0 obtain s1 i s2 where 1: "begin_op s = Ok s1" "open_inode path om s1 = Ok (i, s2)" by (auto simp: sys_open_def)
    have "view s2 = view s" using 1 by (auto dest!: frame)
    then have g2: "good s2" using good_view assms(2) by blast
    show ?thesis
    proof (cases i)
      case None
      with assms(1) 0 Some 1 g2 show ?thesis by (simp add: sys_open_def)
    next
      case i: (Some ip)
      show ?thesis
      proof (cases "itype (itable s2 ip) = T_DEVICE \<and> (sint (imajor (itable s2 ip)) < 0 \<or> NDEV \<le> sint (imajor (itable s2 ip)))")
        case True
        with assms(1) 0 Some 1 i have "end_put (-1) ip s2 = Ok (r, s')" by (simp add: sys_open_def)
        with g2 good_end show ?thesis by blast
      next
        case dev: False
        obtain fo s3 where f3: "filealloc s2 = (fo, s3)" by (cases "filealloc s2")
        show ?thesis
        proof (cases fo)
          case None
          with assms(1) 0 Some 1 i dev f3 have "end_put (-1) ip s3 = Ok (r, s')" by (auto simp: sys_open_def)
          with g2 good_end filealloc_None [OF f3 [unfolded None]] show ?thesis by blast
        next
          case f: (Some f)
          have rl: "refs_ok (\<lambda>_. 0) s2" "live s2" using g2 by (simp_all add: good_def)
          note fa = refs_filealloc [OF f3 [unfolded f] rl(1)]
          obtain fd s4 where f4: "fdalloc f s3 = (fd, s4)" by (cases "fdalloc f s3")
          have l3: "live s3" using fa(3) rl(2) by simp
          note fl = refs_fdalloc [OF f4 fa(1) l3 fa(2)]
          show ?thesis
          proof (cases "fd < 0")
            case True
            with assms(1) 0 Some 1 i dev f3 f f4 obtain s5 where 5: "fileclose f s4 = Ok s5" "end_put (-1) ip s5 = Ok (r, s')"
              by (auto simp: sys_open_def)
            from fl(1) [OF True] 5(1) have c: "fileclose f s3 = Ok s5" by simp
            have "good s5" using refs_fileclose(1) [OF c fa(1)] live_fileclose [OF c fa(1)] l3 by (simp add: good_def)
            with 5(2) good_end show ?thesis by blast
          next
            case False
            let ?g = "\<lambda>x. if itype (itable s4 ip) = T_DEVICE then x\<lparr>ftype := FD_DEVICE, fmajor := imajor (itable s4 ip)\<rparr>
              else x\<lparr>ftype := FD_INODE, foff := 0\<rparr>"
            let ?h = "\<lambda>x. x\<lparr>fip := ip, freadable := (om AND O_WRONLY = 0),
              fwritable := (om AND O_WRONLY \<noteq> 0 \<or> om AND O_RDWR \<noteq> 0)\<rparr>"
            let ?s6 = "upd_file f ?h (upd_file f ?g s4)"
            from False assms(1) 0 Some 1 i dev f3 f f4 obtain s7 s8 where
              t: "(if om AND O_TRUNC \<noteq> 0 \<and> itype (itable ?s6 ip) = T_FILE then itrunc ip ?s6 else Ok ?s6) = Ok s7"
              "iunlock ip s7 = Ok s8" "end_ret fd s8 = Ok (r, s')"
              unfolding sys_open_def Let_def by auto
            show ?thesis
              by (rule good_open_tail [OF f4 fa(1) l3 fa(2) False _ _ t]) simp_all
          qed
        qed
      qed
    qed
  qed
qed

lemma finish_Ok: "finish m = Ok (v, s') \<longleftrightarrow> m = Ok (Done v, s')"
proof (cases m)
  case (Ok x)
  obtain out t where x: "x = (out, t)" by (cases x)
  show ?thesis by (cases out) (auto simp: finish_def Ok x)
qed (simp_all add: finish_def)

lemma good_fileread:
  assumes "fileread f a n s = Ok (r, s')" "good s"
  shows "good s'"
proof (cases "freadable (ftable s f) \<and> ftype (ftable s f) = FD_INODE")
  case True
  let ?k = "fip (ftable s f)"
  from assms(1) True obtain s1 s2 q where 1: "ilock ?k s = Ok s1"
    "readi ?k True a (foff (ftable s1 f)) (word_of_int n) s1 = Ok (q, s2)"
    "iunlock ?k (if 0 < q then upd_file f (\<lambda>x. x\<lparr>foff := foff x + word_of_int q\<rparr>) s2 else s2) = Ok s'"
    by (auto simp: fileread_def Let_def)
  have "view s2 = view s" using 1(1,2) by (auto dest!: frame)
  then have "good s2" using good_view assms(2) by blast
  then have "good (if 0 < q then upd_file f (\<lambda>x. x\<lparr>foff := foff x + word_of_int q\<rparr>) s2 else s2)"
    by (auto simp: good_def intro: refs_upd_file)
  with view_ilock(2) [OF 1(3)] good_view show ?thesis by blast
next
  case False
  have "view s' = view s"
    using assms(1) False by (auto simp: fileread_def finish_Ok split: if_split_asm fdtype.split_asm dest!: frame)
  with good_view assms(2) show ?thesis by blast
qed

lemma good_filewrite_loop:
  "filewrite_loop f a n i s = Ok (r, s') \<Longrightarrow> good s \<Longrightarrow> good s'"
proof (induction f a n i s rule: filewrite_loop.induct)
  case (1 f a n i s)
  note eq = "1.prems"(1) [unfolded filewrite_loop.simps [of f a n i s] Let_def]
  let ?k = "fip (ftable s f)" and ?m = "min (n - i) WMAX"
  show ?case
  proof (cases "i < n")
    case True
    with eq obtain s1 s2 q s3 s4 s5 where 2: "begin_op s = Ok s1" "ilock ?k s1 = Ok s2"
      "writei ?k True (a + word_of_int i) (foff (ftable s2 f)) (word_of_int ?m) s2 = Ok (q, s3)"
      "iunlock ?k (if 0 < q then upd_file f (\<lambda>x. x\<lparr>foff := foff x + word_of_int q\<rparr>) s3 else s3) = Ok s4" "end_op s4 = Ok s5"
      and rest: "(if q \<noteq> ?m then Ok (i, s5) else filewrite_loop f a n (i + q) s5) = Ok (r, s')" by auto
    have "view s3 = view s" using 2(1-3) by (auto dest!: frame)
    then have "good s3" using good_view "1.prems"(2) by blast
    then have "good (if 0 < q then upd_file f (\<lambda>x. x\<lparr>foff := foff x + word_of_int q\<rparr>) s3 else s3)"
      by (auto simp: good_def intro: refs_upd_file)
    then have "good s4" by (rule good_view [OF view_ilock(2) [OF 2(4)]])
    then have g5: "good s5" by (rule good_view [OF view_ops_log(2) [OF 2(5)]])
    show ?thesis
    proof (cases "q \<noteq> ?m")
      case q: True
      with rest g5 show ?thesis by simp
    next
      case q: False
      with rest have "filewrite_loop f a n (i + q) s5 = Ok (r, s')" by simp
      with "1.IH" [OF True refl refl 2(1-3) refl 2(4,5) q] g5 show ?thesis by blast
    qed
  next
    case False
    with eq "1.prems"(2) show ?thesis by simp
  qed
qed

lemma good_filewrite:
  assumes "filewrite f a n s = Ok (r, s')" "good s"
  shows "good s'"
proof (cases "fwritable (ftable s f) \<and> ftype (ftable s f) = FD_INODE")
  case True
  with assms good_filewrite_loop show ?thesis by (fastforce simp: filewrite_def)
next
  case False
  have "view s' = view s"
    using assms(1) False by (auto simp: filewrite_def finish_Ok split: if_split_asm fdtype.split_asm dest!: frame)
  with good_view assms(2) show ?thesis by blast
qed

lemma good_rw:
  shows "sys_read s = Ok (r, s') \<Longrightarrow> good s \<Longrightarrow> good s'" "sys_write s = Ok (r, s') \<Longrightarrow> good s \<Longrightarrow> good s'"
    "sys_fstat s = Ok (r, s') \<Longrightarrow> good s \<Longrightarrow> good s'"
proof -
  show "sys_read s = Ok (r, s') \<Longrightarrow> good s \<Longrightarrow> good s'"
    by (auto simp: sys_read_def split: option.split_asm prod.split_asm dest: good_fileread)
  show "sys_write s = Ok (r, s') \<Longrightarrow> good s \<Longrightarrow> good s'"
    by (auto simp: sys_write_def split: option.split_asm prod.split_asm dest: good_filewrite)
  have v: "filestat f st s = Ok (r, s') \<Longrightarrow> view s' = view s" for f st
    by (auto simp: filestat_def Let_def split: if_split_asm dest!: frame)
  show "sys_fstat s = Ok (r, s') \<Longrightarrow> good s \<Longrightarrow> good s'"
    by (auto simp: sys_fstat_def split: option.split_asm prod.split_asm dest!: v dest: good_view)
qed

lemma refs_pipealloc:
  assumes "pipealloc s = Ok (p, s')" "refs_ok e s" "live s"
  shows "p = None \<Longrightarrow> refs_ok e s'" and "p = Some (a, b) \<Longrightarrow> refs_ok (bump b 1 (bump a 1 e)) s'"
    and "p = Some (a, b) \<Longrightarrow> a < NFILE \<and> b < NFILE" and "live s'"
proof -
  obtain f0 s1 where 1: "filealloc s = (f0, s1)" by (cases "filealloc s")
  have "(p = None \<longrightarrow> refs_ok e s') \<and> (\<forall>a b. p = Some (a, b) \<longrightarrow> refs_ok (bump b 1 (bump a 1 e)) s' \<and> a < NFILE \<and> b < NFILE) \<and> live s'"
  proof (cases f0)
    case None
    with assms 1 filealloc_None [OF 1 [unfolded None]] show ?thesis by (simp add: pipealloc_def)
  next
    case (Some x)
    note fa = refs_filealloc [OF 1 [unfolded Some] assms(2)]
    have l1: "live s1" using fa(3) assms(3) by simp
    obtain f1 s2 where 2: "filealloc s1 = (f1, s2)" by (cases "filealloc s1")
    show ?thesis
    proof (cases f1)
      case None
      then have "s2 = s1" using filealloc_None 2 by blast
      with assms(1) 1 Some 2 None have c: "fileclose x s1 = Ok s'" "p = None" by (auto simp: pipealloc_def)
      from refs_fileclose(1) [OF c(1) fa(1)] live_fileclose [OF c(1) fa(1)] l1 c(2) show ?thesis by simp
    next
      case y: (Some y)
      note fb = refs_filealloc [OF 2 [unfolded y] fa(1)]
      have l2: "live s2" using fb(3) l1 by simp
      from assms(1) 1 Some 2 y obtain pi s3 where k: "kalloc s2 = Ok (pi, s3)" by (auto simp: pipealloc_def)
      note v = view_mem(1) [OF k]
      have r3: "refs_ok (bump y 1 (bump x 1 e)) s3" "live s3" using refs_view [OF v] fb(1) l2 by blast+
      show ?thesis
      proof (cases "pi = 0")
        case True
        with assms(1) 1 Some 2 y k obtain s4 where c: "fileclose x s3 = Ok s4" "fileclose y s4 = Ok s'" "p = None"
          by (auto simp: pipealloc_def)
        have r4: "refs_ok (bump y 1 e) s4" "live s4"
          using refs_fileclose(1) [OF c(1) r3(1)] live_fileclose [OF c(1) r3(1)] r3(2) by (simp_all add: bump_swap [of x])
        from refs_fileclose(1) [OF c(2) r4(1)] live_fileclose [OF c(2) r4(1)] r4(2) c(3) show ?thesis by simp
      next
        case False
        let ?s4 = "upd_pipe pi (\<lambda>q. q\<lparr>readopen := True, writeopen := True, nwrite := 0, nread := 0\<rparr>) s3"
        have r4: "refs_ok (bump y 1 (bump x 1 e)) ?s4" "live ?s4" using r3 refs_view [of ?s4 s3] by simp_all
        from False assms(1) 1 Some 2 y k have
          "s' = upd_file y (\<lambda>x. x\<lparr>ftype := FD_PIPE, freadable := False, fwritable := True, fpipe := pi\<rparr>)
             (upd_file x (\<lambda>x. x\<lparr>ftype := FD_PIPE, freadable := True, fwritable := False, fpipe := pi\<rparr>) ?s4)" "p = Some (x, y)"
          by (auto simp: pipealloc_def Let_def)
        with r4 fa(2) fb(2) show ?thesis by (auto intro!: refs_upd_file)
      qed
    qed
  qed
  then show "p = None \<Longrightarrow> refs_ok e s'" "p = Some (a, b) \<Longrightarrow> refs_ok (bump b 1 (bump a 1 e)) s'"
    "p = Some (a, b) \<Longrightarrow> a < NFILE \<and> b < NFILE" "live s'" by blast+
qed

lemma good_close_both:
  assumes "close_both a b s = Ok (r, s')" "refs_ok (bump b 1 (bump a 1 (\<lambda>_. 0))) s" "live s"
  shows "good s'"
proof -
  from assms(1) obtain s1 where c: "fileclose a s = Ok s1" "fileclose b s1 = Ok s'" by (auto simp: close_both_def)
  have r1: "refs_ok (bump b 1 (\<lambda>_. 0)) s1" "live s1"
    using refs_fileclose(1) [OF c(1) assms(2)] live_fileclose [OF c(1) assms(2)] assms(3) by (simp_all add: bump_swap [of a])
  from refs_fileclose(1) [OF c(2) r1(1)] live_fileclose [OF c(2) r1(1)] r1(2) show ?thesis by (simp add: good_def)
qed

lemma refs_set_None:
  assumes "refs_ok e s" "live s" "ofile (procs s (cur s)) fd = Some f"
  shows "refs_ok (bump f 1 e) (set_ofile fd None s)"
  unfolding set_ofile_def by (rule refs_take [OF assms(1) _ assms(3)]) (use assms(2) in \<open>simp add: live_def\<close>)

lemma good_sys_pipe:
  assumes "sys_pipe s = Ok (r, s')" "good s"
  shows "good s'"
proof -
  let ?z = "\<lambda>_::nat. 0::int"
  have g: "refs_ok ?z s" "live s" using assms(2) by (simp_all add: good_def)
  from assms(1) obtain fda p s1 where 1: "argaddr 0 s = Ok fda" "pipealloc s = Ok (p, s1)" by (auto simp: sys_pipe_def)
  note pa = refs_pipealloc [OF 1(2) g]
  show ?thesis
  proof (cases p)
    case None
    with assms(1) 1 pa(1,4) show ?thesis by (auto simp: sys_pipe_def good_def)
  next
    case (Some ab)
    obtain a b where ab: "ab = (a, b)" by (cases ab)
    note p = Some ab
    have r1: "refs_ok (bump b 1 (bump a 1 ?z)) s1" "a < NFILE" "b < NFILE" using pa(2,3) p by simp_all
    obtain fd0 s2 where f0: "fdalloc a s1 = (fd0, s2)" by (cases "fdalloc a s1")
    note fl = refs_fdalloc [OF f0 r1(1) pa(4) r1(2)]
    show ?thesis
    proof (cases "fd0 < 0")
      case True
      with assms(1) 1 p f0 have "close_both a b s2 = Ok (r, s')" by (auto simp: sys_pipe_def)
      with good_close_both r1(1) pa(4) fl(1) [OF True] show ?thesis by blast
    next
      case n0: False
      have r2: "refs_ok (bump b 1 ?z) s2" using fl(2) [OF n0] by (simp add: bump_swap [of a])
      obtain fd1 s3 where f1: "fdalloc b s2 = (fd1, s3)" by (cases "fdalloc b s2")
      note fm = refs_fdalloc [OF f1 r2 fl(4) r1(3)]
      show ?thesis
      proof (cases "fd1 < 0")
        case True
        with assms(1) 1 p f0 n0 f1 have c: "close_both a b (set_ofile (nat fd0) None s3) = Ok (r, s')" by (auto simp: sys_pipe_def)
        have "refs_ok (bump a 1 (bump b 1 ?z)) (set_ofile (nat fd0) None s2)"
          by (rule refs_set_None [OF r2 fl(4) fl(3) [OF n0]])
        with good_close_both [OF c] fl(4) fm(1) [OF True] show ?thesis by (simp add: bump_swap [of a])
      next
        case n1: False
        have r3: "refs_ok ?z s3" using fm(2) [OF n1] by simp
        have o0: "ofile (procs s3 (cur s3)) (nat fd0) = Some a" and ne: "nat fd0 \<noteq> nat fd1"
        proof -
          from f1 n1 obtain k where k: "find_slot (\<lambda>fd. ofile (myproc s2) fd = None) 0 NOFILE = Some k" "fd1 = int k"
            "s3 = set_ofile k (Some b) s2" by (auto simp: fdalloc_def split: option.splits)
          from find_slot_Some [OF k(1)] fl(3) [OF n0] have "k \<noteq> nat fd0" by (auto simp: myproc_def)
          with k fl(3) [OF n0] show "ofile (procs s3 (cur s3)) (nat fd0) = Some a" "nat fd0 \<noteq> nat fd1"
            by (auto simp: set_ofile_def)
        qed
        let ?pt = "pagetable (myproc s3)" and ?sz = "psz (myproc s3)"
        from assms(1) 1 p f0 n0 f1 n1 obtain r0 s4 q s5 where
          c: "copyout ?pt ?sz ?pt fda (int_bytes fd0) s3 = Ok (r0, s4)"
            "(if r0 < 0 then Ok (r0, s4) else copyout ?pt ?sz ?pt (fda + 4) (int_bytes fd1) s4) = Ok (q, s5)" and
          rest: "(if q < 0 then close_both a b (set_ofile (nat fd1) None (set_ofile (nat fd0) None s5)) else Ok (0, s5)) = Ok (r, s')"
          by (auto simp: sys_pipe_def Let_def)
        have v: "view s5 = view s3" using c by (auto split: if_split_asm dest!: frame)
        note v' = view_eqD [OF v]
        have r5: "refs_ok ?z s5" "live s5" using refs_view [OF v] r3 fm(4) by blast+
        show ?thesis
        proof (cases "q < 0")
          case False
          with rest r5 show ?thesis by (simp add: good_def)
        next
          case True
          let ?s6 = "set_ofile (nat fd0) None s5"
          have o5: "ofile (procs s5 (cur s5)) (nat fd0) = Some a" "ofile (procs s5 (cur s5)) (nat fd1) = Some b"
            using o0 fm(3) [OF n1] v'(4) fun_cong [OF v'(2), of "cur s3"] by simp_all
          have r6: "refs_ok (bump a 1 ?z) ?s6" by (rule refs_set_None [OF r5 o5(1)])
          have o6: "ofile (procs ?s6 (cur ?s6)) (nat fd1) = Some b" using o5(2) ne by (simp add: set_ofile_def)
          have l6: "live ?s6" using r5(2) by simp
          have "close_both a b (set_ofile (nat fd1) None ?s6) = Ok (r, s')" using rest True by simp
          from good_close_both [OF this refs_set_None [OF r6 l6 o6]] l6 show ?thesis by simp
        qed
      qed
    qed
  qed
qed

section \<open>Processes\<close>

lemma more_upd_proc [simp]:
  fixes s :: "'a fs_state_scheme"
  shows "fs_state.more (upd_proc p f s) = fs_state.more s" "fs_state.more (s\<lparr>nextpid := n\<rparr>) = fs_state.more s"
  by (simp_all add: upd_proc_def)

lemma view_more: "view s' = view s \<Longrightarrow> fs_state.more s' = fs_state.more s"
  by (simp add: view_def)

lemma ftable_more:
  fixes s s' :: "'a file_state_scheme"
  shows "fs_state.more s' = fs_state.more s \<Longrightarrow> ftable s' = ftable s"
  by (cases s; cases s'; simp)

text \<open>A change of the process table that keeps the descriptors and makes only processes without any dead.\<close>

lemma refs_procs:
  fixes s s' :: "'a file_state_scheme"
  assumes "refs_ok e s" "fs_state.more s' = fs_state.more s" "omap s' = omap s"
    and "\<forall>p < NPROC. dead (procs s' p) \<longrightarrow> dead (procs s p) \<or> ofile (procs s p) = (\<lambda>_. None)"
  shows "refs_ok e s'"
  unfolding refs_ok_def assms(3) ftable_more [OF assms(2)]
  by (rule rinv_dead [OF assms(1) [unfolded refs_ok_def]]) (use assms(4) in auto)

lemma refs_dead_None:
  assumes "refs_ok e s" "p < NPROC" "dead (procs s p)"
  shows "ofile (procs s p) = (\<lambda>_. None)"
proof
  fix fd
  show "ofile (procs s p) fd = None"
    using assms unfolding refs_ok_def rinv_def by (cases "ofile (procs s p) fd") auto
qed

lemma more_freeproc:
  fixes s s' :: "'a fs_state_scheme"
  assumes "freeproc i s = Ok s'"
  shows "fs_state.more s' = fs_state.more s"
  using assms by (auto simp: freeproc_def Let_def split: if_split_asm dest!: frame view_more)

lemma more_allocproc:
  fixes s s' :: "'a fs_state_scheme"
  assumes "allocproc s = Ok (r, s')"
  shows "fs_state.more s' = fs_state.more s"
  using assms by (auto simp: allocproc_def allocpid_def Let_def split: if_split_asm option.split_asm dest!: frame view_more more_freeproc)

lemma refs_freeproc:
  fixes s s' :: "'a file_state_scheme"
  assumes "freeproc i s = Ok s'" "refs_ok e s" "ofile (procs s i) = (\<lambda>_. None)"
  shows "refs_ok e s'" and "i \<noteq> cur s \<Longrightarrow> live s' \<longleftrightarrow> live s"
proof -
  note p = freeproc_procs [OF assms(1)]
  show "refs_ok e s'"
  proof (rule refs_procs [OF assms(2) more_freeproc [OF assms(1)]])
    show "omap s' = omap s" unfolding p(1) by auto
    show "\<forall>p<NPROC. dead (procs s' p) \<longrightarrow> dead (procs s p) \<or> ofile (procs s p) = (\<lambda>_. None)"
      unfolding p(1) using assms(3) by auto
  qed
  show "i \<noteq> cur s \<Longrightarrow> live s' \<longleftrightarrow> live s" by (simp add: live_def p)
qed

lemma refs_allocproc_Some:
  fixes s s' :: "'a file_state_scheme"
  assumes "allocproc s = Ok (Some j, s')" "refs_ok e s"
  shows "refs_ok e s'" and "j < NPROC" and "dead (procs s j)" and "\<not> dead (procs s' j)" and "ofile (procs s' j) = (\<lambda>_. None)"
    and "live s \<Longrightarrow> live s' \<and> j \<noteq> cur s'"
proof -
  note al = allocproc_Some [OF assms(1)]
  from find_slot_Some [OF al(1)] show j: "j < NPROC" "dead (procs s j)" by (auto simp: dead_def)
  have oj: "ofile (procs s' j) = ofile (procs s j)" by (subst al(2)) simp
  show nd: "\<not> dead (procs s' j)" unfolding dead_def by (subst (1 2) al(2)) simp
  show "ofile (procs s' j) = (\<lambda>_. None)" using oj refs_dead_None [OF assms(2) j] by simp
  show "refs_ok e s'"
  proof (rule refs_procs [OF assms(2) more_allocproc [OF assms(1)]])
    show "omap s' = omap s"
    proof
      fix p
      show "omap s' p = omap s p" using al(3) oj by (cases "p = j") simp_all
    qed
    show "\<forall>p<NPROC. dead (procs s' p) \<longrightarrow> dead (procs s p) \<or> ofile (procs s p) = (\<lambda>_. None)"
      using al(3) j(2) by metis
  qed
  show "live s \<Longrightarrow> live s' \<and> j \<noteq> cur s'"
    using allocproc_cur [OF assms(1)] al(3) j(2) by (cases "cur s = j") (auto simp: live_def)
qed

text \<open>A slot other than the caller's, with no open files.\<close>

definition idle :: "nat \<Rightarrow> 'a file_state_scheme \<Rightarrow> bool" where
  "idle i s \<longleftrightarrow> good s \<and> ofile (procs s i) = (\<lambda>_. None) \<and> i \<noteq> cur s"

lemma idle_upd_proc:
  fixes s :: "'a file_state_scheme"
  assumes "idle i s" "\<And>q. ofile (f q) = ofile q"
  shows "idle i (upd_proc i f s)"
proof -
  have "refs_ok (\<lambda>_. 0) (upd_proc i f s)"
    by (rule refs_procs [of _ s]) (use assms in \<open>auto simp: idle_def good_def fun_eq_iff\<close>)
  with assms show ?thesis by (simp add: idle_def good_def live_def)
qed

lemma idle_view:
  assumes "view s' = view s" "idle i s"
  shows "idle i s'"
  using good_view [OF assms(1)] view_eqD(4) [OF assms(1)] fun_cong [OF view_eqD(2) [OF assms(1)], of i] assms(2)
  by (simp add: idle_def)

lemma idle_freeproc: "freeproc i s = Ok s' \<Longrightarrow> idle i s \<Longrightarrow> good s'"
  using refs_freeproc [of i s s' "\<lambda>_. 0"] by (auto simp: idle_def good_def)

lemma idle_slot:
  assumes "good s" "i < NPROC" "dead (procs s i)"
  shows "idle i s"
  using assms refs_dead_None [of "\<lambda>_. 0" s i] by (auto simp: idle_def good_def live_def)

lemma good_allocproc_None:
  fixes s s' :: "'a file_state_scheme"
  assumes "allocproc s = Ok (None, s')" "good s"
  shows "good s'"
proof (cases "find_slot (\<lambda>i. state (procs s i) = UNUSED) 0 NPROC")
  case None
  with assms show ?thesis by (simp add: allocproc_def)
next
  case (Some i)
  let ?s1 = "s\<lparr>nextpid := nextpid s + 1\<rparr>"
  let ?s2 = "upd_proc i (\<lambda>p. p\<lparr>pid := nextpid s, state := USED\<rparr>) ?s1"
  from find_slot_Some [OF Some] have "idle i s" by (intro idle_slot assms(2)) (auto simp: dead_def)
  then have "idle i ?s1" by (rule idle_view [rotated]) simp
  then have i2: "idle i ?s2" by (rule idle_upd_proc) simp
  from assms(1) Some obtain tf s3 where k: "kalloc ?s2 = Ok (tf, s3)" by (auto simp: allocproc_def allocpid_def Let_def)
  let ?s4 = "upd_proc i (\<lambda>p. p\<lparr>trapframe := tf\<rparr>) s3"
  have i4: "idle i ?s4" by (rule idle_upd_proc [OF idle_view [OF view_mem(1) [OF k] i2]]) simp
  show ?thesis
  proof (cases "tf = 0")
    case True
    with assms(1) Some k have "freeproc i ?s4 = Ok s'" by (auto simp: allocproc_def allocpid_def Let_def)
    with i4 idle_freeproc show ?thesis by blast
  next
    case False
    with assms(1) Some k obtain pt s5 where p: "proc_pagetable tf ?s4 = Ok (pt, s5)"
      by (auto simp: allocproc_def allocpid_def Let_def)
    have "idle i (upd_proc i (\<lambda>p. p\<lparr>pagetable := pt\<rparr>) s5)"
      by (rule idle_upd_proc [OF idle_view [OF view_mem(6) [OF p] i4]]) simp
    moreover from False assms(1) Some k p have "freeproc i (upd_proc i (\<lambda>p. p\<lparr>pagetable := pt\<rparr>) s5) = Ok s'"
      by (auto simp: allocproc_def allocpid_def Let_def split: if_split_asm)
    ultimately show ?thesis using idle_freeproc by blast
  qed
qed

lemma good_wait:
  fixes s s' :: "'a file_state_scheme"
  assumes "wait addr s = Ok (Done r, s')" "good s"
  shows "good s'"
proof (cases "find_slot (\<lambda>i. parent (procs s i) = Some (cur s) \<and> state (procs s i) = ZOMBIE) 0 NPROC")
  case None
  with assms show ?thesis by (auto simp: wait_def Let_def split: if_split_asm)
next
  case (Some i)
  let ?c = "if addr \<noteq> 0 then copyout (pagetable (myproc s)) (psz (myproc s)) (pagetable (myproc s)) addr (int_bytes (xstate (procs s i))) s
    else Ok (0, s)"
  from assms(1) Some obtain q s1 where 1: "?c = Ok (q, s1)" and
    rest: "s1 = s' \<or> freeproc i s1 = Ok s'"
    by (auto simp: wait_def Let_def split: if_split_asm)
  have v: "view s1 = view s" using 1 by (auto split: if_split_asm dest!: frame)
  from find_slot_Some [OF Some] have "idle i s" by (intro idle_slot assms(2)) (auto simp: dead_def)
  with v have "idle i s1" by (rule idle_view)
  with rest idle_freeproc [of i s1] show ?thesis by (auto simp: idle_def)
qed

text \<open>\<open>fork\<close> gives the child a copy of every descriptor.\<close>

lemma refs_fork_fd:
  fixes s s' :: "'a sys_state_scheme"
  assumes "fork_fd j i s = Ok s'" "good s" "j < NPROC" "i < NOFILE" "\<not> dead (procs s j)" "ofile (procs s j) i = None" "j \<noteq> cur s"
  shows "good s'" and "\<not> dead (procs s' j)" and "\<forall>k. k \<noteq> i \<longrightarrow> ofile (procs s' j) k = ofile (procs s j) k" and "cur s' = cur s"
proof -
  have g: "refs_ok (\<lambda>_. 0) s" "live s" using assms(2) by (simp_all add: good_def)
  have "good s' \<and> \<not> dead (procs s' j) \<and> (\<forall>k. k \<noteq> i \<longrightarrow> ofile (procs s' j) k = ofile (procs s j) k) \<and> cur s' = cur s"
  proof (cases "ofile (procs s (cur s)) i")
    case None
    with assms show ?thesis by (simp add: fork_fd_def myproc_def)
  next
    case (Some f)
    from assms(1) Some obtain s1 where 1: "filedup f s = Ok s1"
      "s' = upd_proc j (\<lambda>q. q\<lparr>ofile := (ofile q)(i := Some f)\<rparr>) s1" by (auto simp: fork_fd_def myproc_def)
    note fd = refs_filedup [OF 1(1) g(1)]
    have f: "f < NFILE" using rinv_bound(2) [OF g(1) [unfolded refs_ok_def] _ Some] g(2) by (simp add: live_def)
    have "refs_ok (\<lambda>_. 0) s'"
      using refs_give [OF fd(1) assms(3,4) f] assms(5,6) fd(3) by (simp add: 1(2))
    moreover have "live s'" "\<not> dead (procs s' j)"
      using fd(2-4) g(2) assms(5,7) by (simp_all add: 1(2) live_def dead_def)
    ultimately show ?thesis using fd(3,4) by (simp add: good_def 1(2))
  qed
  then show "good s'" "\<not> dead (procs s' j)" "\<forall>k. k \<noteq> i \<longrightarrow> ofile (procs s' j) k = ofile (procs s j) k" "cur s' = cur s"
    by blast+
qed

lemma good_fork_fds:
  fixes s s' :: "'a sys_state_scheme"
  assumes "foldM (fork_fd j) xs s = Ok s'" "distinct xs" "set xs \<subseteq> {..<NOFILE}" "good s" "j < NPROC" "\<not> dead (procs s j)"
    "\<forall>i \<in> set xs. ofile (procs s j) i = None" "j \<noteq> cur s"
  shows "good s' \<and> \<not> dead (procs s' j) \<and> cur s' = cur s"
  using assms
proof (induction xs arbitrary: s)
  case (Cons x xs)
  from Cons.prems(1) obtain s1 where 1: "fork_fd j x s = Ok s1" "foldM (fork_fd j) xs s1 = Ok s'" by auto
  have x: "x < NOFILE" "ofile (procs s j) x = None" using Cons.prems(3,7) by auto
  note r = refs_fork_fd [OF 1(1) Cons.prems(4,5) x(1) Cons.prems(6) x(2) Cons.prems(8)]
  have "\<forall>i \<in> set xs. ofile (procs s1 j) i = None" using r(3) Cons.prems(2,7) by fastforce
  with Cons.IH [OF 1(2)] Cons.prems r show ?case by simp
qed simp

end
