(* ===== verification/XvKernel.thy ===== *)
theory XvKernel
  imports XvDescr
begin

text \<open>
  The system calls that create, end and resize processes, and the dispatcher \<open>syscall\<close>: all system calls keep the
  counts of the open files.
\<close>

section \<open>Creation and end of processes\<close>

lemma upt_sub: "set [0..<n] \<subseteq> {..<n}"
  by auto

lemma good_fork:
  fixes s s' :: "'a sys_state_scheme"
  assumes "fork s = Ok (r, s')" "good s"
  shows "good s'"
proof -
  from assms(1) obtain np s1 where a: "allocproc s = Ok (np, s1)" by (auto simp: fork_def)
  show ?thesis
  proof (cases np)
    case None
    with assms(1) a good_allocproc_None [OF _ assms(2)] show ?thesis by (auto simp: fork_def)
  next
    case (Some j)
    note al = refs_allocproc_Some [OF a [unfolded Some], of "\<lambda>_. 0"]
    have 1: "good s1" "j < NPROC" "\<not> dead (procs s1 j)" "idle j s1"
      using al assms(2) by (auto simp: good_def idle_def)
    from assms(1) a Some obtain q s2 where
      u: "uvmcopy (pagetable (myproc s1)) (pagetable (procs s1 j)) (psz (myproc s1)) s1 = Ok (q, s2)" by (auto simp: fork_def)
    note v2 = view_mem(8) [OF u]
    have i2: "idle j s2" by (rule idle_view [OF v2 1(4)])
    show ?thesis
    proof (cases "q < 0")
      case True
      with assms(1) a Some u have "freeproc j s2 = Ok s'" by (auto simp: fork_def)
      with i2 show ?thesis using idle_freeproc by blast
    next
      case False
      let ?s3 = "upd_proc j (\<lambda>q. q\<lparr>psz := psz (myproc s2)\<rparr>) s2"
      let ?s4 = "?s3\<lparr>phys := memmove (phys ?s3) (trapframe (procs ?s3 j)) (trapframe (myproc ?s3)) 288\<rparr>"
      let ?s5 = "?s4\<lparr>phys := st64 (phys ?s4) (trapframe (procs ?s4 j) + TF_A0) 0\<rparr>"
      from assms(1) a Some u False obtain s6 k where f: "foldM (fork_fd j) [0..<NOFILE] ?s5 = Ok s6" "cwd (myproc s6) = Some k"
        by (auto simp: fork_def Let_def split: option.split_asm)
      have v5: "view ?s5 = view s2" by (simp add: view_upd_proc dead_def)
      have i5: "idle j ?s5" by (rule idle_view [OF v5 i2])
      have d5: "\<not> dead (procs ?s5 j)" using 1(3) fun_cong [OF view_eqD(3) [OF v5], of j] fun_cong [OF view_eqD(3) [OF v2], of j] by simp
      have g6: "good s6" "\<not> dead (procs s6 j)" "j \<noteq> cur s6"
        using good_fork_fds [OF f(1) distinct_upt upt_sub _ 1(2) d5] i5 by (auto simp: idle_def)
      let ?s7 = "upd_proc j (\<lambda>q. q\<lparr>cwd := Some k\<rparr>) (idup k s6)"
      let ?s8 = "upd_proc j (\<lambda>q. q\<lparr>pname := safestrcpy (pname q) (pname (myproc ?s7)) 16\<rparr>) ?s7"
      have s': "s' = upd_proc j (\<lambda>q. q\<lparr>parent := Some (cur ?s8), state := RUNNABLE\<rparr>) ?s8"
        using assms(1) a Some u False f by (auto simp: fork_def Let_def)
      have "refs_ok (\<lambda>_. 0) s'"
      proof (rule refs_procs [of _ s6])
        show "refs_ok (\<lambda>_. 0) s6" using g6(1) by (simp add: good_def)
        show "fs_state.more s' = fs_state.more s6" using view_more [OF view_ops(7) [of k s6]] by (simp add: s')
        show "omap s' = omap s6" by (auto simp: s')
        show "\<forall>p<NPROC. dead (procs s' p) \<longrightarrow> dead (procs s6 p) \<or> ofile (procs s6 p) = (\<lambda>_. None)"
          by (auto simp: s' dead_def)
      qed
      moreover have "live s'" using g6 by (auto simp: s' good_def live_def)
      ultimately show ?thesis by (simp add: good_def)
    qed
  qed
qed

lemma refs_exit_fd:
  fixes s s' :: "'a sys_state_scheme"
  assumes "exit_fd fd s = Ok s'" "good s"
  shows "good s'" and "cur s' = cur s" and "omap s' = (omap s)(cur s := (omap s (cur s))(fd := None))"
proof -
  have g: "refs_ok (\<lambda>_. 0) s" "live s" using assms(2) by (simp_all add: good_def)
  have "good s' \<and> cur s' = cur s \<and> omap s' = (omap s)(cur s := (omap s (cur s))(fd := None))"
  proof (cases "ofile (procs s (cur s)) fd")
    case None
    then have "(omap s (cur s))(fd := None) = omap s (cur s)" by auto
    with None assms show ?thesis by (auto simp: exit_fd_def myproc_def)
  next
    case (Some f)
    from assms(1) Some obtain s1 where 1: "fileclose f s = Ok s1"
      "s' = upd_proc (cur s1) (\<lambda>q. q\<lparr>ofile := (ofile q)(fd := None)\<rparr>) s1" by (auto simp: exit_fd_def myproc_def)
    note c = refs_fileclose [OF 1(1) g(1)] and l = live_fileclose [OF 1(1) g(1)]
    have o1: "ofile (procs s1 (cur s1)) fd = Some f" using Some fun_cong [OF c(2), of "cur s"] c(4) by simp
    have "refs_ok (\<lambda>_. 0) s'" using refs_take [OF c(1) _ o1] l g(2) by (simp add: 1(2) live_def)
    moreover have "live s'" using l g(2) by (simp add: 1(2) live_def dead_def)
    moreover have "omap s' = (omap s)(cur s := (omap s (cur s))(fd := None))"
      unfolding 1(2) omap_upd_proc using c(4) fun_cong [OF c(2)] by auto
    moreover have "cur s' = cur s" using c(4) by (simp add: 1(2))
    ultimately show ?thesis by (simp add: good_def)
  qed
  then show "good s'" "cur s' = cur s" "omap s' = (omap s)(cur s := (omap s (cur s))(fd := None))" by blast+
qed

lemma good_exit_fds:
  fixes s s' :: "'a sys_state_scheme"
  assumes "foldM exit_fd xs s = Ok s'" "good s"
  shows "good s' \<and> cur s' = cur s \<and> (\<forall>fd. ofile (procs s' (cur s)) fd = (if fd \<in> set xs then None else ofile (procs s (cur s)) fd))"
  using assms
proof (induction xs arbitrary: s)
  case (Cons x xs)
  from Cons.prems(1) obtain s1 where 1: "exit_fd x s = Ok s1" "foldM exit_fd xs s1 = Ok s'" by auto
  note r = refs_exit_fd [OF 1(1) Cons.prems(2)]
  from Cons.IH [OF 1(2) r(1)] fun_cong [OF r(3), of "cur s"] r(2) show ?case by auto
qed simp

lemma view_reparent [simp]:
  fixes s :: "'a fs_state_scheme"
  shows "view (reparent p s) = view s"
proof -
  have "view (fold (\<lambda>i s. if parent (procs s i) = Some p
     then wakeup (case initproc s of None \<Rightarrow> ChNull | Some j \<Rightarrow> ChProc j) (upd_proc i (\<lambda>q. q\<lparr>parent := initproc s\<rparr>) s)
     else s) xs s) = view s" for xs and s :: "'a fs_state_scheme"
    by (induction xs arbitrary: s) (simp_all add: view_upd_proc dead_def)
  then show ?thesis by (simp add: reparent_def)
qed

lemma refs_exit:
  fixes s s' :: "'a sys_state_scheme"
  assumes "exit status s = Ok s'" "good s"
  shows "refs_ok (\<lambda>_. 0) s'"
proof -
  from assms(1) obtain s1 s2 s3 s4 k where 1: "foldM exit_fd [0..<NOFILE] s = Ok s1" "begin_op s1 = Ok s2"
    "cwd (myproc s2) = Some k" "iput k s2 = Ok s3" "end_op s3 = Ok s4"
    by (auto simp: exit_def split: if_split_asm option.split_asm)
  let ?s5 = "upd_proc (cur s4) (\<lambda>q. q\<lparr>cwd := None\<rparr>) s4"
  let ?s6 = "reparent (cur ?s5) ?s5"
  let ?s7 = "wakeup (case parent (myproc ?s6) of None \<Rightarrow> ChNull | Some j \<Rightarrow> ChProc j) ?s6"
  have s': "s' = upd_proc (cur ?s7) (\<lambda>q. q\<lparr>xstate := status, state := ZOMBIE\<rparr>) ?s7"
    using assms(1) 1 by (auto simp: exit_def Let_def split: if_split_asm)
  have "view s2 = view s1" "view s3 = view s2" "view s4 = view s3" using 1 by (auto dest: frame)
  then have v: "view ?s7 = view s1" by (simp add: view_upd_proc dead_def)
  note x = good_exit_fds [OF 1(1) assms(2)]
  have n: "ofile (procs s1 (cur s1)) = (\<lambda>_. None)"
  proof
    fix fd
    show "ofile (procs s1 (cur s1)) fd = None"
    proof (cases "fd < NOFILE")
      case False
      then show ?thesis using x rinv_bound(1) [of "\<lambda>_. 0" _ "omap s1" _ "cur s1" fd]
        by (cases "ofile (procs s1 (cur s1)) fd") (fastforce simp: good_def refs_ok_def live_def)+
    qed (use x in auto)
  qed
  show ?thesis
  proof (rule refs_procs [of _ ?s7])
    show "refs_ok (\<lambda>_. 0) ?s7" using refs_view(1) [OF v] x by (simp add: good_def)
    show "fs_state.more s' = fs_state.more ?s7" by (simp add: s')
    show "omap s' = omap ?s7" by (auto simp: s')
    show "\<forall>p<NPROC. dead (procs s' p) \<longrightarrow> dead (procs ?s7 p) \<or> ofile (procs ?s7 p) = (\<lambda>_. None)"
      using n fun_cong [OF view_eqD(2) [OF v]] view_eqD(4) [OF v] by (auto simp: s')
  qed
qed

lemma refs_userinit:
  fixes s s' :: "'a sys_state_scheme"
  assumes "userinit s = Ok s'" "refs_ok (\<lambda>_. 0) s"
  shows "refs_ok (\<lambda>_. 0) s'"
proof -
  from assms(1) obtain j s1 ip s3 where 1: "allocproc s = Ok (Some j, s1)" "namei [SLASH] (s1\<lparr>initproc := Some j\<rparr>) = Ok (ip, s3)"
    "s' = upd_proc j (\<lambda>q. q\<lparr>cwd := ip, state := RUNNABLE\<rparr>) s3"
    by (auto simp: userinit_def Let_def split: option.split_asm)
  have v: "view s3 = view s1" using 1(2) by (auto dest: frame)
  have "refs_ok (\<lambda>_. 0) s3" using refs_view(1) [OF v] refs_allocproc_Some(1) [OF 1(1) assms(2)] by simp
  then show ?thesis by (rule refs_procs) (auto simp: 1(3) dead_def)
qed

section \<open>All system calls\<close>

lemma view_shrinkproc [frame]:
  fixes s s' :: "'a fs_state_scheme"
  shows "shrinkproc n s = Ok (r, s') \<Longrightarrow> view s' = view s"
  by (auto simp: shrinkproc_def Let_def view_upd_proc dead_def split: if_split_asm dest!: frame)

lemma view_sys_sbrk [frame]:
  fixes s s' :: "'a sys_state_scheme"
  shows "sys_sbrk s = Ok (r, s') \<Longrightarrow> view s' = view s"
  by (auto simp: sys_sbrk_def Let_def view_upd_proc dead_def split: if_split_asm dest!: frame)

lemma view_sysproc [frame]:
  fixes s s' :: "'a sys_state_scheme"
  shows "sys_kill s = Ok (r, s') \<Longrightarrow> view s' = view s" "sys_sleep s = Ok (Done r, s') \<Longrightarrow> view s' = view s"
    "sys_sem_init s = Ok (r, s') \<Longrightarrow> view s' = view s" "sys_sem_down s = Ok (Done q, s') \<Longrightarrow> view s' = view s"
    "sys_sem_up s = Ok (r, s') \<Longrightarrow> view s' = view s" "sys_shm_get s = Ok (a, s') \<Longrightarrow> view s' = view s"
  by (auto simp: sys_kill_def sys_sleep_def sys_sleep_loop_def sys_sem_init_def sys_sem_down_def sys_sem_up_def sys_shm_get_def
      split: if_split_asm dest!: frame)

lemma ret64_Ok: "ret64 m = Ok (v, s') \<longleftrightarrow> (\<exists>r. m = Ok (r, s') \<and> v = word_of_int r)"
  by (cases m) (auto simp: ret64_def)

lemma good_syscalls:
  fixes s s' :: "'a exec_state_scheme"
  assumes "syscalls n s = Some (Ok (v, s'))" "good s"
  shows "good s'"
proof -
  have g: "view s' = view s \<Longrightarrow> good s'" using good_view assms(2) by blast
  have w: "sys_wait s = Ok (Done r, s') \<Longrightarrow> good s'" for r
    using good_wait assms(2) by (auto simp: sys_wait_def)
  have f: "sys_fork s = Ok (r, s') \<Longrightarrow> good s'" for r
    using good_fork assms(2) by (auto simp: sys_fork_def)
  show ?thesis
    using assms(1) unfolding syscalls_def
    by (auto simp: ret64_Ok finish_Ok split: if_split_asm dest: w f good_sys_pipe [OF _ assms(2)] good_rw [OF _ assms(2)]
        good_sys_dup [OF _ assms(2)] good_sys_open [OF _ assms(2)] good_sys_close [OF _ assms(2)] dest!: frame intro: g)
qed

lemma view_set_a0 [simp]:
  fixes s :: "'a exec_state_scheme"
  shows "view (set_a0 v s) = view s"
  by (simp add: set_a0_def)

lemma good_syscall:
  fixes s s' :: "'a exec_state_scheme"
  assumes "syscall s = Ok s'" "good s"
  shows "good s'"
proof -
  have a0: "good (set_a0 v t)" if "good t" for v and t :: "'a exec_state_scheme"
    by (rule good_view [OF view_set_a0 that])
  let ?num = "sint (ucast (ld64 (phys s) (trapframe (myproc s) + TF_A7)) :: uint32)"
  show ?thesis
  proof (cases "if 0 < ?num then syscalls (nat ?num) s else None")
    case None
    then obtain s1 fmt args where p: "printf fmt args s = Ok s1" "s' = set_a0 (-1) s1"
      using assms(1) unfolding syscall_def Let_def by (auto simp del: if_not_P)
    show ?thesis unfolding p(2) by (rule a0 [OF good_view [OF view_printf [OF p(1)] assms(2)]])
  next
    case (Some m)
    then obtain v s1 where m: "m = Ok (v, s1)" "s' = set_a0 v s1"
      using assms(1) unfolding syscall_def Let_def by auto
    with Some have "syscalls (nat ?num) s = Some (Ok (v, s1))" by (simp split: if_split_asm)
    from a0 [OF good_syscalls [OF this assms(2)]] m(2) show ?thesis by simp
  qed
qed

end
