(* ===== verification/XvVirtio.thy ===== *)
theory XvVirtio
  imports XvExec
begin

unbundle bit_operations_syntax

text \<open>
  The disk driver kernel/virtio_disk.c. The three rings are arrays of the state, next to the addresses of the pages
  given to the device; the address in a descriptor names the structure it points to. The device is a
  parameter: what a read of one of its registers returns after the writes so far, and what it does to the rings.
  \<open>virtio_disk_rw\<close> is cut where it sleeps: \<open>virtio_submit\<close> up to the notification, \<open>virtio_finish\<close> after the wait.
\<close>

section \<open>State\<close>

abbreviation (input) NUM :: nat where "NUM \<equiv> 8"
abbreviation (input) VRING_DESC_F_NEXT :: uint16 where "VRING_DESC_F_NEXT \<equiv> 1"
abbreviation (input) VRING_DESC_F_WRITE :: uint16 where "VRING_DESC_F_WRITE \<equiv> 2"
abbreviation (input) VIRTIO_BLK_T_IN :: uint32 where "VIRTIO_BLK_T_IN \<equiv> 0"
abbreviation (input) VIRTIO_BLK_T_OUT :: uint32 where "VIRTIO_BLK_T_OUT \<equiv> 1"

text \<open>What a descriptor points to: nothing, \<open>disk.ops[i]\<close>, the data of a buffer, or \<open>disk.info[i].status\<close>.\<close>

datatype dma = DNull | DOps nat | DData nat | DStatus nat

record virtq_desc =
  daddr :: dma
  dlen :: uint32
  dflags :: uint16
  dnext :: uint16

record virtio_blk_req =
  rtype :: uint32
  reserved :: uint32
  sector :: uint64

record virtio_state = exec_state +
  desc_pa :: uint64
  avail_pa :: uint64
  used_pa :: uint64
  desc :: "nat \<Rightarrow> virtq_desc"
  avail_idx :: uint16
  avail_ring :: "nat \<Rightarrow> uint16"
  dev_used_idx :: uint16
  used_ring :: "nat \<Rightarrow> uint32"
  dfree :: "nat \<Rightarrow> bool"
  used_idx :: uint16
  info_b :: "nat \<Rightarrow> nat option"
  info_status :: "nat \<Rightarrow> uint8"
  ops :: "nat \<Rightarrow> virtio_blk_req"
  bdisk :: "nat \<Rightarrow> bool"
  mmio :: "(nat \<times> uint32) list \<Rightarrow> nat \<Rightarrow> uint32"
  mmio_writes :: "(nat \<times> uint32) list"

definition vreg :: "nat \<Rightarrow> 'a virtio_state_scheme \<Rightarrow> uint32" where
  "vreg r s = mmio s (mmio_writes s) r"

definition vwrite :: "nat \<Rightarrow> uint32 \<Rightarrow> 'a virtio_state_scheme \<Rightarrow> 'a virtio_state_scheme" where
  "vwrite r v s = s\<lparr>mmio_writes := mmio_writes s @ [(r, v)]\<rparr>"

definition desc0 :: virtq_desc where
  "desc0 = \<lparr>daddr = DNull, dlen = 0, dflags = 0, dnext = 0\<rparr>"

definition upd_desc :: "nat \<Rightarrow> (virtq_desc \<Rightarrow> virtq_desc) \<Rightarrow> 'a virtio_state_scheme \<Rightarrow> 'a virtio_state_scheme" where
  "upd_desc i f s = s\<lparr>desc := (desc s)(i := f (desc s i))\<rparr>"

text \<open>Channels: \<open>ChDisk i\<close> is buffer \<open>i\<close>, \<open>ChDisk NBUF\<close> is \<open>&disk.free[0]\<close>.\<close>

section \<open>Initialisation\<close>

definition virtio_features :: "uint32 \<Rightarrow> uint32" where
  "virtio_features f = fold (\<lambda>b f. f AND NOT (push_bit b 1)) [5, 7, 11, 12, 27, 29, 28] f"

definition virtio_queue_init :: "uint32 \<Rightarrow> 'a virtio_state_scheme \<Rightarrow> 'a virtio_state_scheme res" where
  "virtio_queue_init status s =
     bindr (kalloc s) (\<lambda>(d, s1). bindr (kalloc s1) (\<lambda>(a, s2). bindr (kalloc s2) (\<lambda>(u, s3).
       if d = 0 \<or> a = 0 \<or> u = 0 then Panic ''virtio disk kalloc''
       else
         let zero = (\<lambda>p s. s\<lparr>phys := memset (phys s) p 0 4096\<rparr>);
             s4 = (zero u (zero a (zero d s3)))\<lparr>desc_pa := d, avail_pa := a, used_pa := u, desc := (\<lambda>_. desc0),
               avail_idx := 0, avail_ring := (\<lambda>_. 0), dev_used_idx := 0, used_ring := (\<lambda>_. 0)\<rparr>;
             s5 = vwrite 0x38 8 s4;
             s6 = vwrite 0xa4 (ucast (drop_bit 32 u)) (vwrite 0xa0 (ucast u)
                    (vwrite 0x94 (ucast (drop_bit 32 a)) (vwrite 0x90 (ucast a)
                    (vwrite 0x84 (ucast (drop_bit 32 d)) (vwrite 0x80 (ucast d) s5)))));
             s7 = vwrite 0x44 1 s6;
             s8 = s7\<lparr>dfree := (\<lambda>i. i < NUM \<or> dfree s7 i)\<rparr>
         in Ok (vwrite 0x70 (status OR 4) s8))))"

definition virtio_disk_init :: "'a virtio_state_scheme \<Rightarrow> 'a virtio_state_scheme res" where
  "virtio_disk_init s =
     (if vreg 0 s \<noteq> 0x74726976 \<or> vreg 4 s \<noteq> 2 \<or> vreg 8 s \<noteq> 2 \<or> vreg 0xc s \<noteq> 0x554d4551
      then Panic ''could not find virtio disk''
      else
        let s1 = vwrite 0x70 3 (vwrite 0x70 1 (vwrite 0x70 0 s));
            s2 = vwrite 0x20 (virtio_features (vreg 0x10 s1)) s1;
            s3 = vwrite 0x70 11 s2;
            status = vreg 0x70 s3
        in if status AND 8 = 0 then Panic ''virtio disk FEATURES_OK unset''
           else
             let s4 = vwrite 0x30 0 s3
             in if vreg 0x44 s4 \<noteq> 0 then Panic ''virtio disk should not be ready''
                else if vreg 0x34 s4 = 0 then Panic ''virtio disk has no queue 0''
                else if vreg 0x34 s4 < 8 then Panic ''virtio disk max queue too short''
                else virtio_queue_init status s4)"

section \<open>Descriptors\<close>

definition alloc_desc :: "'a virtio_state_scheme \<Rightarrow> nat option \<times> 'a virtio_state_scheme" where
  "alloc_desc s =
     (case find_slot (dfree s) 0 NUM of
        None \<Rightarrow> (None, s)
      | Some i \<Rightarrow> (Some i, s\<lparr>dfree := (dfree s)(i := False)\<rparr>))"

definition free_desc :: "nat \<Rightarrow> 'a virtio_state_scheme \<Rightarrow> 'a virtio_state_scheme res" where
  "free_desc i s =
     (if NUM \<le> i then Panic ''free_desc 1''
      else if dfree s i then Panic ''free_desc 2''
      else Ok (wakeup (ChDisk NBUF) ((upd_desc i (\<lambda>_. desc0) s)\<lparr>dfree := (dfree s)(i := True)\<rparr>)))"

text \<open>Each round of \<open>free_chain\<close> frees a descriptor that was not free, so a chain has at most \<open>NUM\<close> of them.\<close>

primrec free_chain_loop :: "nat \<Rightarrow> nat \<Rightarrow> 'a virtio_state_scheme \<Rightarrow> 'a virtio_state_scheme res" where
  "free_chain_loop 0 i s = Diverge"
| "free_chain_loop (Suc n) i s =
     (let flag = dflags (desc s i); nxt = dnext (desc s i)
      in bindr (free_desc i s) (\<lambda>s1.
         if flag AND VRING_DESC_F_NEXT \<noteq> 0 then free_chain_loop n (unat nxt) s1 else Ok s1))"

definition free_chain :: "nat \<Rightarrow> 'a virtio_state_scheme \<Rightarrow> 'a virtio_state_scheme res" where
  "free_chain i s = free_chain_loop (Suc NUM) i s"

definition alloc3_desc :: "'a virtio_state_scheme \<Rightarrow> ((nat \<times> nat \<times> nat) option \<times> 'a virtio_state_scheme) res" where
  "alloc3_desc s =
     (case alloc_desc s of
        (None, s1) \<Rightarrow> Ok (None, s1)
      | (Some a, s1) \<Rightarrow>
          case alloc_desc s1 of
            (None, s2) \<Rightarrow> bindr (free_desc a s2) (\<lambda>s3. Ok (None, s3))
          | (Some b, s2) \<Rightarrow>
              case alloc_desc s2 of
                (None, s3) \<Rightarrow> bindr (free_desc a s3) (\<lambda>s4. bindr (free_desc b s4) (\<lambda>s5. Ok (None, s5)))
              | (Some c, s3) \<Rightarrow> Ok (Some (a, b, c), s3))"

section \<open>Requests\<close>

definition virtio_submit :: "nat \<Rightarrow> bool \<Rightarrow> 'a virtio_state_scheme \<Rightarrow> (nat run \<times> 'a virtio_state_scheme) res" where
  "virtio_submit i write s =
     (let sec = (ucast (blockno (bufs s i) * 2) :: uint64)
      in bindr (alloc3_desc s) (\<lambda>(idx, s1).
         case idx of
           None \<Rightarrow> Ok (Asleep i, sleep_begin (ChDisk NBUF) s1)
         | Some (a, b, c) \<Rightarrow>
             let s2 = s1\<lparr>ops := (ops s1)(a := \<lparr>rtype = (if write then VIRTIO_BLK_T_OUT else VIRTIO_BLK_T_IN), reserved = 0, sector = sec\<rparr>)\<rparr>;
                 s3 = upd_desc a (\<lambda>_. \<lparr>daddr = DOps a, dlen = 16, dflags = VRING_DESC_F_NEXT, dnext = of_nat b\<rparr>) s2;
                 s4 = upd_desc b (\<lambda>_. \<lparr>daddr = DData i, dlen = 1024,
                        dflags = (if write then 0 else VRING_DESC_F_WRITE) OR VRING_DESC_F_NEXT, dnext = of_nat c\<rparr>) s3;
                 s5 = s4\<lparr>info_status := (info_status s4)(a := 0xff)\<rparr>;
                 s6 = upd_desc c (\<lambda>_. \<lparr>daddr = DStatus a, dlen = 1, dflags = VRING_DESC_F_WRITE, dnext = 0\<rparr>) s5;
                 s7 = s6\<lparr>bdisk := (bdisk s6)(i := True), info_b := (info_b s6)(a := Some i)\<rparr>;
                 s8 = s7\<lparr>avail_ring := (avail_ring s7)(unat (avail_idx s7) mod NUM := of_nat a), avail_idx := avail_idx s7 + 1\<rparr>
             in Ok (Done (int a), vwrite 0x50 0 s8)))"

definition virtio_finish :: "nat \<Rightarrow> nat \<Rightarrow> 'a virtio_state_scheme \<Rightarrow> (unit run \<times> 'a virtio_state_scheme) res" where
  "virtio_finish i a s =
     (if bdisk s i then Ok (Asleep (), sleep_begin (ChDisk i) s)
      else bindr (free_chain a (s\<lparr>info_b := (info_b s)(a := None)\<rparr>)) (\<lambda>s1. Ok (Done 0, s1)))"

lemma used_idx_step: "(u::uint16) \<noteq> v \<Longrightarrow> unat (v - (u + 1)) < unat (v - u)"
  by (metis diff_diff_add measure_unat right_minus_eq)

lemma wakeup_virtio [simp]:
  "dev_used_idx (wakeup ch s) = dev_used_idx s" "used_idx (wakeup ch s) = used_idx s" "desc (wakeup ch s) = desc s"
  "dfree (wakeup ch s) = dfree s" "bdisk (wakeup ch s) = bdisk s" "info_b (wakeup ch s) = info_b s" "info_status (wakeup ch s) = info_status s"
  "avail_idx (wakeup ch s) = avail_idx s" "avail_ring (wakeup ch s) = avail_ring s" "used_ring (wakeup ch s) = used_ring s" "ops (wakeup ch s) = ops s"
  "bufs (wakeup ch s) = bufs s" "disk (wakeup ch s) = disk s"
  by (simp_all add: wakeup_def)

text \<open>The completion loop runs once per entry between the two indices; a null buffer pointer is a kernel fault.\<close>

function virtio_intr_loop :: "'a virtio_state_scheme \<Rightarrow> 'a virtio_state_scheme res" where
  "virtio_intr_loop s =
     (if used_idx s = dev_used_idx s then Ok s
      else
        let id = unat (used_ring s (unat (used_idx s) mod NUM))
        in if info_status s id \<noteq> 0 then Panic ''virtio_disk_intr status''
           else case info_b s id of
                  None \<Rightarrow> Panic ''kerneltrap''
                | Some b \<Rightarrow>
                    virtio_intr_loop ((wakeup (ChDisk b) (s\<lparr>bdisk := (bdisk s)(b := False)\<rparr>))\<lparr>used_idx := used_idx s + 1\<rparr>))"
  by auto

termination
  by (relation "measure (\<lambda>s. unat (dev_used_idx s - used_idx s))") (simp_all add: used_idx_step)

declare virtio_intr_loop.simps [simp del]

definition virtio_disk_intr :: "'a virtio_state_scheme \<Rightarrow> 'a virtio_state_scheme res" where
  "virtio_disk_intr s = virtio_intr_loop (vwrite 0x64 (vreg 0x60 s AND 3) s)"

section \<open>The descriptors are a pool\<close>

definition free_descs :: "'a virtio_state_scheme \<Rightarrow> nat set" where
  "free_descs s = {i. i < NUM \<and> dfree s i}"

definition used_descs :: "'a virtio_state_scheme \<Rightarrow> nat set" where
  "used_descs s = {i. i < NUM \<and> \<not> dfree s i}"

lemma alloc_desc_None: "free_descs s = {} \<Longrightarrow> alloc_desc s = (None, s)"
  by (auto simp: alloc_desc_def free_descs_def find_slot_None split: option.splits dest!: find_slot_Some)

lemma alloc_desc_Some:
  assumes "free_descs s \<noteq> {}"
  shows "\<exists>i. i \<in> free_descs s \<and> alloc_desc s = (Some i, s\<lparr>dfree := (dfree s)(i := False)\<rparr>)"
proof (cases "find_slot (dfree s) 0 NUM")
  case None
  with assms show ?thesis by (auto simp: free_descs_def find_slot_None)
next
  case (Some i)
  from find_slot_Some [OF this] Some show ?thesis by (auto simp: alloc_desc_def free_descs_def)
qed

interpretation descs: allocator "\<lambda>_. True" free_descs used_descs "\<lambda>s. Ok (alloc_desc s)" free_desc
proof
  fix s :: "'a virtio_state_scheme" and r
  show "Ok (alloc_desc s) = Ok (None, s)" if "free_descs s = {}"
    using that by (simp add: alloc_desc_None)
  show "\<exists>r s'. Ok (alloc_desc s) = Ok (Some r, s') \<and> r \<in> free_descs s \<and> True \<and> free_descs s' = free_descs s - {r} \<and>
      used_descs s' = insert r (used_descs s)" if ne: "free_descs s \<noteq> {}"
  proof -
    from alloc_desc_Some [OF ne] obtain i where i: "i \<in> free_descs s" "alloc_desc s = (Some i, s\<lparr>dfree := (dfree s)(i := False)\<rparr>)" by blast
    then have "free_descs (s\<lparr>dfree := (dfree s)(i := False)\<rparr>) = free_descs s - {i}"
      "used_descs (s\<lparr>dfree := (dfree s)(i := False)\<rparr>) = insert i (used_descs s)"
      by (auto simp: free_descs_def used_descs_def)
    with i show ?thesis by blast
  qed
  show "\<exists>s'. free_desc r s = Ok s' \<and> True \<and> free_descs s' = insert r (free_descs s) \<and> used_descs s' = used_descs s - {r}"
    if "r \<in> used_descs s"
    using that by (auto simp: free_desc_def free_descs_def used_descs_def upd_desc_def)
  show "free_descs s \<inter> used_descs s = {}"
    by (auto simp: free_descs_def used_descs_def)
qed

lemma alloc3_desc_ok:
  fixes s :: "'a virtio_state_scheme"
  assumes "3 \<le> card (free_descs s)"
  shows "\<exists>a b c. alloc3_desc s = Ok (Some (a, b, c), s\<lparr>dfree := (dfree s)(a := False, b := False, c := False)\<rparr>) \<and>
    distinct [a, b, c] \<and> {a, b, c} \<subseteq> free_descs s"
proof -
  have f: "finite (free_descs s)" by (simp add: free_descs_def)
  have nz: "free_descs s \<noteq> {}" using assms by auto
  from alloc_desc_Some [OF nz] obtain a where a: "a \<in> free_descs s" "alloc_desc s = (Some a, s\<lparr>dfree := (dfree s)(a := False)\<rparr>)" by blast
  let ?s1 = "s\<lparr>dfree := (dfree s)(a := False)\<rparr>"
  have f1: "free_descs ?s1 = free_descs s - {a}" by (auto simp: free_descs_def)
  have c1: "2 \<le> card (free_descs ?s1)" using assms a(1) f by (simp add: f1)
  then have "free_descs ?s1 \<noteq> {}" by auto
  from alloc_desc_Some [OF this] obtain b where b: "b \<in> free_descs ?s1" "alloc_desc ?s1 = (Some b, s\<lparr>dfree := (dfree s)(a := False, b := False)\<rparr>)" by auto
  let ?s2 = "s\<lparr>dfree := (dfree s)(a := False, b := False)\<rparr>"
  have f2: "free_descs ?s2 = free_descs ?s1 - {b}" by (auto simp: free_descs_def)
  have "1 \<le> card (free_descs ?s2)" using c1 b(1) f by (simp add: f1 f2)
  then have "free_descs ?s2 \<noteq> {}" by auto
  from alloc_desc_Some [OF this] obtain c where c: "c \<in> free_descs ?s2"
    "alloc_desc ?s2 = (Some c, s\<lparr>dfree := (dfree s)(a := False, b := False, c := False)\<rparr>)" by auto
  have "alloc3_desc s = Ok (Some (a, b, c), s\<lparr>dfree := (dfree s)(a := False, b := False, c := False)\<rparr>)"
    using a(2) b(2) c(2) by (simp add: alloc3_desc_def)
  moreover have "distinct [a, b, c]" "{a, b, c} \<subseteq> free_descs s"
    using a(1) b(1) c(1) by (auto simp: f1 f2)
  ultimately show ?thesis by blast
qed

section \<open>One request\<close>

text \<open>A request as the device reads it from the rings: the chain of three descriptors that starts at \<open>a\<close>.\<close>

definition blk_request :: "nat \<Rightarrow> nat \<Rightarrow> bool \<Rightarrow> uint32 \<Rightarrow> 'a virtio_state_scheme \<Rightarrow> bool" where
  "blk_request a i write bno s \<longleftrightarrow>
     (let d0 = desc s a; d1 = desc s (unat (dnext d0)); d2 = desc s (unat (dnext d1))
      in daddr d0 = DOps a \<and> dlen d0 = 16 \<and> dflags d0 = VRING_DESC_F_NEXT \<and>
         daddr d1 = DData i \<and> dlen d1 = 1024 \<and> dflags d1 = (if write then VRING_DESC_F_NEXT else VRING_DESC_F_WRITE OR VRING_DESC_F_NEXT) \<and>
         daddr d2 = DStatus a \<and> dlen d2 = 1 \<and> dflags d2 = VRING_DESC_F_WRITE \<and>
         rtype (ops s a) = (if write then VIRTIO_BLK_T_OUT else VIRTIO_BLK_T_IN) \<and> sector (ops s a) = 2 * ucast bno)"

text \<open>The device transfers 1024 bytes between the buffer and the sectors \<open>2 * bno\<close> and \<open>2 * bno + 1\<close>, the block \<open>bno\<close>,
  writes 0 to the status byte and enters the head of the chain into the used ring.\<close>

definition blk_served :: "nat \<Rightarrow> nat \<Rightarrow> bool \<Rightarrow> uint32 \<Rightarrow> 'a virtio_state_scheme \<Rightarrow> 'a virtio_state_scheme" where
  "blk_served a i write bno s =
     (if write then s\<lparr>disk := (disk s)(bno := bdata (bufs s i))\<rparr> else upd_buf i (\<lambda>b. b\<lparr>bdata := disk s bno\<rparr>) s)
     \<lparr>info_status := (info_status s)(a := 0), used_ring := (used_ring s)(unat (dev_used_idx s) mod NUM := of_nat a),
      dev_used_idx := dev_used_idx s + 1\<rparr>"

definition virtio_blk_device :: "('a virtio_state_scheme \<Rightarrow> 'a virtio_state_scheme) \<Rightarrow> bool" where
  "virtio_blk_device dev \<longleftrightarrow>
     (\<forall>s a i write bno. a < NUM \<longrightarrow> unat (avail_ring s (unat (avail_idx s - 1) mod NUM)) = a \<longrightarrow> blk_request a i write bno s \<longrightarrow>
        dev s = blk_served a i write bno s)"

lemma sector_of:
  assumes "unat (bno :: uint32) < 2 ^ 31"
  shows "(ucast (bno * 2) :: uint64) = 2 * ucast bno"
proof -
  have "unat (bno * 2) = unat bno * 2" using assms by (simp add: unat_word_ariths)
  then show ?thesis using assms by (intro unsigned_word_eqI [where ?'a = nat]) (simp add: unat_word_ariths)
qed

lemma unat_small16: "n < 8 \<Longrightarrow> unat (of_nat n :: uint16) = n"
  by (simp add: unat_of_nat)

lemma unat_small32: "n < 8 \<Longrightarrow> unat (of_nat n :: uint32) = n"
  by (simp add: unat_of_nat)

lemma virtio_submit_ok:
  fixes s :: "'a virtio_state_scheme"
  assumes "3 \<le> card (free_descs s)" "unat (blockno (bufs s i)) < 2 ^ 31"
  shows "\<exists>a b c s1. virtio_submit i write s = Ok (Done (int a), s1) \<and> distinct [a, b, c] \<and> {a, b, c} \<subseteq> free_descs s \<and>
    blk_request a i write (blockno (bufs s i)) s1 \<and> unat (avail_ring s1 (unat (avail_idx s1 - 1) mod NUM)) = a \<and>
    unat (dnext (desc s1 a)) = b \<and> unat (dnext (desc s1 b)) = c \<and> dfree s1 = (dfree s)(a := False, b := False, c := False) \<and>
    bdisk s1 = (bdisk s)(i := True) \<and> info_b s1 a = Some i \<and> bufs s1 = bufs s \<and> disk s1 = disk s \<and> used_idx s1 = used_idx s \<and>
    dev_used_idx s1 = dev_used_idx s"
proof -
  from alloc3_desc_ok [OF assms(1)] obtain a b c where
    al: "alloc3_desc s = Ok (Some (a, b, c), s\<lparr>dfree := (dfree s)(a := False, b := False, c := False)\<rparr>)" and
    d: "distinct [a, b, c]" "{a, b, c} \<subseteq> free_descs s" by blast
  have "a < 8" "b < 8" "c < 8" using d(2) by (auto simp: free_descs_def)
  note u = this [THEN unat_small16]
  have ne: "a \<noteq> b" "a \<noteq> c" "b \<noteq> c" using d(1) by auto
  show ?thesis
    by (rule exI [of _ a], rule exI [of _ b], rule exI [of _ c])
       (use d ne u in \<open>simp add: virtio_submit_def al vwrite_def upd_desc_def blk_request_def sector_of [OF assms(2)] Let_def\<close>)
qed

text \<open>The interrupt handler takes the one entry of the used ring.\<close>

lemma virtio_disk_intr_one:
  fixes s :: "'a virtio_state_scheme"
  assumes "dev_used_idx s = used_idx s + 1" "unat (used_ring s (unat (used_idx s) mod NUM)) = a" "info_status s a = 0" "info_b s a = Some i"
  shows "\<exists>s'. virtio_disk_intr s = Ok s' \<and> bdisk s' = (bdisk s)(i := False) \<and> used_idx s' = dev_used_idx s' \<and> dev_used_idx s' = dev_used_idx s \<and>
    desc s' = desc s \<and> dfree s' = dfree s \<and> bufs s' = bufs s \<and> disk s' = disk s"
proof -
  have ne: "used_idx s \<noteq> dev_used_idx s" using assms(1) by simp
  show ?thesis
    unfolding virtio_disk_intr_def
    by (subst virtio_intr_loop.simps, subst virtio_intr_loop.simps) (simp add: vwrite_def assms ne)
qed

lemma free_desc_ok:
  "i < NUM \<Longrightarrow> \<not> dfree s i \<Longrightarrow>
   \<exists>s'. free_desc i s = Ok s' \<and> dfree s' = (dfree s)(i := True) \<and> desc s' = (desc s)(i := desc0) \<and> bufs s' = bufs s \<and> disk s' = disk s \<and>
     bdisk s' = bdisk s \<and> used_idx s' = used_idx s \<and> dev_used_idx s' = dev_used_idx s"
  by (simp add: free_desc_def upd_desc_def)

lemma free_chain_ok:
  fixes s :: "'a virtio_state_scheme"
  assumes "\<forall>d \<in> {a, b}. dflags (desc s d) AND 1 \<noteq> 0" "dflags (desc s c) AND 1 = 0" "unat (dnext (desc s a)) = b" "unat (dnext (desc s b)) = c" "distinct [a, b, c]"
    and "a < NUM" "b < NUM" "c < NUM" "\<not> dfree s a" "\<not> dfree s b" "\<not> dfree s c"
  shows "\<exists>s'. free_chain a s = Ok s' \<and> dfree s' = (dfree s)(a := True, b := True, c := True) \<and> bufs s' = bufs s \<and> disk s' = disk s \<and>
     bdisk s' = bdisk s \<and> used_idx s' = used_idx s \<and> dev_used_idx s' = dev_used_idx s"
proof -
  have fl: "dflags (desc s a) AND 1 \<noteq> 0" "dflags (desc s b) AND 1 \<noteq> 0" "dflags (desc s c) AND 1 = 0"
    using assms(1,2) by auto
  from free_desc_ok [OF assms(6,9)] obtain s1 where 1: "free_desc a s = Ok s1" "dfree s1 = (dfree s)(a := True)" "desc s1 = (desc s)(a := desc0)"
    "bufs s1 = bufs s" "disk s1 = disk s" "bdisk s1 = bdisk s" "used_idx s1 = used_idx s" "dev_used_idx s1 = dev_used_idx s" by blast
  have "\<not> dfree s1 b" using 1(2) assms(5,10) by auto
  from free_desc_ok [OF assms(7) this] obtain s2 where 2: "free_desc b s1 = Ok s2" "dfree s2 = (dfree s1)(b := True)" "desc s2 = (desc s1)(b := desc0)"
    "bufs s2 = bufs s1" "disk s2 = disk s1" "bdisk s2 = bdisk s1" "used_idx s2 = used_idx s1" "dev_used_idx s2 = dev_used_idx s1" by blast
  have "\<not> dfree s2 c" using 1(2) 2(2) assms(5,11) by auto
  from free_desc_ok [OF assms(8) this] obtain s3 where 3: "free_desc c s2 = Ok s3" "dfree s3 = (dfree s2)(c := True)"
    "bufs s3 = bufs s2" "disk s3 = disk s2" "bdisk s3 = bdisk s2" "used_idx s3 = used_idx s2" "dev_used_idx s3 = dev_used_idx s2" by blast
  have n: "desc s1 b = desc s b" "desc s2 c = desc s c" using 1(3) 2(3) assms(5) by auto
  have "free_chain a s = Ok s3"
    unfolding free_chain_def using fl 1(1) 2(1) 3(1) n assms(3,4) by (simp add: eval_nat_numeral Let_def)
  with 1 2 3 show ?thesis by simp
qed

section \<open>Properties\<close>

text \<open>C3: with a device that serves requests as the virtio specification says, a transfer by \<open>virtio_disk_rw\<close> -- three
  descriptors are taken and chained, the device is told, the interrupt handler finds the request in the used
  ring, and the descriptors are freed -- has exactly the effect on buffers and disk that the buffer cache relies
  on, returns every descriptor to the pool and leaves the buffer to the kernel again. This holds at every value of
  the 16-bit ring indices.\<close>

theorem virtio_disk_rw_refines:
  fixes s :: "'a virtio_state_scheme"
  assumes "virtio_blk_device dev" "used_idx s = dev_used_idx s" "3 \<le> card (free_descs s)" "unat (blockno (bufs s i)) < 2 ^ 31"
  shows "\<exists>a s1 s2 s3. virtio_submit i write s = Ok (Done (int a), s1) \<and> bdisk s1 i \<and> virtio_disk_intr (dev s1) = Ok s2 \<and>
    virtio_finish i a s2 = Ok (Done 0, s3) \<and> bufs s3 = bufs (virtio_disk_rw i write s) \<and> disk s3 = disk (virtio_disk_rw i write s) \<and>
    bdisk s3 = (bdisk s)(i := False) \<and> dfree s3 = dfree s \<and> used_idx s3 = dev_used_idx s3"
proof -
  from virtio_submit_ok [OF assms(3,4)] obtain a b c s1 where
    v: "virtio_submit i write s = Ok (Done (int a), s1)" "distinct [a, b, c]" "{a, b, c} \<subseteq> free_descs s"
      "blk_request a i write (blockno (bufs s i)) s1" "unat (avail_ring s1 (unat (avail_idx s1 - 1) mod NUM)) = a"
      "unat (dnext (desc s1 a)) = b" "unat (dnext (desc s1 b)) = c" "dfree s1 = (dfree s)(a := False, b := False, c := False)"
      "bdisk s1 = (bdisk s)(i := True)" "info_b s1 a = Some i" "bufs s1 = bufs s" "disk s1 = disk s" "used_idx s1 = used_idx s"
      "dev_used_idx s1 = dev_used_idx s" by blast
  have lt: "a < NUM" "b < NUM" "c < NUM" using v(3) by (auto simp: free_descs_def)
  let ?d = "blk_served a i write (blockno (bufs s i)) s1"
  have dev: "dev s1 = ?d" using assms(1) v(4,5) lt(1) unfolding virtio_blk_device_def by blast
  have sd: "bufs ?d = bufs (virtio_disk_rw i write s)" "disk ?d = disk (virtio_disk_rw i write s)" "desc ?d = desc s1" "dfree ?d = dfree s1"
    "bdisk ?d = bdisk s1" "ops ?d = ops s1" "info_b ?d = info_b s1" "info_status ?d a = 0" "used_idx ?d = used_idx s1" "dev_used_idx ?d = dev_used_idx s1 + 1"
    using v(11,12) by (simp_all add: blk_served_def virtio_disk_rw_def upd_buf_def)
  have ring: "unat (used_ring ?d (unat (used_idx ?d) mod NUM)) = a"
    using v(13,14) assms(2) unat_small32 lt(1) by (simp add: blk_served_def upd_buf_def)
  from virtio_disk_intr_one [of ?d a i] ring sd v(10,13,14) assms(2) obtain s2 where
    w: "virtio_disk_intr ?d = Ok s2" "bdisk s2 = (bdisk ?d)(i := False)" "used_idx s2 = dev_used_idx s2" "desc s2 = desc ?d" "dfree s2 = dfree ?d"
      "bufs s2 = bufs ?d" "disk s2 = disk ?d" by auto
  let ?t = "s2\<lparr>info_b := (info_b s2)(a := None)\<rparr>"
  have fl: "\<forall>d \<in> {a, b}. dflags (desc ?t d) AND 1 \<noteq> 0" "dflags (desc ?t c) AND 1 = 0"
    using v(4,6,7) w(4) sd(3) by (auto simp: blk_request_def Let_def)
  have nf: "\<not> dfree ?t a" "\<not> dfree ?t b" "\<not> dfree ?t c" using w(5) sd(4) v(8) by auto
  from free_chain_ok [OF fl _ _ v(2) lt nf] v(6,7) w(4) sd(3) obtain s3 where
    z: "free_chain a ?t = Ok s3" "dfree s3 = (dfree s2)(a := True, b := True, c := True)" "bufs s3 = bufs s2" "disk s3 = disk s2"
      "bdisk s3 = bdisk s2" "used_idx s3 = used_idx s2" "dev_used_idx s3 = dev_used_idx s2" by auto
  have "dfree s3 = dfree s" using z(2) w(5) sd(4) v(3,8) by (auto simp: fun_eq_iff free_descs_def)
  moreover have "virtio_finish i a s2 = Ok (Done 0, s3)" using z(1) w(2) by (simp add: virtio_finish_def)
  ultimately show ?thesis using v(1,9) w(1-3,6,7) dev sd(1,2,5) z(3-7) by simp
qed

text \<open>A device that follows the specification, and the state after initialisation.\<close>

definition blk_dev :: "'a virtio_state_scheme \<Rightarrow> 'a virtio_state_scheme" where
  "blk_dev s =
     (let a = unat (avail_ring s (unat (avail_idx s - 1) mod NUM))
      in case daddr (desc s (unat (dnext (desc s a)))) of
           DData i \<Rightarrow> blk_served a i (rtype (ops s a) = VIRTIO_BLK_T_OUT) (ucast (drop_bit 1 (sector (ops s a)))) s
         | _ \<Rightarrow> s)"

lemma block_of_sector: "ucast (drop_bit 1 (2 * ucast (bno :: uint32) :: uint64)) = bno"
proof (rule unsigned_word_eqI [where ?'a = nat])
  have "unat bno < 2 ^ 32" using unsigned_less [of bno, where ?'a = nat] by simp
  then have "unat (2 * ucast bno :: uint64) = 2 * unat bno" by (simp add: unat_word_ariths)
  then have "unat (drop_bit 1 (2 * ucast bno :: uint64)) = unat bno" by (simp only: unat_drop_bit_eq) (simp add: drop_bit_eq_div)
  then show "unat (ucast (drop_bit 1 (2 * ucast bno :: uint64)) :: uint32) = unat bno"
    using \<open>unat bno < 2 ^ 32\<close> by (simp add: unsigned_ucast_eq take_bit_eq_mod)
qed

lemma blk_dev_device: "virtio_blk_device blk_dev"
  unfolding virtio_blk_device_def
proof (intro allI impI)
  fix s :: "'a virtio_state_scheme" and a i w bno
  assume a: "unat (avail_ring s (unat (avail_idx s - 1) mod NUM)) = a" and r: "blk_request a i w bno s"
  from r have "daddr (desc s (unat (dnext (desc s a)))) = DData i" "rtype (ops s a) = (if w then VIRTIO_BLK_T_OUT else VIRTIO_BLK_T_IN)"
    "sector (ops s a) = 2 * ucast bno" unfolding blk_request_def Let_def by blast+
  then show "blk_dev s = blk_served a i w bno s"
    unfolding blk_dev_def a Let_def by (simp only: block_of_sector) simp
qed

definition kernel0 :: exec_state where
  "kernel0 = log_state.extend log0
     \<lparr>sb = \<lparr>magic = 0, sb_size = 0, nblocks = 0, ninodes = 0, nlog = 0, logstart = 0, inodestart = 0, bmapstart = 0\<rparr>,
      itable = (\<lambda>_. \<lparr>idev = 0, inum = 0, iref = 0, ivalid = False, itype = 0, imajor = 0, iminor = 0, nlink = 0, isize = 0, addrs = (\<lambda>_. 0)\<rparr>),
      de_addr = 0,
      ftable = (\<lambda>_. \<lparr>ftype = FD_NONE, fref = 0, freadable = False, fwritable = False, fpipe = 0, fip = 0, foff = 0, fmajor = 0\<rparr>),
      ticks = 0, elf_addr = 0, ph_addr = 0\<rparr>\<lparr>procs := \<lambda>_. proc0\<rparr>"

definition virtio0 :: virtio_state where
  "virtio0 = exec_state.extend (kernel0\<lparr>bufs := (\<lambda>i. (bufs kernel0 i)\<lparr>blockno := 7, bdata := (\<lambda>_. 1)\<rparr>)\<rparr>)
     \<lparr>desc_pa = 0, avail_pa = 0, used_pa = 0, desc = (\<lambda>_. desc0), avail_idx = 65535, avail_ring = (\<lambda>_. 0),
      dev_used_idx = 65535, used_ring = (\<lambda>_. 0), dfree = (\<lambda>_. True), used_idx = 65535, info_b = (\<lambda>_. None),
      info_status = (\<lambda>_. 0), ops = (\<lambda>_. \<lparr>rtype = 0, reserved = 0, sector = 0\<rparr>), bdisk = (\<lambda>_. False),
      mmio = (\<lambda>_ _. 0), mmio_writes = []\<rparr>"

theorem virtio_disk_rw_refines_witness:
  "virtio_blk_device (blk_dev :: virtio_state \<Rightarrow> _) \<and>
   (\<exists>a s1 s2 s3. virtio_submit 3 True virtio0 = Ok (Done (int a), s1) \<and> virtio_disk_intr (blk_dev s1) = Ok s2 \<and>
      virtio_finish 3 a s2 = Ok (Done 0, s3) \<and> disk s3 7 = (\<lambda>_. 1) \<and> dfree s3 = (\<lambda>_. True))"
proof -
  have "free_descs virtio0 = {..<8}" by (auto simp: free_descs_def virtio0_def exec_state.defs)
  then have f: "3 \<le> card (free_descs virtio0)" by simp
  have b: "blockno (bufs virtio0 3) = 7" "bdata (bufs virtio0 3) = (\<lambda>_. 1)" "dfree virtio0 = (\<lambda>_. True)" "used_idx virtio0 = dev_used_idx virtio0"
    by (simp_all add: virtio0_def exec_state.defs)
  from virtio_disk_rw_refines [OF blk_dev_device b(4) f, of 3 True] b blk_dev_device show ?thesis
    by (fastforce simp: virtio_disk_rw_def)
qed

end
