(* ===== verification/XvTrap.thy ===== *)
theory XvTrap
  imports XvVirtio
begin

unbundle bit_operations_syntax

text \<open>
  Traps: kernel/trap.c, plic.c and \<open>forkret\<close> of kernel/proc.c. The control registers are fields of the state, and the
  addresses of the assembly routines are fields too. The interrupt controller is what successive reads of its
  claim register return, with the list of the writes to its registers. A trap handler ends by returning, or
  where it gives up the processor: in \<open>exit\<close>, or in \<open>yield\<close>, after which it goes on with \<open>usertrap_ret\<close> or
  \<open>kerneltrap_ret\<close>. A current process outside the table stands for none. \<open>init_str\<close> is the address of the string
  ''/init'' that \<open>forkret\<close> passes to \<open>exec\<close>.
\<close>

section \<open>State\<close>

record trap_state = virtio_state +
  sstatus :: uint64
  scause :: uint64
  sepc :: uint64
  stval :: uint64
  stvec :: uint64
  satp :: uint64
  tp :: uint64
  rtime :: uint64
  stimecmp :: uint64
  kernelvec :: uint64
  uservec_off :: uint64
  usertrap_addr :: uint64
  plic_irqs :: "nat \<Rightarrow> uint32"
  plic_n :: nat
  plic_writes :: "(uint64 \<times> uint32) list"
  forkret_first :: bool
  init_str :: uint64

abbreviation (input) SSTATUS_SPP :: uint64 where "SSTATUS_SPP \<equiv> 0x100"
abbreviation (input) SSTATUS_SPIE :: uint64 where "SSTATUS_SPIE \<equiv> 0x20"
abbreviation (input) SSTATUS_SIE :: uint64 where "SSTATUS_SIE \<equiv> 2"
abbreviation (input) TF_EPC :: uint64 where "TF_EPC \<equiv> 24"

definition MAKE_SATP :: "uint64 \<Rightarrow> uint64" where
  "MAKE_SATP pt = push_bit 60 8 OR drop_bit 12 pt"

definition intr_on :: "'a trap_state_scheme \<Rightarrow> 'a trap_state_scheme" where
  "intr_on s = s\<lparr>sstatus := sstatus s OR SSTATUS_SIE\<rparr>"

definition intr_off :: "'a trap_state_scheme \<Rightarrow> 'a trap_state_scheme" where
  "intr_off s = s\<lparr>sstatus := sstatus s AND NOT SSTATUS_SIE\<rparr>"

definition intr_get :: "'a trap_state_scheme \<Rightarrow> bool" where
  "intr_get s \<longleftrightarrow> sstatus s AND SSTATUS_SIE \<noteq> 0"

text \<open>\<open>cpuid\<close> truncates the thread pointer to an \<open>int\<close>.\<close>

definition cpuid :: "'a trap_state_scheme \<Rightarrow> uint32" where
  "cpuid s = ucast (tp s)"

section \<open>The interrupt controller\<close>

definition plic_write :: "uint64 \<Rightarrow> uint32 \<Rightarrow> 'a trap_state_scheme \<Rightarrow> 'a trap_state_scheme" where
  "plic_write a v s = s\<lparr>plic_writes := plic_writes s @ [(a, v)]\<rparr>"

definition plicinit :: "'a trap_state_scheme \<Rightarrow> 'a trap_state_scheme" where
  "plicinit s = plic_write (0x0c000000 + 1 * 4) 1 (plic_write (0x0c000000 + 10 * 4) 1 s)"

definition plicinithart :: "'a trap_state_scheme \<Rightarrow> 'a trap_state_scheme" where
  "plicinithart s =
     (let hart = scast (cpuid s)
      in plic_write (0x0c000000 + 0x201000 + hart * 0x2000) 0
           (plic_write (0x0c000000 + 0x2080 + hart * 0x100) (push_bit 10 1 OR push_bit 1 1) s))"

definition plic_claim :: "'a trap_state_scheme \<Rightarrow> uint32 \<times> 'a trap_state_scheme" where
  "plic_claim s = (plic_irqs s (plic_n s), s\<lparr>plic_n := plic_n s + 1\<rparr>)"

definition plic_complete :: "uint32 \<Rightarrow> 'a trap_state_scheme \<Rightarrow> 'a trap_state_scheme" where
  "plic_complete irq s = plic_write (0x0c000000 + 0x201004 + scast (cpuid s) * 0x2000) irq s"

section \<open>Interrupts\<close>

definition trapinithart :: "'a trap_state_scheme \<Rightarrow> 'a trap_state_scheme" where
  "trapinithart s = s\<lparr>stvec := kernelvec s\<rparr>"

definition clockintr :: "'a trap_state_scheme \<Rightarrow> 'a trap_state_scheme" where
  "clockintr s =
     (let s1 = (if cpuid s = 0 then wakeup ChTicks (s\<lparr>ticks := ticks s + 1\<rparr>) else s)
      in s1\<lparr>stimecmp := rtime s1 + 1000000\<rparr>)"

definition devintr :: "'a trap_state_scheme \<Rightarrow> (int \<times> 'a trap_state_scheme) res" where
  "devintr s =
     (if scause s = 0x8000000000000009 then
        let (irq, s1) = plic_claim s
        in bindr (if irq = 10 then uartintr s1
                  else if irq = 1 then virtio_disk_intr s1
                  else if irq \<noteq> 0 then printf (cbytes ''unexpected interrupt irq=%d'' @ [10]) [VWord (scast irq)] s1
                  else Ok s1) (\<lambda>s2.
             Ok (1, if irq \<noteq> 0 then plic_complete irq s2 else s2))
      else if scause s = 0x8000000000000005 then Ok (2, clockintr s)
      else Ok (0, s))"

section \<open>Traps from user space\<close>

datatype trap_end = TReturn uint64 | TExit | TYield

definition set_tf :: "uint64 \<Rightarrow> uint64 \<Rightarrow> 'a trap_state_scheme \<Rightarrow> 'a trap_state_scheme" where
  "set_tf off v s = s\<lparr>phys := st64 (phys s) (trapframe (myproc s) + off) v\<rparr>"

definition get_tf :: "uint64 \<Rightarrow> 'a trap_state_scheme \<Rightarrow> uint64" where
  "get_tf off s = ld64 (phys s) (trapframe (myproc s) + off)"

definition prepare_return :: "'a trap_state_scheme \<Rightarrow> 'a trap_state_scheme" where
  "prepare_return s =
     (let s1 = intr_off s;
          s2 = s1\<lparr>stvec := TRAMPOLINE + uservec_off s1\<rparr>;
          s3 = set_tf 0 (satp s2) s2;
          s4 = set_tf 8 (kstack (myproc s3) + PGSIZE) s3;
          s5 = set_tf 16 (usertrap_addr s4) s4;
          s6 = set_tf 32 (tp s5) s5;
          s7 = s6\<lparr>sstatus := (sstatus s6 AND NOT SSTATUS_SPP) OR SSTATUS_SPIE\<rparr>
      in s7\<lparr>sepc := get_tf TF_EPC s7\<rparr>)"

definition usertrap_ret :: "'a trap_state_scheme \<Rightarrow> uint64 \<times> 'a trap_state_scheme" where
  "usertrap_ret s = (let s1 = prepare_return s in (MAKE_SATP (pagetable (myproc s1)), s1))"

definition usertrap_fault :: "'a trap_state_scheme \<Rightarrow> 'a trap_state_scheme res" where
  "usertrap_fault s =
     bindr (printf (cbytes ''usertrap(): unexpected scause 0x%lx pid=%d'' @ [10]) [VWord (scause s), VWord (word_of_int (pid (myproc s)))] s) (\<lambda>s1.
     bindr (printf (cbytes ''            sepc=0x%lx stval=0x%lx'' @ [10]) [VWord (sepc s1), VWord (stval s1)] s1) (\<lambda>s2.
       Ok (setkilled (cur s2) s2)))"

text \<open>The first part handles the trap and says which device it was, or \<open>None\<close> when it ended in \<open>exit\<close>.\<close>

definition usertrap_handle :: "'a trap_state_scheme \<Rightarrow> (int option \<times> 'a trap_state_scheme) res" where
  "usertrap_handle s =
     (if scause s = 8 then
        if killed (cur s) s then bindr (exit (-1) s) (\<lambda>s1. Ok (None, s1))
        else bindr (syscall (intr_on (set_tf TF_EPC (get_tf TF_EPC s + 4) s))) (\<lambda>s1. Ok (Some 0, s1))
      else bindr (devintr s) (\<lambda>(which, s1).
        if which \<noteq> 0 then Ok (Some which, s1)
        else bindr (if scause s1 = 15 \<or> scause s1 = 13
                    then vmfault (pagetable (myproc s1)) (psz (myproc s1)) (pagetable (myproc s1)) (stval s1) s1 else Ok (0, s1)) (\<lambda>(pa, s2).
          if pa \<noteq> 0 then Ok (Some 0, s2)
          else bindr (usertrap_fault s2) (\<lambda>s3. Ok (Some 0, s3)))))"

definition usertrap :: "'a trap_state_scheme \<Rightarrow> (trap_end \<times> 'a trap_state_scheme) res" where
  "usertrap s =
     (if sstatus s AND SSTATUS_SPP \<noteq> 0 then Panic ''usertrap: not from user mode''
      else
        let s1 = s\<lparr>stvec := kernelvec s\<rparr>;
            s2 = set_tf TF_EPC (sepc s1) s1
        in bindr (usertrap_handle s2) (\<lambda>(which, s3).
           case which of
             None \<Rightarrow> Ok (TExit, s3)
           | Some w \<Rightarrow>
               if killed (cur s3) s3 then bindr (exit (-1) s3) (\<lambda>s4. Ok (TExit, s4))
               else if w = 2 then Ok (TYield, yield_begin s3)
               else let (v, s4) = usertrap_ret s3 in Ok (TReturn v, s4)))"

section \<open>Traps from the kernel\<close>

definition kerneltrap_ret :: "uint64 \<Rightarrow> uint64 \<Rightarrow> 'a trap_state_scheme \<Rightarrow> 'a trap_state_scheme" where
  "kerneltrap_ret pc st s = s\<lparr>sepc := pc, sstatus := st\<rparr>"

definition kerneltrap :: "'a trap_state_scheme \<Rightarrow> (trap_end \<times> 'a trap_state_scheme) res" where
  "kerneltrap s =
     (let pc = sepc s; st = sstatus s; cause = scause s
      in if st AND SSTATUS_SPP = 0 then Panic ''kerneltrap: not from supervisor mode''
         else if intr_get s then Panic ''kerneltrap: interrupts enabled''
         else bindr (devintr s) (\<lambda>(which, s1).
           if which = 0 then
             bindr (printf (cbytes ''scause=0x%lx sepc=0x%lx stval=0x%lx'' @ [10]) [VWord cause, VWord (sepc s1), VWord (stval s1)] s1)
               (\<lambda>_. Panic ''kerneltrap'')
           else if which = 2 \<and> cur s1 < NPROC then Ok (TYield, yield_begin s1)
           else Ok (TReturn 0, kerneltrap_ret pc st s1)))"

section \<open>The first return of a process\<close>

definition forkret :: "'a trap_state_scheme \<Rightarrow> (uint64 \<times> 'a trap_state_scheme) res" where
  "forkret s =
     (if forkret_first s then
        bindr (fsinit 1 s) (\<lambda>s1.
        bindr (exec (cbytes ''/init'') [init_str s1] (s1\<lparr>forkret_first := False\<rparr>)) (\<lambda>(r, s2).
          let s3 = set_tf TF_A0 (word_of_int r) s2
          in if get_tf TF_A0 s3 = -1 then Panic ''exec'' else Ok (usertrap_ret s3)))
      else Ok (usertrap_ret s))"

section \<open>The return to user space\<close>

lemma sstatus_return:
  fixes x :: uint64
  shows "((x AND NOT 2) AND NOT 0x100 OR 0x20) AND 0x100 = 0" "((x AND NOT 2) AND NOT 0x100 OR 0x20) AND 0x20 \<noteq> 0"
    "((x AND NOT 2) AND NOT 0x100 OR 0x20) AND 2 = 0"
proof -
  have c: "(y AND NOT c) AND c = 0" for y c :: uint64 by (simp add: and.assoc)
  show "((x AND NOT 2) AND NOT 0x100 OR 0x20) AND 0x100 = 0" by (simp only: bit.conj_disj_distrib2 c) simp
  have "(y OR 0x20) AND 0x20 = 0x20" for y :: uint64 by (simp add: and.commute bit.conj_disj_distrib)
  then show "((x AND NOT 2) AND NOT 0x100 OR 0x20) AND 0x20 \<noteq> 0" by (simp only:) simp
  have "(x AND NOT 2) AND NOT 0x100 = (x AND NOT 0x100) AND NOT 2" by (simp only: ac_simps)
  then show "((x AND NOT 2) AND NOT 0x100 OR 0x20) AND 2 = 0" by (simp only: bit.conj_disj_distrib2 c) simp
qed

lemma set_tf_simps [simp]:
  "procs (set_tf o' v s) = procs s" "cur (set_tf o' v s) = cur s" "myproc (set_tf o' v s) = myproc s" "sstatus (set_tf o' v s) = sstatus s"
  "stvec (set_tf o' v s) = stvec s" "sepc (set_tf o' v s) = sepc s" "uservec_off (set_tf o' v s) = uservec_off s"
  by (simp_all add: set_tf_def myproc_def)

lemma sstatus_prepare: "sstatus (prepare_return s) = (sstatus s AND NOT 2) AND NOT 0x100 OR 0x20"
  by (simp add: prepare_return_def Let_def intr_off_def)

lemma prepare_return_ok:
  "sstatus (prepare_return s) AND SSTATUS_SPP = 0" "sstatus (prepare_return s) AND SSTATUS_SPIE \<noteq> 0" "\<not> intr_get (prepare_return s)"
  "stvec (prepare_return s) = TRAMPOLINE + uservec_off (prepare_return s)" "sepc (prepare_return s) = get_tf TF_EPC (prepare_return s)"
  "procs (prepare_return s) = procs s" "cur (prepare_return s) = cur s"
  by (simp_all only: intr_get_def sstatus_prepare sstatus_return) (simp_all add: prepare_return_def Let_def intr_off_def get_tf_def myproc_def)

section \<open>Properties\<close>


end
