(* ===== verification/XvSystem.thy ===== *)
theory XvSystem
  imports XvKernel XvTrap
begin

text \<open>
  The kernel as a transition system driven by traps, in which the count of every open file is the number of its
  descriptors.
\<close>

section \<open>Device interrupts\<close>

lemma view_simps2 [simp]:
  fixes s :: "'a fs_state_scheme"
  shows "view (s\<lparr>urhr_n := a1\<rparr>) = view s" "view (s\<lparr>cons_e := a2\<rparr>) = view s" "view (s\<lparr>cons_w := a3\<rparr>) = view s"
    "view (s\<lparr>cons_buf := a4\<rparr>) = view s" "view (s\<lparr>sb := a5\<rparr>) = view s" "view (s\<lparr>log_start := a6\<rparr>) = view s"
    "view (s\<lparr>log_size := a7\<rparr>) = view s" "view (s\<lparr>log_dev := a8\<rparr>) = view s" "view (setkilled i s) = view s"
  by (simp_all add: view_def setkilled_def dead_def fun_eq_iff)

lemma view_kill_line:
  fixes s s' :: "'a fs_state_scheme"
  shows "kill_line s = Ok s' \<Longrightarrow> view s' = view s"
proof (induction s rule: kill_line.induct)
  case (1 s)
  from "1.prems" have "(cons_e s \<noteq> cons_w s \<and> cons_buf s (unat (cons_e s - 1) mod INPUT_BUF_SIZE) \<noteq> 10 \<and>
      (\<exists>t. consputc BACKSPACE (s\<lparr>cons_e := cons_e s - 1\<rparr>) = Ok t \<and> kill_line t = Ok s')) \<or> s' = s"
    by (subst (asm) kill_line.simps) (auto split: if_split_asm)
  then show ?case using "1.IH" by (fastforce dest: frame)
qed

lemma view_procdump:
  fixes s s' :: "'a fs_state_scheme"
  shows "procdump s = Ok s' \<Longrightarrow> view s' = view s"
proof -
  assume "procdump s = Ok s'"
  then obtain x where "printf [10] [] s = Ok x" "foldM (\<lambda>i s. if state (procs s i) = UNUSED then Ok s
      else bindr (printf (cbytes ''%d %s %s'') [VWord (word_of_int (pid (procs s i))),
        VStr (Some (cbytes (state_name (state (procs s i))))), VStr (Some (cstr (pname (procs s i)) 16))] s) (printf [10] [])) [0..<NPROC] x = Ok s'"
    by (auto simp: procdump_def Let_def)
  note x = this
  have "view s' = view x" by (rule view_foldM [OF x(2)]) (auto split: if_split_asm dest!: frame)
  with view_printf [OF x(1)] show "view s' = view s" by simp
qed

lemma view_consoleintr [frame]:
  fixes s s' :: "'a fs_state_scheme"
  shows "consoleintr c s = Ok s' \<Longrightarrow> view s' = view s"
  by (auto simp: consoleintr_def cons_put_def Let_def split: if_split_asm dest!: frame view_kill_line view_procdump)

lemma view_uartgetc: "view (snd (uartgetc s)) = view s"
  by (auto simp: uartgetc_def read_lsr_def)

lemma view_uartintr_loop:
  fixes s s' :: "'a fs_state_scheme"
  assumes "uartintr_loop s = Some (Ok s')"
  shows "view s' = view s"
proof -
  have "Ok s' = Ok s' \<longrightarrow> view s' = view s"
  proof (rule uartintr_loop.raw_induct [where P = "\<lambda>s r. r = Ok s' \<longrightarrow> view s' = view s", OF _ assms], intro impI)
    fix loop :: "'a fs_state_scheme \<Rightarrow> 'a fs_state_scheme res option" and s y
    assume ih: "\<And>s y. loop s = Some y \<Longrightarrow> y = Ok s' \<longrightarrow> view s' = view s"
      and st: "(let (c, s1) = uartgetc s in if c = -1 then Some (Ok s1) else case consoleintr c s1 of Ok s2 \<Rightarrow> loop s2
        | Panic e \<Rightarrow> Some (Panic e) | Block \<Rightarrow> Some Block | Diverge \<Rightarrow> Some Diverge) = Some y" and y: "y = Ok s'"
    obtain c s1 where g: "uartgetc s = (c, s1)" by (cases "uartgetc s")
    have v: "view s1 = view s" using view_uartgetc [of s] g by simp
    from st y g have "s' = s1 \<or> (\<exists>s2. consoleintr c s1 = Ok s2 \<and> loop s2 = Some (Ok s'))"
      by (auto split: if_split_asm res.split_asm)
    with v ih show "view s' = view s" by (auto dest!: frame)
  qed
  then show ?thesis by simp
qed

lemma view_uartintr [frame]:
  fixes s s' :: "'a fs_state_scheme"
  shows "uartintr s = Ok s' \<Longrightarrow> view s' = view s"
  by (auto simp: uartintr_def split: option.split_asm dest!: view_uartintr_loop)

lemma view_fsinit [frame]:
  fixes s s' :: "'a fs_state_scheme"
  shows "fsinit d s = Ok s' \<Longrightarrow> view s' = view s"
  by (auto simp: fsinit_def readsb_def initlog_def recover_from_log_def read_head_def Let_def split: if_split_asm dest!: frame)

lemma view_vmfault [frame]:
  fixes s s' :: "'a fs_state_scheme"
  shows "vmfault p z t a s = Ok (r, s') \<Longrightarrow> view s' = view s"
  by (rule view_keeps) (rule keeps_vmfault)

section \<open>Traps\<close>

text \<open>What the count of open files depends on, without the registers and rings that the trap handlers change.\<close>

definition same :: "'a file_state_scheme \<Rightarrow> 'a file_state_scheme \<Rightarrow> bool" where
  "same s s' \<longleftrightarrow> ftable s' = ftable s \<and> cur s' = cur s \<and> (\<forall>i. ofile (procs s' i) = ofile (procs s i) \<and> dead (procs s' i) = dead (procs s i))"

lemma same_refl [simp]: "same s s"
  by (simp add: same_def)

lemma same_trans: "same s s1 \<Longrightarrow> same s1 s' \<Longrightarrow> same s s'"
  by (simp add: same_def)

lemma same_view:
  fixes s s' :: "'a file_state_scheme"
  assumes "view s' = view s"
  shows "same s s'"
  using view_eqD [OF assms] by (simp add: same_def fun_eq_iff)

lemma refs_same:
  assumes "same s s'"
  shows "refs_ok e s \<Longrightarrow> refs_ok e s'" and "good s \<Longrightarrow> good s'"
proof -
  have o: "omap s' = omap s" "(\<lambda>p. dead (procs s' p)) = (\<lambda>p. dead (procs s p))" using assms by (auto simp: same_def)
  then have r: "refs_ok e s' \<longleftrightarrow> refs_ok e s" for e using assms by (simp add: refs_ok_def same_def)
  then show "refs_ok e s \<Longrightarrow> refs_ok e s'" by simp
  show "good s \<Longrightarrow> good s'" using r assms by (auto simp: good_def live_def same_def)
qed

lemma same_regs [simp]:
  "same s (set_tf a v s)" "same s (intr_on s)" "same s (plic_complete irq s)" "same s (prepare_return s)" "same s (s\<lparr>stvec := w\<rparr>)"
  "same s (kerneltrap_ret pc st s)" "same s (s\<lparr>forkret_first := b\<rparr>)"
  by (simp_all add: same_def set_tf_def intr_on_def plic_complete_def plic_write_def prepare_return_def intr_off_def get_tf_def Let_def kerneltrap_ret_def)

lemma same_virtio_intr_loop: "virtio_intr_loop s = Ok s' \<Longrightarrow> same s s'"
proof (induction s rule: virtio_intr_loop.induct)
  case (1 s)
  have w: "same s ((wakeup (ChDisk b) (s\<lparr>bdisk := (bdisk s)(b := False)\<rparr>))\<lparr>used_idx := used_idx s + 1\<rparr>)" for b
    by (auto simp: same_def wakeup_def dead_def)
  show ?case
  proof (cases "used_idx s = dev_used_idx s")
    case True
    with "1.prems" show ?thesis by (subst (asm) virtio_intr_loop.simps) (simp add: same_def)
  next
    case False
    let ?id = "unat (used_ring s (unat (used_idx s) mod NUM))"
    from "1.prems" False obtain b where b: "info_status s ?id = 0" "info_b s ?id = Some b"
      "virtio_intr_loop ((wakeup (ChDisk b) (s\<lparr>bdisk := (bdisk s)(b := False)\<rparr>))\<lparr>used_idx := used_idx s + 1\<rparr>) = Ok s'"
      by (subst (asm) virtio_intr_loop.simps) (auto simp: Let_def split: if_split_asm option.split_asm)
    from "1.IH" [OF False refl _ b(2,3)] b(1) w show ?thesis by (blast intro: same_trans)
  qed
qed

lemma same_devintr:
  assumes "devintr s = Ok (r, s')"
  shows "same s s'"
proof -
  have c: "same s (clockintr s)" by (auto simp: same_def clockintr_def wakeup_def dead_def Let_def)
  have p: "same s (snd (plic_claim s))" by (simp add: same_def plic_claim_def)
  have v: "virtio_disk_intr t = Ok t' \<Longrightarrow> same t t'" for t t'
    by (auto simp: virtio_disk_intr_def vwrite_def same_def dest!: same_virtio_intr_loop)
  show ?thesis
  proof (cases "scause s = 0x8000000000000009")
    case True
    obtain irq s1 where pc: "plic_claim s = (irq, s1)" by (cases "plic_claim s")
    from assms True pc obtain s2 where 2: "(if irq = 10 then uartintr s1 else if irq = 1 then virtio_disk_intr s1
        else if irq \<noteq> 0 then printf (cbytes ''unexpected interrupt irq=%d'' @ [10]) [VWord (scast irq)] s1 else Ok s1) = Ok s2"
      "s' = (if irq \<noteq> 0 then plic_complete irq s2 else s2)"
      by (auto simp: devintr_def)
    have "same s1 s2" using 2(1) by (auto split: if_split_asm dest!: v frame intro: same_view)
    moreover have "same s2 s'" using 2(2) by simp
    ultimately show ?thesis using p pc by (auto intro: same_trans)
  qed (use assms c in \<open>auto simp: devintr_def same_def split: if_split_asm\<close>)
qed

lemma good_usertrap_handle:
  fixes s s' :: "'a trap_state_scheme"
  assumes "usertrap_handle s = Ok (w, s')" "good s"
  shows "refs_ok (\<lambda>_. 0) s'" and "w \<noteq> None \<Longrightarrow> good s'"
proof -
  have "(w = None \<longrightarrow> refs_ok (\<lambda>_. 0) s') \<and> (w \<noteq> None \<longrightarrow> good s')"
  proof (cases "scause s = 8")
    case True
    show ?thesis
    proof (cases "killed (cur s) s")
      case k: True
      with assms True show ?thesis by (auto simp: usertrap_handle_def dest: refs_exit)
    next
      case False
      have "good (intr_on (set_tf TF_EPC (get_tf TF_EPC s + 4) s))"
        by (rule refs_same(2) [OF same_regs(2)], rule refs_same(2) [OF same_regs(1)], rule assms(2))
      with assms(1) True False show ?thesis by (auto simp: usertrap_handle_def dest: good_syscall)
    qed
  next
    case False
    from assms(1) False obtain q s1 where d: "devintr s = Ok (q, s1)" by (auto simp: usertrap_handle_def)
    have g1: "good s1" by (rule refs_same(2) [OF same_devintr [OF d] assms(2)])
    have f: "view s3 = view s2" if "usertrap_fault s2 = Ok s3" for s2 s3 :: "'a trap_state_scheme"
      using that by (auto simp: usertrap_fault_def dest!: frame)
    from assms(1) False d have "s' = s1 \<or> view s' = view s1" "w \<noteq> None"
      by (auto simp: usertrap_handle_def split: if_split_asm dest!: f frame)
    with g1 show ?thesis by (auto intro: good_view)
  qed
  then show "refs_ok (\<lambda>_. 0) s'" and "w \<noteq> None \<Longrightarrow> good s'" by (auto simp: good_def)
qed

lemma refs_yield:
  fixes s :: "'a file_state_scheme"
  shows "refs_ok e s \<Longrightarrow> refs_ok e (yield_begin s)"
  by (erule refs_procs) (auto simp: yield_begin_def dead_def)

lemma refs_schedule:
  fixes s :: "'a file_state_scheme"
  shows "refs_ok e s \<Longrightarrow> refs_ok e (scheduler_visit i s)"
  by (erule refs_procs) (auto simp: scheduler_visit_def dead_def)

lemma refs_usertrap:
  fixes s s' :: "'a trap_state_scheme"
  assumes "usertrap s = Ok (r, s')" "good s"
  shows "refs_ok (\<lambda>_. 0) s'"
proof -
  let ?s1 = "s\<lparr>stvec := kernelvec s\<rparr>"
  let ?s2 = "set_tf TF_EPC (sepc ?s1) ?s1"
  have g2: "good ?s2" by (rule refs_same(2) [OF same_regs(1)], rule refs_same(2) [OF same_regs(5)], rule assms(2))
  from assms(1) obtain w s3 where h: "usertrap_handle ?s2 = Ok (w, s3)" by (auto simp: usertrap_def Let_def split: if_split_asm)
  note gh = good_usertrap_handle [OF h g2]
  show ?thesis
  proof (cases w)
    case None
    with assms(1) h gh(1) show ?thesis by (auto simp: usertrap_def Let_def split: if_split_asm)
  next
    case (Some d)
    have g3: "good s3" "refs_ok (\<lambda>_. 0) (prepare_return s3)"
      using gh(2) Some refs_same(1) [OF same_regs(4)] by (auto simp: good_def)
    from assms(1) h Some have "exit (-1) s3 = Ok s' \<or> s' = yield_begin s3 \<or> s' = prepare_return s3"
      by (auto simp: usertrap_def usertrap_ret_def Let_def split: if_split_asm)
    with g3 refs_exit refs_yield show ?thesis by (auto simp: good_def)
  qed
qed

lemma refs_kerneltrap:
  fixes s s' :: "'a trap_state_scheme"
  assumes "kerneltrap s = Ok (r, s')" "refs_ok (\<lambda>_. 0) s"
  shows "refs_ok (\<lambda>_. 0) s'"
proof -
  from assms(1) obtain q s1 where d: "devintr s = Ok (q, s1)" "s' = yield_begin s1 \<or> s' = kerneltrap_ret (sepc s) (sstatus s) s1"
    by (auto simp: kerneltrap_def Let_def split: if_split_asm)
  have "refs_ok (\<lambda>_. 0) s1" by (rule refs_same(1) [OF same_devintr [OF d(1)] assms(2)])
  with d(2) refs_yield refs_same(1) [OF same_regs(6)] show ?thesis by auto
qed

lemma refs_forkret:
  fixes s s' :: "'a trap_state_scheme"
  assumes "forkret s = Ok (r, s')" "refs_ok (\<lambda>_. 0) s"
  shows "refs_ok (\<lambda>_. 0) s'"
proof (cases "forkret_first s")
  case True
  with assms(1) obtain s1 q s2 v where f: "fsinit 1 s = Ok s1" "exec (cbytes ''/init'') [init_str s1] (s1\<lparr>forkret_first := False\<rparr>) = Ok (q, s2)"
    "s' = prepare_return (set_tf TF_A0 v s2)"
    by (auto simp: forkret_def usertrap_ret_def Let_def split: if_split_asm)
  have "same s s1" "same (s1\<lparr>forkret_first := False\<rparr>) s2" using f(1,2) by (auto dest!: frame intro: same_view)
  with f(3) same_regs(1,4,7) have "same s s'" by (metis same_trans)
  with assms(2) show ?thesis by (rule refs_same(1) [rotated])
next
  case False
  with assms refs_same(1) [OF same_regs(4)] show ?thesis by (auto simp: forkret_def usertrap_ret_def Let_def)
qed

section \<open>The kernel as a transition system\<close>

text \<open>
  The steps of one processor: the creation of the first process, a visit of the scheduler to a slot, the first run of a
  process, a trap from user space with what follows it up to the return, the end of the process or a yield,
  the rest of a trap after the yield, the exit system call, an interrupt in the kernel, and the user code of the
  running process, which may change any byte of memory and end in any trap. A system call that has to
  sleep has no step.
\<close>

definition boot :: "'a trap_state_scheme \<Rightarrow> bool" where
  "boot s \<longleftrightarrow> (\<forall>p < NPROC. state (procs s p) = UNUSED \<and> ofile (procs s p) = (\<lambda>_. None)) \<and> (\<forall>f < NFILE. fref (ftable s f) = 0)"

abbreviation running :: "'a trap_state_scheme \<Rightarrow> bool" where
  "running s \<equiv> cur s < NPROC \<and> state (procs s (cur s)) = RUNNING"

inductive kstep :: "'a trap_state_scheme \<Rightarrow> 'a trap_state_scheme \<Rightarrow> bool" where
  k_userinit: "userinit s = Ok t \<Longrightarrow> kstep s t"
| k_schedule: "i < NPROC \<Longrightarrow> kstep s (scheduler_visit i s)"
| k_forkret: "running s \<Longrightarrow> forkret s = Ok (v, t) \<Longrightarrow> kstep s t"
| k_usertrap: "running s \<Longrightarrow> usertrap s = Ok (r, t) \<Longrightarrow> kstep s t"
| k_resume: "running s \<Longrightarrow> usertrap_ret s = (v, t) \<Longrightarrow> kstep s t"
| k_exit: "running s \<Longrightarrow> sys_exit s = Ok t \<Longrightarrow> kstep s t"
| k_kerneltrap: "running s \<or> NPROC \<le> cur s \<Longrightarrow> kerneltrap s = Ok (r, t) \<Longrightarrow> kstep s t"
| k_user: "running s \<Longrightarrow> kstep s (s\<lparr>phys := m, sstatus := a, scause := b, sepc := c, stval := d, rtime := e\<rparr>)"

lemma good_running: "refs_ok (\<lambda>_. 0) s \<Longrightarrow> running s \<Longrightarrow> good s"
  by (simp add: good_def live_def dead_def)

lemma refs_boot:
  assumes "boot s"
  shows "refs_ok (\<lambda>_. 0) s"
proof -
  have "fds (omap s) f = {}" for f using assms by (auto simp: boot_def fds_def)
  with assms show ?thesis by (auto simp: boot_def refs_ok_def rinv_def)
qed

lemma refs_kstep:
  fixes s t :: "'a trap_state_scheme"
  assumes "refs_ok (\<lambda>_. 0) s" "kstep s t"
  shows "refs_ok (\<lambda>_. 0) t"
  using assms(2)
proof cases
  case (k_resume v)
  then show ?thesis using refs_same(1) [OF same_regs(4) assms(1)] by (auto simp: usertrap_ret_def Let_def)
next
  case k_exit
  then show ?thesis using refs_exit good_running [OF assms(1)] by (auto simp: sys_exit_def)
next
  case (k_user m a b c d e)
  have "same s t" by (simp add: k_user(1) same_def)
  with assms(1) show ?thesis by (rule refs_same(1) [rotated])
qed (use assms(1) refs_userinit refs_schedule refs_forkret refs_usertrap refs_kerneltrap good_running in blast)+

interpretation files: inv_system boot "kstep :: 'a trap_state_scheme \<Rightarrow> _" "refs_ok (\<lambda>_. 0)"
  by unfold_locales (rule refs_boot refs_kstep; assumption)+

section \<open>Properties\<close>


definition trap0 :: trap_state where
  "trap0 = virtio_state.extend virtio0
     \<lparr>sstatus = 0x100, scause = 0x8000000000000005, sepc = 0, stval = 0, stvec = 0, satp = 0, tp = 0, rtime = 0, stimecmp = 0,
      kernelvec = 0, uservec_off = 0, usertrap_addr = 0, plic_irqs = (\<lambda>_. 0), plic_n = 0, plic_writes = [],
      forkret_first = True, init_str = 0\<rparr>\<lparr>cur := NPROC\<rparr>"


end
