(* ===== verification/XvLogSteps.thy ===== *)
theory XvLogSteps
  imports XvLog
begin

text \<open>
  The buffers the log holds and pins while it works, and what each step of kernel/log.c does to the disk and
  to the contents of the blocks.
\<close>

section \<open>Buffers in use\<close>

text \<open>\<open>held_wf d H P s\<close>: the current process holds exactly the buffers \<open>H\<close>, and besides these references
  exactly the blocks \<open>P\<close> are pinned, once each.\<close>

definition held_wf :: "uint32 \<Rightarrow> nat set \<Rightarrow> uint32 set \<Rightarrow> 'a bio_state_scheme \<Rightarrow> bool" where
  "held_wf d H P s \<longleftrightarrow> bcache_wf d s \<and> H \<subseteq> {..<NBUF} \<and>
     (\<forall>i < NBUF. sl_locked (slocks s i) \<longleftrightarrow> i \<in> H) \<and>
     (\<forall>i \<in> H. holdingsleep i s \<and> bdev (bufs s i) = d \<and> bvalid (bufs s i)) \<and>
     (\<forall>i < NBUF. refcnt (bufs s i) =
        (if i \<in> H then 1 else 0) + (if bdev (bufs s i) = d \<and> blockno (bufs s i) \<in> P then 1 else 0)) \<and>
     (\<forall>b \<in> P. \<exists>i. cached s d b i)"

lemma held_wfD:
  assumes "held_wf d H P s"
  shows "bcache_wf d s" and "H \<subseteq> {..<NBUF}" and "\<And>i. i < NBUF \<Longrightarrow> sl_locked (slocks s i) \<longleftrightarrow> i \<in> H"
    and "\<And>i. i \<in> H \<Longrightarrow> holdingsleep i s" and "\<And>i. i \<in> H \<Longrightarrow> bdev (bufs s i) = d" and "\<And>i. i \<in> H \<Longrightarrow> bvalid (bufs s i)"
    and "\<And>i. i < NBUF \<Longrightarrow> refcnt (bufs s i) =
        (if i \<in> H then 1 else 0) + (if bdev (bufs s i) = d \<and> blockno (bufs s i) \<in> P then 1 else 0)"
    and "\<And>b. b \<in> P \<Longrightarrow> \<exists>i. cached s d b i"
  using assms unfolding held_wf_def by blast+

lemma held_refcnt_0:
  assumes "held_wf d H P s" and "i < NBUF"
  shows "refcnt (bufs s i) = 0 \<longleftrightarrow> i \<notin> H \<and> \<not> (bdev (bufs s i) = d \<and> blockno (bufs s i) \<in> P)"
  using held_wfD(7) [OF assms] by simp

text \<open>There is a free buffer as long as fewer than \<open>NBUF\<close> are held or pinned.\<close>

lemma held_free:
  assumes "held_wf d H P s" and "finite P" and "card H + card P < NBUF"
  shows "\<exists>i < NBUF. refcnt (bufs s i) = 0"
proof (rule ccontr)
  assume "\<not> ?thesis"
  then have "\<forall>i < NBUF. i \<in> H \<or> bdev (bufs s i) = d \<and> blockno (bufs s i) \<in> P"
    using held_refcnt_0 [OF assms(1)] by blast
  then have sub: "{..<NBUF} - H \<subseteq> {i. i < NBUF \<and> bdev (bufs s i) = d \<and> blockno (bufs s i) \<in> P}" (is "_ \<subseteq> ?Q")
    by auto
  have "inj_on (\<lambda>i. blockno (bufs s i)) ?Q"
    by (rule inj_onI) (auto intro!: bcache_wfD(3) [OF held_wfD(1) [OF assms(1)]] simp: cached_def)
  then have "card ?Q \<le> card P"
    by (rule card_inj_on_le) (use assms(2) in auto)
  moreover have "card ({..<NBUF} - H) \<le> card ?Q"
    by (rule card_mono [OF _ sub]) simp
  moreover have "NBUF - card H \<le> card ({..<NBUF} - H)"
    using diff_card_le_card_Diff [of H "{..<NBUF}"] held_wfD(2) [OF assms(1)] finite_subset by fastforce
  ultimately show False using assms(3) by linarith
qed

lemma held_full:
  assumes "held_wf d {} P s" and "card P = NBUF" and that: "i < NBUF"
  shows "refcnt (bufs s i) \<noteq> 0"
proof -
  let ?Q = "{i. i < NBUF \<and> bdev (bufs s i) = d \<and> blockno (bufs s i) \<in> P}"
  have "P \<subseteq> (\<lambda>i. blockno (bufs s i)) ` ?Q"
    using held_wfD(8) [OF assms(1)] by (force simp: cached_def)
  then have "NBUF \<le> card ?Q"
    unfolding assms(2) [symmetric] by (intro surj_card_le) simp_all
  moreover have "?Q \<subseteq> {..<NBUF}" by auto
  ultimately have "?Q = {..<NBUF}"
    using card_seteq [of "{..<NBUF}" ?Q] by simp
  with that held_refcnt_0 [OF assms(1) that] show ?thesis by blast
qed

lemma held_bread:
  assumes hw: "held_wf d H P s" and nh: "\<forall>i \<in> H. blockno (bufs s i) \<noteq> b"
    and av: "b \<in> P \<or> finite P \<and> card H + card P < NBUF"
  shows "\<exists>i s1. bread d b s = Ok (i, s1) \<and>
    i \<notin> H \<and>
    cached s1 d b i \<and>
    held_wf d (insert i H) P s1 \<and>
    bdata (bufs s1 i) = blk s d b \<and>
    blk s1 d = blk s d \<and>
    disk s1 = disk s \<and>
    (\<forall>j \<in> H. bufs s1 j = bufs s j) \<and>
    bio_state.more s1 = bio_state.more s"
proof -
  note wf = held_wfD(1) [OF hw]
  have un: "i \<notin> H" if "cached s d b i" for i using nh that by (auto simp: cached_def)
  have 1: "\<forall>i. cached s d b i \<longrightarrow> \<not> sl_locked (slocks s i) \<and> refcnt (bufs s i) + 1 \<noteq> 0"
    using un held_wfD(3,7) [OF hw] by (auto simp: cached_def)
  have 2: "(\<exists>i. cached s d b i) \<or> (\<exists>i < NBUF. refcnt (bufs s i) = 0)"
    using av held_wfD(8) [OF hw] held_free [OF hw] by blast
  from bread_ok [OF wf 1 2] obtain i s1 where
    r: "bread d b s = Ok (i, s1)" "cached s1 d b i" "holdingsleep i s1" "bdata (bufs s1 i) = blk s d b" "bcache_wf d s1"
      "\<forall>c. blk s1 d c = blk s d c" "disk s1 = disk s" and
    o: "cached s d b i \<or> (\<forall>j. \<not> cached s d b j) \<and> refcnt (bufs s i) = 0" and
    e: "bvalid (bufs s1 i)" "refcnt (bufs s1 i) = refcnt (bufs s i) + 1" "\<forall>j. j \<noteq> i \<longrightarrow> bufs s1 j = bufs s j"
      "slocks s1 = (slocks s)(i := \<lparr>sl_locked = True, sl_pid = pid (myproc s)\<rparr>)" "myproc s1 = myproc s"
      "bio_state.more s1 = bio_state.more s" by blast
  have i: "i < NBUF" "bdev (bufs s1 i) = d" "blockno (bufs s1 i) = b" using r(2) by (simp_all add: cached_def)
  have iH: "i \<notin> H" using o un held_refcnt_0 [OF hw i(1)] by blast
  have pin: "bdev (bufs s i) = d \<and> blockno (bufs s i) \<in> P \<longleftrightarrow> b \<in> P"
    using o held_refcnt_0 [OF hw i(1)] held_wfD(8) [OF hw] by (auto simp: cached_def)
  have "held_wf d (insert i H) P s1"
    unfolding held_wf_def
  proof (intro conjI)
    show "\<forall>j<NBUF. sl_locked (slocks s1 j) = (j \<in> insert i H)"
      using held_wfD(3) [OF hw] e(4) by simp
    show "\<forall>j\<in>insert i H. holdingsleep j s1 \<and> bdev (bufs s1 j) = d \<and> bvalid (bufs s1 j)"
      using r(3) i e held_wfD(4-6) [OF hw] iH by (auto simp: holdingsleep_def)
    show "\<forall>j<NBUF. refcnt (bufs s1 j) = (if j \<in> insert i H then 1 else 0) +
        (if bdev (bufs s1 j) = d \<and> blockno (bufs s1 j) \<in> P then 1 else 0)"
    proof (intro allI impI)
      fix j :: nat
      assume j: "j < NBUF"
      show "refcnt (bufs s1 j) = (if j \<in> insert i H then 1 else 0) +
        (if bdev (bufs s1 j) = d \<and> blockno (bufs s1 j) \<in> P then 1 else 0)"
      proof (cases "j = i")
        case True
        with held_wfD(7) [OF hw i(1)] e(2) iH pin i show ?thesis by simp
      next
        case False
        with held_wfD(7) [OF hw j] e(3) show ?thesis by simp
      qed
    qed
    show "\<forall>c\<in>P. \<exists>j. cached s1 d c j"
    proof
      fix c
      assume c: "c \<in> P"
      then obtain j where j: "cached s d c j" using held_wfD(8) [OF hw] by blast
      show "\<exists>j. cached s1 d c j"
      proof (cases "j = i")
        case True
        with j c o held_refcnt_0 [OF hw i(1)] have "c = b" by (auto simp: cached_def)
        with r(2) show ?thesis by blast
      next
        case False
        with j e(3) have "cached s1 d c j" by (simp add: cached_def)
        then show ?thesis by blast
      qed
    qed
  qed (use r(5) held_wfD(2) [OF hw] i in auto)
  moreover have "\<forall>j \<in> H. bufs s1 j = bufs s j" using e(3) iH by auto
  ultimately show ?thesis
    using r iH e(6) by (intro exI [of _ i] exI [of _ s1]) (auto simp: fun_eq_iff)
qed

text \<open>Writing a held buffer, after changing its contents.\<close>

lemma held_bwrite:
  assumes hw: "held_wf d H P s" and i: "i \<in> H" "blockno (bufs s i) = b"
  shows "\<exists>s1. bwrite i (upd_data i f s) = Ok s1 \<and>
    held_wf d H P s1 \<and>
    disk s1 = (disk s)(b := f (bdata (bufs s i))) \<and>
    blk s1 d = (blk s d)(b := f (bdata (bufs s i))) \<and>
    bufs s1 = (bufs s)(i := (bufs s i)\<lparr>bdata := f (bdata (bufs s i))\<rparr>) \<and>
    bio_state.more s1 = bio_state.more s"
proof -
  let ?v = "f (bdata (bufs s i))"
  let ?s = "s\<lparr>bufs := (bufs s)(i := (bufs s i)\<lparr>bdata := ?v\<rparr>), disk := (disk s)(b := ?v)\<rparr>"
  note wf = held_wfD(1) [OF hw]
  have lt: "i < NBUF" using held_wfD(2) [OF hw] i(1) by auto
  have "holdingsleep i (upd_data i f s)"
    using held_wfD(4) [OF hw i(1)] by (simp add: holdingsleep_def upd_data_def upd_buf_def myproc_def)
  then have r: "bwrite i (upd_data i f s) = Ok ?s"
    using i(2) by (simp add: bwrite_def virtio_disk_rw_def upd_data_def upd_buf_def)
  have c: "cached ?s d x j \<longleftrightarrow> cached s d x j" for x j by (auto simp: cached_def)
  have cb: "cached s d b i" using lt i held_wfD(5) [OF hw] by (simp add: cached_def)
  have ri: "refcnt (bufs s i) \<noteq> 0" using held_refcnt_0 [OF hw lt] i by simp
  have ob: "blockno (bufs s j) \<noteq> b" if "j < NBUF" "bdev (bufs s j) = d" "j \<noteq> i" for j
    using bcache_wfD(3) [OF wf cb, of j] that by (auto simp: cached_def)
  have wf': "bcache_wf d ?s"
    unfolding bcache_wf_def c
  proof (intro conjI)
    show "\<forall>j<NBUF. bdev (bufs ?s j) = d \<and> bvalid (bufs ?s j) \<and> refcnt (bufs ?s j) = 0 \<longrightarrow>
        bdata (bufs ?s j) = disk ?s (blockno (bufs ?s j))"
      using bcache_wfD(5) [OF wf] ob ri by auto
  qed (use bcache_wfD(1-4) [OF wf] in auto)
  have "held_wf d H P ?s"
    unfolding held_wf_def c using wf' held_wfD(2-8) [OF hw] by (auto simp: holdingsleep_def myproc_def)
  moreover have "blk ?s d x = ((blk s d)(b := ?v)) x" for x
  proof (cases "x = b")
    case True
    with blk_eq(1) [OF wf', of b i] cb c held_wfD(6) [OF hw i(1)] show ?thesis by simp
  next
    case False
    have "\<not> cached s d x i" using i False by (simp add: cached_def)
    then have "blk ?s d x = blk s d x"
      by (intro blk_frame [OF wf wf']) (use c False in auto)
    with False show ?thesis by simp
  qed
  ultimately show ?thesis
    using r by (intro exI [of _ ?s]) (auto simp: fun_eq_iff)
qed

lemma held_brelse:
  assumes hw: "held_wf d H P s" and i: "i \<in> H"
    and clean: "blockno (bufs s i) \<in> P \<or> bdata (bufs s i) = disk s (blockno (bufs s i))"
  shows "\<exists>s1. brelse i s = Ok s1 \<and>
    held_wf d (H - {i}) P s1 \<and>
    blk s1 d = blk s d \<and>
    disk s1 = disk s \<and>
    (\<forall>j. j \<noteq> i \<longrightarrow> bufs s1 j = bufs s j) \<and>
    bio_state.more s1 = bio_state.more s"
proof -
  note wf = held_wfD(1) [OF hw]
  have lt: "i < NBUF" using held_wfD(2) [OF hw] i by auto
  note d = held_wfD(5) [OF hw i]
  note rc = held_wfD(7) [OF hw lt]
  have 1: "refcnt (bufs s i) = 1 \<longrightarrow> bdev (bufs s i) = d \<longrightarrow> bvalid (bufs s i) \<longrightarrow> bdata (bufs s i) = disk s (blockno (bufs s i))"
    using clean rc i d by (auto split: if_splits)
  from brelse_ok [OF wf lt held_wfD(4) [OF hw i] 1] obtain s1 where
    r: "brelse i s = Ok s1" "bcache_wf d s1" "\<forall>c. blk s1 d c = blk s d c" "disk s1 = disk s" and
    e: "bufs s1 = (bufs s)(i := (bufs s i)\<lparr>refcnt := refcnt (bufs s i) - 1\<rparr>)"
      "slocks s1 = (slocks s)(i := \<lparr>sl_locked = False, sl_pid = 0\<rparr>)" "pid (myproc s1) = pid (myproc s)"
      "bio_state.more s1 = bio_state.more s" by blast
  have c: "cached s1 d x j \<longleftrightarrow> cached s d x j" for x j unfolding e(1) cached_def by auto
  have "held_wf d (H - {i}) P s1"
    unfolding held_wf_def c
  proof (intro conjI)
    show "\<forall>j<NBUF. refcnt (bufs s1 j) = (if j \<in> H - {i} then 1 else 0) +
        (if bdev (bufs s1 j) = d \<and> blockno (bufs s1 j) \<in> P then 1 else 0)"
      using held_wfD(7) [OF hw] i e(1) by auto
    show "\<forall>j\<in>H - {i}. holdingsleep j s1 \<and> bdev (bufs s1 j) = d \<and> bvalid (bufs s1 j)"
      using held_wfD(4-6) [OF hw] e by (auto simp: holdingsleep_def)
  qed (use r(2) held_wfD(2,3,8) [OF hw] e(2) in auto)
  moreover have "\<forall>j. j \<noteq> i \<longrightarrow> bufs s1 j = bufs s j" using e(1) by simp
  ultimately show ?thesis
    using r e(4) by (intro exI [of _ s1]) (auto simp: fun_eq_iff)
qed

lemma held_bunpin:
  assumes hw: "held_wf d H P s" and i: "i \<in> H" "blockno (bufs s i) = b" "b \<in> P"
  shows "held_wf d H (P - {b}) (bunpin i s)" and "blk (bunpin i s) d = blk s d"
proof -
  note wf = held_wfD(1) [OF hw]
  let ?s = "bunpin i s"
  have lt: "i < NBUF" using held_wfD(2) [OF hw] i(1) by auto
  note d = held_wfD(5) [OF hw i(1)]
  have e: "bufs ?s = (bufs s)(i := (bufs s i)\<lparr>refcnt := refcnt (bufs s i) - 1\<rparr>)" "slocks ?s = slocks s"
    "disk ?s = disk s" "lru ?s = lru s" "myproc ?s = myproc s"
    by (simp_all add: bunpin_def upd_buf_def myproc_def)
  have c: "cached ?s d x j \<longleftrightarrow> cached s d x j" for x j unfolding e(1) cached_def by auto
  have ri: "refcnt (bufs s i) = 2" using held_wfD(7) [OF hw lt] i d by simp
  have wf': "bcache_wf d ?s"
    using bcache_wfD [OF wf] ri unfolding bcache_wf_def c e by auto
  have ob: "blockno (bufs s j) \<noteq> b" if "j < NBUF" "bdev (bufs s j) = d" "j \<noteq> i" for j
    using bcache_wfD(3) [OF wf, of b i j] that lt i d by (auto simp: cached_def)
  show "held_wf d H (P - {b}) ?s"
    unfolding held_wf_def c
  proof (intro conjI)
    show "\<forall>j<NBUF. refcnt (bufs ?s j) = (if j \<in> H then 1 else 0) +
        (if bdev (bufs ?s j) = d \<and> blockno (bufs ?s j) \<in> P - {b} then 1 else 0)"
      using held_wfD(7) [OF hw] i d ri ob unfolding e(1) by auto
    show "\<forall>j\<in>H. holdingsleep j ?s \<and> bdev (bufs ?s j) = d \<and> bvalid (bufs ?s j)"
      using held_wfD(4-6) [OF hw] e by (auto simp: holdingsleep_def)
  qed (use wf' held_wfD(2,3,8) [OF hw] e(2) in auto)
  show "blk ?s d = blk s d"
    by (rule ext, rule blk_frame [OF wf wf']) (use c e in auto)
qed

section \<open>The steps of the log\<close>

lemma log_fields:
  fixes s s' :: "'a log_state_scheme"
  assumes "bio_state.more s' = bio_state.more s"
  shows "log_dev s' = log_dev s" and "log_start s' = log_start s" and "lh_n s' = lh_n s" and "lh_block s' = lh_block s"
  using assms by (cases s; cases s'; simp)+

abbreviation log_blk :: "'a log_state_scheme \<Rightarrow> nat \<Rightarrow> uint32" where
  "log_blk s k \<equiv> log_start s + of_nat k + 1"

text \<open>Between two steps no buffer is held.\<close>

abbreviation quiet :: "uint32 set \<Rightarrow> 'a log_state_scheme \<Rightarrow> bool" where
  "quiet P s \<equiv> held_wf (log_dev s) {} P s"

text \<open>What a step that writes \<open>v\<close> to block \<open>b\<close> does to the store.\<close>

definition wrote :: "uint32 \<Rightarrow> block \<Rightarrow> 'a log_state_scheme \<Rightarrow> 'a log_state_scheme \<Rightarrow> bool" where
  "wrote b v s s' \<longleftrightarrow> disk s' = (disk s)(b := v) \<and> blk s' (log_dev s) = (blk s (log_dev s))(b := v) \<and>
     bio_state.more s' = bio_state.more s"

lemma quiet_clean:
  assumes "held_wf d {} P s" and "b \<notin> P"
  shows "blk s d b = disk s b"
proof (cases "\<exists>i. cached s d b i")
  case True
  then obtain i where i: "cached s d b i" by blast
  then have "refcnt (bufs s i) = 0"
    using held_refcnt_0 [OF assms(1), of i] assms(2) by (auto simp: cached_def)
  with bcache_wfD(5) [OF held_wfD(1) [OF assms(1)], of i] blk_eq(1) [OF held_wfD(1) [OF assms(1)] i] i
  show ?thesis by (auto simp: cached_def)
next
  case False
  with blk_eq(2) [OF held_wfD(1) [OF assms(1)]] show ?thesis by blast
qed

lemma write_log_one_step:
  assumes q: "quiet P s" and P: "finite P" "card P < NBUF" "lh_block s k \<in> P" "log_blk s k \<notin> P"
  obtains s' where "write_log_one k s = Ok s'" "quiet P s'" "wrote (log_blk s k) (blk s (log_dev s) (lh_block s k)) s s'"
proof -
  let ?d = "log_dev s" and ?to = "log_blk s k" and ?fr = "lh_block s k"
  obtain i s1 where 1: "bread ?d ?to s = Ok (i, s1)" "cached s1 ?d ?to i" "held_wf ?d {i} P s1"
    "blk s1 ?d = blk s ?d" "disk s1 = disk s" "bio_state.more s1 = bio_state.more s"
    using held_bread [OF q, of ?to] P by auto
  note f1 = log_fields [OF 1(6)]
  have ne: "?to \<noteq> ?fr" using P(3,4) by auto
  have i: "blockno (bufs s1 i) = ?to" using 1(2) by (simp add: cached_def)
  obtain j s2 where 2: "bread ?d ?fr s1 = Ok (j, s2)" "j \<notin> {i}" "cached s2 ?d ?fr j" "held_wf ?d (insert j {i}) P s2"
    "bdata (bufs s2 j) = blk s1 ?d ?fr" "blk s2 ?d = blk s1 ?d" "disk s2 = disk s1" "\<forall>l \<in> {i}. bufs s2 l = bufs s1 l"
    "bio_state.more s2 = bio_state.more s1"
    using held_bread [OF 1(3), of ?fr] P(3) i ne by auto
  have ij: "blockno (bufs s2 i) = ?to" "blockno (bufs s2 j) = ?fr" "i \<noteq> j"
    using 2 i by (simp_all add: cached_def)
  obtain s3 where 3: "bwrite i (upd_data i (\<lambda>_. bdata (bufs s2 j)) s2) = Ok s3" "held_wf ?d (insert j {i}) P s3"
    "disk s3 = (disk s2)(?to := bdata (bufs s2 j))" "blk s3 ?d = (blk s2 ?d)(?to := bdata (bufs s2 j))"
    "bufs s3 = (bufs s2)(i := (bufs s2 i)\<lparr>bdata := bdata (bufs s2 j)\<rparr>)" "bio_state.more s3 = bio_state.more s2"
    using held_bwrite [OF 2(4) _ ij(1), of "\<lambda>_. bdata (bufs s2 j)"] by auto
  have "blockno (bufs s3 j) \<in> P" using 3(5) ij P(3) by simp
  with held_brelse [OF 3(2), of j] obtain s4 where 4: "brelse j s3 = Ok s4" "held_wf ?d {i} P s4" "blk s4 ?d = blk s3 ?d"
    "disk s4 = disk s3" "\<forall>l. l \<noteq> j \<longrightarrow> bufs s4 l = bufs s3 l" "bio_state.more s4 = bio_state.more s3"
    using ij(3) by (auto simp: insert_Diff_if)
  have "bdata (bufs s4 i) = disk s4 (blockno (bufs s4 i))" using 4(4,5) 3(3,5) ij by simp
  with held_brelse [OF 4(2), of i] obtain s5 where 5: "brelse i s4 = Ok s5" "held_wf ?d {} P s5" "blk s5 ?d = blk s4 ?d"
    "disk s5 = disk s4" "bio_state.more s5 = bio_state.more s4"
    by auto
  have m: "bio_state.more s5 = bio_state.more s" using 1(6) 2(9) 3(6) 4(6) 5(5) by simp
  have "write_log_one k s = Ok s5"
    using 1(1) 2(1) 3(1) 4(1) 5(1) f1 by (simp add: write_log_one_def)
  moreover have "quiet P s5" using 5(2) log_fields [OF m] by simp
  moreover have "wrote ?to (blk s ?d ?fr) s s5"
    using m 1(4,5) 2(5-7) 3(3,4) 4(3,4) 5(3,4) by (simp add: wrote_def)
  ultimately show thesis by (rule that)
qed

lemma install_one_step:
  assumes q: "quiet P s" and P: "finite P" "card P < NBUF" "log_blk s k \<notin> P" "log_blk s k \<noteq> lh_block s k"
    and rec: "if recovering then P = {} else lh_block s k \<in> P"
  obtains s' where "install_one recovering k s = Ok s'" "quiet (P - {lh_block s k}) s'"
    "wrote (lh_block s k) (disk s (log_blk s k)) s s'"
proof -
  let ?d = "log_dev s" and ?l = "log_blk s k" and ?h = "lh_block s k"
  obtain i s1 where 1: "bread ?d ?l s = Ok (i, s1)" "cached s1 ?d ?l i" "held_wf ?d {i} P s1" "bdata (bufs s1 i) = blk s ?d ?l"
    "blk s1 ?d = blk s ?d" "disk s1 = disk s" "bio_state.more s1 = bio_state.more s"
    using held_bread [OF q, of ?l] P by auto
  note f1 = log_fields [OF 1(7)]
  have cl: "blk s ?d ?l = disk s ?l" by (rule quiet_clean [OF q P(3)])
  have i: "blockno (bufs s1 i) = ?l" using 1(2) by (simp add: cached_def)
  have av: "?h \<in> P \<or> finite P \<and> card {i} + card P < NBUF" using rec by (auto split: if_splits)
  obtain j s2 where 2: "bread ?d ?h s1 = Ok (j, s2)" "j \<notin> {i}" "cached s2 ?d ?h j" "held_wf ?d (insert j {i}) P s2"
    "blk s2 ?d = blk s1 ?d" "disk s2 = disk s1" "\<forall>l \<in> {i}. bufs s2 l = bufs s1 l"
    "bio_state.more s2 = bio_state.more s1"
    using held_bread [OF 1(3) _ av] P(4) i by auto
  have ij: "blockno (bufs s2 i) = ?l" "blockno (bufs s2 j) = ?h" "i \<noteq> j" "bdata (bufs s2 i) = disk s ?l"
    using 2 i 1(4) cl by (simp_all add: cached_def)
  obtain s3 where 3: "bwrite j (upd_data j (\<lambda>_. bdata (bufs s2 i)) s2) = Ok s3" "held_wf ?d (insert j {i}) P s3"
    "disk s3 = (disk s2)(?h := bdata (bufs s2 i))" "blk s3 ?d = (blk s2 ?d)(?h := bdata (bufs s2 i))"
    "bufs s3 = (bufs s2)(j := (bufs s2 j)\<lparr>bdata := bdata (bufs s2 i)\<rparr>)" "bio_state.more s3 = bio_state.more s2"
    using held_bwrite [OF 2(4) _ ij(2), of "\<lambda>_. bdata (bufs s2 i)"] by auto
  let ?s3 = "if recovering then s3 else bunpin j s3" and ?P = "P - {?h}"
  have b: "blockno (bufs ?s3 l) = blockno (bufs s3 l)" "bdata (bufs ?s3 l) = bdata (bufs s3 l)" "disk ?s3 = disk s3"
    "bio_state.more ?s3 = bio_state.more s3" for l
    by (simp_all add: bunpin_def upd_buf_def)
  have h3: "held_wf ?d (insert j {i}) ?P ?s3" "blk ?s3 ?d = blk s3 ?d"
    using 3(2,5) held_bunpin [OF 3(2), of j ?h] rec ij by (auto split: if_splits)
  have "bdata (bufs ?s3 i) = disk ?s3 (blockno (bufs ?s3 i))"
    unfolding b using 3(3,5) ij 2(6) 1(6) P(4) by simp
  with held_brelse [OF h3(1), of i] obtain s4 where 4: "brelse i ?s3 = Ok s4" "held_wf ?d {j} ?P s4" "blk s4 ?d = blk ?s3 ?d"
    "disk s4 = disk ?s3" "\<forall>l. l \<noteq> i \<longrightarrow> bufs s4 l = bufs ?s3 l" "bio_state.more s4 = bio_state.more ?s3"
    using ij(3) by (auto simp: insert_Diff_if)
  have "bdata (bufs s4 j) = disk s4 (blockno (bufs s4 j))" using 4(4,5) 3(3,5) ij b by simp
  with held_brelse [OF 4(2), of j] obtain s5 where 5: "brelse j s4 = Ok s5" "held_wf ?d {} ?P s5" "blk s5 ?d = blk s4 ?d"
    "disk s5 = disk s4" "bio_state.more s5 = bio_state.more s4"
    by auto
  have m: "bio_state.more s5 = bio_state.more s" using 1(7) 2(8) 3(6) 4(6) 5(5) b by simp
  have "install_one recovering k s = Ok s5"
    using 1(1) 2(1) 3(1) 4(1) 5(1) f1 by (simp add: install_one_def)
  moreover have "quiet ?P s5" using 5(2) log_fields [OF m] by simp
  moreover have "wrote ?h (disk s ?l) s s5"
    using m 1(5,6) 2(5,6) 3(3,4) 4(3,4) 5(3,4) h3(2) b ij by (simp add: wrote_def)
  ultimately show thesis by (rule that)
qed

lemma write_head_step:
  assumes q: "quiet P s" and P: "finite P" "card P < NBUF" "log_start s \<notin> P"
  obtains s' where "write_head s = Ok s'" "quiet P s'"
    "wrote (log_start s) (head_block (lh_n s) (lh_block s) (disk s (log_start s))) s s'"
proof -
  let ?d = "log_dev s" and ?b = "log_start s"
  obtain i s1 where 1: "bread ?d ?b s = Ok (i, s1)" "cached s1 ?d ?b i" "held_wf ?d {i} P s1" "bdata (bufs s1 i) = blk s ?d ?b"
    "blk s1 ?d = blk s ?d" "disk s1 = disk s" "bio_state.more s1 = bio_state.more s"
    using held_bread [OF q, of ?b] P by auto
  note f1 = log_fields [OF 1(7)]
  have cl: "blk s ?d ?b = disk s ?b" by (rule quiet_clean [OF q P(3)])
  have i: "blockno (bufs s1 i) = ?b" using 1(2) by (simp add: cached_def)
  let ?v = "head_block (lh_n s) (lh_block s) (disk s ?b)"
  obtain s2 where 2: "bwrite i (upd_data i (head_block (lh_n s1) (lh_block s1)) s1) = Ok s2" "held_wf ?d {i} P s2"
    "disk s2 = (disk s1)(?b := ?v)" "blk s2 ?d = (blk s1 ?d)(?b := ?v)" "bufs s2 = (bufs s1)(i := (bufs s1 i)\<lparr>bdata := ?v\<rparr>)"
    "bio_state.more s2 = bio_state.more s1"
    using held_bwrite [OF 1(3) _ i, of "head_block (lh_n s1) (lh_block s1)"] 1(4) cl f1 by auto
  have "bdata (bufs s2 i) = disk s2 (blockno (bufs s2 i))" using 2(3,5) i by simp
  with held_brelse [OF 2(2), of i] obtain s3 where 3: "brelse i s2 = Ok s3" "held_wf ?d {} P s3" "blk s3 ?d = blk s2 ?d"
    "disk s3 = disk s2" "bio_state.more s3 = bio_state.more s2"
    by auto
  have m: "bio_state.more s3 = bio_state.more s" using 1(7) 2(6) 3(5) by simp
  have "write_head s = Ok s3" using 1(1) 2(1) 3(1) by (simp add: write_head_def)
  moreover have "quiet P s3" using 3(2) log_fields [OF m] by simp
  moreover have "wrote ?b ?v s s3" using m 1(5,6) 2(3,4) 3(3,4) by (simp add: wrote_def)
  ultimately show thesis by (rule that)
qed

lemma held_wf_log [simp]:
  fixes s :: "'a log_state_scheme"
  shows "held_wf d H P (s\<lparr>lh_n := n\<rparr>) \<longleftrightarrow> held_wf d H P s" and "held_wf d H P (s\<lparr>lh_block := bl\<rparr>) \<longleftrightarrow> held_wf d H P s"
  by (simp_all add: held_wf_def bcache_wf_def cached_def holdingsleep_def myproc_def)

lemma read_head_step:
  assumes q: "quiet {} s"
  obtains s' where "read_head s = Ok s'" "quiet {} s'" "disk s' = disk s" "log_dev s' = log_dev s" "log_start s' = log_start s"
    "lh_n s' = sint (bld32 (disk s (log_start s)) 0)"
    "\<forall>k < nat (lh_n s'). lh_block s' k = bld32 (disk s (log_start s)) (4 + 4 * k)"
proof -
  let ?d = "log_dev s" and ?b = "log_start s"
  let ?v = "disk s ?b"
  let ?n = "sint (bld32 ?v 0)"
  obtain i s1 where 1: "bread ?d ?b s = Ok (i, s1)" "cached s1 ?d ?b i" "held_wf ?d {i} {} s1" "bdata (bufs s1 i) = blk s ?d ?b"
    "disk s1 = disk s" "bio_state.more s1 = bio_state.more s"
    using held_bread [OF q, of ?b] by auto
  have cl: "blk s ?d ?b = ?v" by (rule quiet_clean [OF q]) simp
  let ?s = "s1\<lparr>lh_n := ?n, lh_block := \<lambda>k. if k < nat ?n then bld32 ?v (4 + 4 * k) else lh_block s1 k\<rparr>"
  have h: "held_wf ?d {i} {} ?s" using 1(3) by simp
  have "bdata (bufs ?s i) = disk ?s (blockno (bufs ?s i))" using 1(2,4,5) cl by (simp add: cached_def)
  with held_brelse [OF h, of i] obtain s2 where 2: "brelse i ?s = Ok s2" "held_wf ?d {} {} s2" "disk s2 = disk ?s"
    "bio_state.more s2 = bio_state.more ?s"
    by auto
  note f = log_fields [OF 2(4)] log_fields [OF 1(6)]
  have "read_head s = Ok s2" using 1(1,4) 2(1) cl by (simp add: read_head_def Let_def cong: if_cong)
  then show thesis
    by (rule that) (use 2(2,3) 1(5) f in simp_all)
qed

section \<open>The loops of the log\<close>

definition log_area :: "'a log_state_scheme \<Rightarrow> uint32 set" where
  "log_area s = insert (log_start s) (log_blk s ` {..<30})"

lemma log_blk_eq:
  assumes "j < 30" and "k < 30"
  shows "log_blk s j = log_blk s k \<longleftrightarrow> j = k" and "log_blk s j \<noteq> log_start s"
proof -
  have u: "unat (of_nat i + 1 :: uint32) = Suc i" if "i < 30" for i
  proof -
    have "unat (of_nat (Suc i) :: uint32) = Suc i mod 2 ^ 32"
      by (simp only: unat_of_nat len_num1 len_bit0 mult_2 [symmetric]) simp
    moreover have "Suc i < 2 ^ 32" using that by simp
    ultimately have "unat (of_nat (Suc i) :: uint32) = Suc i" by (simp only: mod_less)
    then show ?thesis by (simp only: of_nat_Suc add.commute)
  qed
  have "j = k" if "(of_nat j + 1 :: uint32) = of_nat k + 1"
    using arg_cong [OF that, of unat] unfolding u [OF assms(1)] u [OF assms(2)] by (rule Suc_inject)
  then show "log_blk s j = log_blk s k \<longleftrightarrow> j = k"
    unfolding add.assoc add_left_cancel by blast
  have "(of_nat j + 1 :: uint32) \<noteq> 0"
    using u [OF assms(1)] by (metis Zero_not_Suc unat_0)
  then show "log_blk s j \<noteq> log_start s"
    unfolding add.assoc add_cancel_left_right .
qed

lemma write_log_loop:
  assumes q: "quiet P s" and P: "finite P" "card P < NBUF" "P \<inter> log_area s = {}" "\<forall>j < n. lh_block s j \<in> P"
    and n: "n < 30" and k: "k \<le> n"
  shows "\<exists>t. foldM write_log_one [0..<k] s = Ok t \<and> quiet P t \<and> bio_state.more t = bio_state.more s \<and>
    (\<forall>j < k. disk t (log_blk s j) = blk s (log_dev s) (lh_block s j)) \<and>
    (\<forall>b. b \<notin> log_blk s ` {..<k} \<longrightarrow> disk t b = disk s b \<and> blk t (log_dev s) b = blk s (log_dev s) b)"
  using k
proof (induction k)
  case 0
  with q show ?case by simp
next
  case (Suc k)
  then obtain t where t: "foldM write_log_one [0..<k] s = Ok t" "quiet P t" "bio_state.more t = bio_state.more s"
    "\<forall>j < k. disk t (log_blk s j) = blk s (log_dev s) (lh_block s j)"
    "\<forall>b. b \<notin> log_blk s ` {..<k} \<longrightarrow> disk t b = disk s b \<and> blk t (log_dev s) b = blk s (log_dev s) b" by auto
  note f = log_fields [OF t(3)]
  have kn: "k < 30" using Suc.prems n by simp
  have a: "log_blk s j \<notin> P" if "j < 30" for j using that P(3) by (auto simp: log_area_def)
  have kP: "lh_block s k \<in> P" using P(4) Suc.prems by simp
  from write_log_one_step [OF t(2) P(1,2), of k] obtain t' where
    t': "write_log_one k t = Ok t'" "quiet P t'" "wrote (log_blk t k) (blk t (log_dev t) (lh_block t k)) t t'"
    using kP a [OF kn] f by auto
  have m: "bio_state.more t' = bio_state.more s" using t'(3) t(3) by (simp add: wrote_def)
  have "lh_block s k \<notin> log_blk s ` {..<k}" using kP a kn by force
  with t(5) have v: "blk t (log_dev s) (lh_block s k) = blk s (log_dev s) (lh_block s k)" by blast
  have w: "disk t' = (disk t)(log_blk s k := blk s (log_dev s) (lh_block s k))"
    "blk t' (log_dev s) = (blk t (log_dev s))(log_blk s k := blk s (log_dev s) (lh_block s k))"
    using t'(3) f v by (simp_all add: wrote_def)
  have "\<forall>j < Suc k. disk t' (log_blk s j) = blk s (log_dev s) (lh_block s j)"
  proof (intro allI impI)
    fix j
    assume "j < Suc k"
    then consider "j = k" | "j < k" "log_blk s j \<noteq> log_blk s k"
      using log_blk_eq(1) [of j k s] kn by fastforce
    then show "disk t' (log_blk s j) = blk s (log_dev s) (lh_block s j)"
      by cases (use t(4) in \<open>simp_all only: w fun_upd_apply simp_thms if_True if_False\<close>)
  qed
  moreover have "\<forall>b. b \<notin> log_blk s ` {..<Suc k} \<longrightarrow> disk t' b = disk s b \<and> blk t' (log_dev s) b = blk s (log_dev s) b"
    using t(5) unfolding w lessThan_Suc by auto
  moreover have "foldM write_log_one [0..<Suc k] s = Ok t'" using t(1) t'(1) by simp
  ultimately show ?case using t'(2) m by blast
qed

lemma install_loop:
  assumes q: "quiet P s" and P: "finite P" "card P < NBUF" "P \<inter> log_area s = {}"
    and h: "inj_on (lh_block s) {..<n}" "lh_block s ` {..<n} \<inter> log_area s = {}" "n < 30"
    and rec: "if recovering then P = {} else P = lh_block s ` {..<n}" and k: "k \<le> n"
  shows "\<exists>t. foldM (install_one recovering) [0..<k] s = Ok t \<and> quiet (P - lh_block s ` {..<k}) t \<and>
    bio_state.more t = bio_state.more s \<and> (\<forall>j < k. disk t (lh_block s j) = disk s (log_blk s j)) \<and>
    (\<forall>b. b \<notin> lh_block s ` {..<k} \<longrightarrow> disk t b = disk s b)"
  using k
proof (induction k)
  case 0
  with q show ?case by simp
next
  case (Suc k)
  let ?P = "P - lh_block s ` {..<k}"
  obtain t where t: "foldM (install_one recovering) [0..<k] s = Ok t" "quiet ?P t"
    "bio_state.more t = bio_state.more s" "\<forall>j < k. disk t (lh_block s j) = disk s (log_blk s j)"
    "\<forall>b. b \<notin> lh_block s ` {..<k} \<longrightarrow> disk t b = disk s b" using Suc by auto
  note f = log_fields [OF t(3)]
  have kn: "k < n" "k < 30" using Suc.prems h(3) by simp_all
  have la: "log_blk s k \<in> log_area s" using kn by (simp add: log_area_def)
  then have lP: "log_blk s k \<notin> ?P" using P(3) by blast
  have lh: "log_blk s k \<noteq> lh_block s j" if "j < n" for j using la h(2) that by auto
  have hk: "lh_block s k \<noteq> lh_block s j" if "j < k" for j
    using inj_onD [OF h(1), of k j] that kn by auto
  have rk: "if recovering then ?P = {} else lh_block t k \<in> ?P"
    using rec kn hk f by auto
  have P': "finite ?P" "card ?P < NBUF" "log_blk t k \<notin> ?P" "log_blk t k \<noteq> lh_block t k"
    using P(1,2) card_mono [OF P(1), of ?P] lP lh [OF kn(1)] f by fastforce+
  obtain t' where
    t': "install_one recovering k t = Ok t'" "quiet (?P - {lh_block t k}) t'" "wrote (lh_block t k) (disk t (log_blk t k)) t t'"
    by (rule install_one_step [OF t(2) P' rk])
  have m: "bio_state.more t' = bio_state.more s" using t'(3) t(3) by (simp add: wrote_def)
  have "log_blk s k \<notin> lh_block s ` {..<k}"
    using la h(2) image_mono [of "{..<k}" "{..<n}" "lh_block s"] kn(1) by fastforce
  then have v: "disk t (log_blk s k) = disk s (log_blk s k)" using t(5) by blast
  have w: "disk t' = (disk t)(lh_block s k := disk s (log_blk s k))"
    using t'(3) f v by (simp add: wrote_def)
  have "\<forall>j < Suc k. disk t' (lh_block s j) = disk s (log_blk s j)"
    using t(4) hk unfolding w less_Suc_eq by (auto simp: not_sym)
  moreover have "\<forall>b. b \<notin> lh_block s ` {..<Suc k} \<longrightarrow> disk t' b = disk s b"
    using t(5) unfolding w lessThan_Suc by auto
  moreover have "foldM (install_one recovering) [0..<Suc k] s = Ok t'" using t(1) t'(1) by simp
  moreover have "quiet (P - lh_block s ` {..<Suc k}) t'"
    using t'(2) f by (simp add: lessThan_Suc Diff_insert2 [symmetric] Diff_insert [symmetric])
  ultimately show ?case using m by blast
qed

end
