(* ===== verification/XvCrash.thy ===== *)
theory XvCrash
  imports XvLogSteps
begin

text \<open>
  Crash recovery of kernel/log.c. \<open>commit_prefix k\<close> is \<open>commit\<close> cut after its first \<open>k\<close> disk writes. Shown: a
  crash at any of these points followed by \<open>recover_from_log\<close> leaves either no block of the transaction or
  all of them; and a transaction that fills the log cannot be committed. A write of one block is atomic.
\<close>

section \<open>Commit and recovery\<close>

text \<open>\<open>commit\<close> up to its \<open>k\<close>-th write to the disk: the blocks of the log, the header, the blocks at home, the
  cleared header.\<close>

definition commit_prefix :: "nat \<Rightarrow> 'a log_state_scheme \<Rightarrow> 'a log_state_scheme res" where
  "commit_prefix k s =
     (let n = nat (lh_n s)
      in if k \<le> n then foldM write_log_one [0..<k] s
         else bindr (write_log s) (\<lambda>s1.
              bindr (write_head s1) (\<lambda>s2.
              if k \<le> 2 * n + 1 then foldM (install_one False) [0..<k - n - 1] s2
              else bindr (install_trans False s2) (\<lambda>s3. write_head (s3\<lparr>lh_n := 0\<rparr>)))))"

text \<open>A transaction ready to be committed: its blocks are pinned, lie outside of the log and leave a buffer
  free, and the header on the disk says that the log is empty.\<close>

definition commit_ready :: "'a log_state_scheme \<Rightarrow> bool" where
  "commit_ready s \<longleftrightarrow> 0 < lh_n s \<and> lh_n s < LOGSIZE \<and> distinct (logged s) \<and> set (logged s) \<inter> log_area s = {} \<and>
     quiet (set (logged s)) s \<and> sint (bld32 (disk s (log_start s)) 0) = 0"

text \<open>The state \<open>r\<close> at the start of recovery has the disk of \<open>t\<close> and nothing else of it.\<close>

definition reboot :: "'a log_state_scheme \<Rightarrow> 'a log_state_scheme \<Rightarrow> bool" where
  "reboot t r \<longleftrightarrow> disk r = disk t \<and> log_dev r = log_dev t \<and> log_start r = log_start t \<and> quiet {} r"

lemma commit_prefix_all: "0 < lh_n s \<Longrightarrow> commit_prefix (2 * nat (lh_n s) + 2) s = commit s"
  by (simp add: commit_prefix_def commit_def Let_def)

lemma log_area_cong: "log_start t = log_start s \<Longrightarrow> log_area t = log_area s"
  by (simp add: log_area_def)

lemma logged_facts:
  assumes "commit_ready s"
  shows "set (logged s) = lh_block s ` {..<nat (lh_n s)}" and "inj_on (lh_block s) {..<nat (lh_n s)}"
    and "card (set (logged s)) = nat (lh_n s)" and "nat (lh_n s) < 30"
proof -
  show "set (logged s) = lh_block s ` {..<nat (lh_n s)}" by (auto simp: logged_def)
  show "inj_on (lh_block s) {..<nat (lh_n s)}"
    using assms by (simp add: commit_ready_def logged_def distinct_map atLeast0LessThan)
  show "card (set (logged s)) = nat (lh_n s)"
    using assms distinct_card [of "logged s"] by (simp add: commit_ready_def logged_def)
  show "nat (lh_n s) < 30" using assms by (auto simp: commit_ready_def)
qed

text \<open>Recovery from a disk whose header says that the log is empty.\<close>

lemma recover_empty:
  assumes r: "quiet {} r" and h: "sint (bld32 (disk r (log_start r)) 0) = 0"
  shows "\<exists>r'. recover_from_log r = Ok r' \<and> (\<forall>b. b \<noteq> log_start r \<longrightarrow> disk r' b = disk r b)"
proof -
  from read_head_step [OF r] h obtain r1 where 1: "read_head r = Ok r1" "quiet {} r1" "disk r1 = disk r"
    "log_dev r1 = log_dev r" "log_start r1 = log_start r" "lh_n r1 = 0" by auto
  have "quiet {} (r1\<lparr>lh_n := 0\<rparr>)" using 1(2) by simp
  from write_head_step [OF this] obtain r2 where 2: "write_head (r1\<lparr>lh_n := 0\<rparr>) = Ok r2"
    "wrote (log_start r1) (head_block 0 (lh_block r1) (disk r1 (log_start r1))) (r1\<lparr>lh_n := 0\<rparr>) r2" by auto
  have "recover_from_log r = Ok r2" using 1(1,6) 2(1) by (simp add: recover_from_log_def install_trans_def)
  then show ?thesis using 2(2) 1(3,5) by (auto simp: wrote_def)
qed

text \<open>Recovery from a disk with a committed transaction installs it.\<close>

lemma recover_committed:
  assumes r: "quiet {} r" and n: "sint (bld32 (disk r (log_start r)) 0) = int n" "n < 30"
    and h: "\<forall>k < n. bld32 (disk r (log_start r)) (4 + 4 * k) = bl k"
    and bl: "inj_on bl {..<n}" "bl ` {..<n} \<inter> log_area r = {}"
  shows "\<exists>r'. recover_from_log r = Ok r' \<and> (\<forall>j < n. disk r' (bl j) = disk r (log_blk r j)) \<and>
    (\<forall>b. b \<notin> bl ` {..<n} \<and> b \<noteq> log_start r \<longrightarrow> disk r' b = disk r b)"
proof -
  from read_head_step [OF r] n obtain r1 where 1: "read_head r = Ok r1" "quiet {} r1" "disk r1 = disk r"
    "log_dev r1 = log_dev r" "log_start r1 = log_start r" "lh_n r1 = int n" "\<forall>k < n. lh_block r1 k = bl k"
    using h by auto
  have im: "lh_block r1 ` {..<k} = bl ` {..<k}" if "k \<le> n" for k
    using 1(7) that by (auto simp: image_def)
  have inj: "inj_on (lh_block r1) {..<n}" using bl(1) 1(7) by (simp add: inj_on_def)
  obtain r2 where 2: "foldM (install_one True) [0..<n] r1 = Ok r2" "quiet {} r2" "bio_state.more r2 = bio_state.more r1"
    "\<forall>j < n. disk r2 (bl j) = disk r (log_blk r j)" "\<forall>b. b \<notin> bl ` {..<n} \<longrightarrow> disk r2 b = disk r b"
    using install_loop [OF 1(2) _ _ _ inj, of True n] bl(2) n(2) im [of n] 1(3,5,7) log_area_cong [OF 1(5)] by auto
  note f = log_fields [OF 2(3)]
  have "quiet {} (r2\<lparr>lh_n := 0\<rparr>)" using 2(2) by simp
  from write_head_step [OF this] obtain r3 where 3: "write_head (r2\<lparr>lh_n := 0\<rparr>) = Ok r3"
    "wrote (log_start r2) (head_block 0 (lh_block r2) (disk r2 (log_start r2))) (r2\<lparr>lh_n := 0\<rparr>) r3" by auto
  have "recover_from_log r = Ok r3" using 1(1,6) 2(1) 3(1) by (simp add: recover_from_log_def install_trans_def)
  moreover have "disk r3 b = disk r2 b" if "b \<noteq> log_start r" for b
    using 3(2) f 1(5) that by (simp add: wrote_def)
  moreover have "bl j \<noteq> log_start r" if "j < n" for j
  proof -
    have "bl j \<in> bl ` {..<n}" using that by simp
    then have "bl j \<notin> log_area r" using bl(2) by blast
    then show ?thesis unfolding log_area_def by blast
  qed
  ultimately show ?thesis using 2(4,5) by auto
qed

text \<open>The disk after \<open>k\<close> writes of \<open>commit\<close>.\<close>

lemma commit_prefix_disk:
  assumes s: "commit_ready s" and k: "k \<le> 2 * nat (lh_n s) + 2"
  defines "n \<equiv> nat (lh_n s)" and "hb \<equiv> head_block (lh_n s) (lh_block s) (disk s (log_start s))"
  shows "\<exists>t. commit_prefix k s = Ok t \<and> log_dev t = log_dev s \<and> log_start t = log_start s \<and>
    (if k \<le> n then \<forall>b. b \<notin> log_blk s ` {..<n} \<longrightarrow> disk t b = disk s b
     else if k \<le> 2 * n + 1 then disk t (log_start s) = hb \<and>
       (\<forall>j < n. disk t (log_blk s j) = blk s (log_dev s) (lh_block s j)) \<and>
       (\<forall>b. b \<notin> log_area s \<and> b \<notin> set (logged s) \<longrightarrow> disk t b = disk s b)
     else sint (bld32 (disk t (log_start s)) 0) = 0 \<and> (\<forall>b. b \<notin> log_area s \<longrightarrow> disk t b = blk s (log_dev s) b))"
proof -
  let ?P = "set (logged s)" and ?d = "log_dev s"
  note lf = logged_facts [OF s, folded n_def]
  have q: "quiet ?P s" and dis: "?P \<inter> log_area s = {}"
    using s by (simp_all add: commit_ready_def)
  have n30: "nat (lh_n s) = n" "lh_n s = int n" using s by (simp_all add: n_def commit_ready_def)
  have P: "finite ?P" "card ?P < NBUF" "\<forall>j < n. lh_block s j \<in> ?P" using lf by auto
  have la: "log_blk s ` {..<n} \<subseteq> log_area s" using lf(4) by (auto simp: log_area_def)
  have wl: "\<exists>t. foldM write_log_one [0..<m] s = Ok t \<and> quiet ?P t \<and> bio_state.more t = bio_state.more s \<and>
      (\<forall>j < m. disk t (log_blk s j) = blk s ?d (lh_block s j)) \<and>
      (\<forall>b. b \<notin> log_blk s ` {..<m} \<longrightarrow> disk t b = disk s b \<and> blk t ?d b = blk s ?d b)" if "m \<le> n" for m
    by (rule write_log_loop [OF q P(1,2) dis P(3) lf(4) that])
  show ?thesis
  proof (cases "k \<le> n")
    case True
    from wl [OF this] obtain t where t: "foldM write_log_one [0..<k] s = Ok t" "bio_state.more t = bio_state.more s"
      "\<forall>b. b \<notin> log_blk s ` {..<k} \<longrightarrow> disk t b = disk s b" by blast
    have "log_blk s ` {..<k} \<subseteq> log_blk s ` {..<n}" using True by auto
    then have "\<forall>b. b \<notin> log_blk s ` {..<n} \<longrightarrow> disk t b = disk s b" using t(3) by blast
    with t(1) log_fields [OF t(2)] True show ?thesis by (simp add: commit_prefix_def n30 Let_def)
  next
    case False
    from wl [of n] obtain s1 where 1: "foldM write_log_one [0..<n] s = Ok s1" "quiet ?P s1" "bio_state.more s1 = bio_state.more s"
      "\<forall>j < n. disk s1 (log_blk s j) = blk s ?d (lh_block s j)" "\<forall>b. b \<notin> log_blk s ` {..<n} \<longrightarrow> disk s1 b = disk s b" by blast
    note f1 = log_fields [OF 1(3)]
    have st: "log_start s \<notin> ?P" using dis by (auto simp: log_area_def)
    have stl: "log_start s \<noteq> log_blk s j" if "j < n" for j
      using log_blk_eq(2) [of j 0 s] that lf(4) by simp
    from write_head_step [OF 1(2) P(1,2)] st f1 obtain s2 where 2: "write_head s1 = Ok s2" "quiet ?P s2"
      "wrote (log_start s) (head_block (lh_n s) (lh_block s) (disk s1 (log_start s))) s1 s2" by auto
    have m2: "bio_state.more s2 = bio_state.more s" using 2(3) 1(3) by (simp add: wrote_def)
    note f2 = log_fields [OF m2]
    have "disk s1 (log_start s) = disk s (log_start s)" using 1(5) stl by blast
    then have d2: "disk s2 = (disk s1)(log_start s := hb)" using 2(3) by (simp add: wrote_def hb_def)
    have il: "\<exists>t. foldM (install_one False) [0..<m] s2 = Ok t \<and> quiet (?P - lh_block s ` {..<m}) t \<and>
        bio_state.more t = bio_state.more s2 \<and> (\<forall>j < m. disk t (lh_block s j) = disk s2 (log_blk s j)) \<and>
        (\<forall>b. b \<notin> lh_block s ` {..<m} \<longrightarrow> disk t b = disk s2 b)" if "m \<le> n" for m
      using install_loop [OF 2(2) P(1,2) _ _ _ lf(4), of False m] dis lf(1,2) f2 log_area_cong [OF f2(2)] that by simp
    have l2: "disk s2 (log_blk s j) = blk s ?d (lh_block s j)" if "j < n" for j
      using d2 1(4) stl [OF that] that by simp
    have notlog: "b \<notin> lh_block s ` {..<m}" if "b \<in> log_area s" "m \<le> n" for b m
      using dis lf(1) that by force
    have pre: "commit_prefix k s = (if k \<le> 2 * n + 1 then foldM (install_one False) [0..<k - n - 1] s2
        else bindr (install_trans False s2) (\<lambda>s3. write_head (s3\<lparr>lh_n := 0\<rparr>)))"
      using False 1(1) 2(1) by (simp add: commit_prefix_def n30 Let_def write_log_def)
    show ?thesis
    proof (cases "k \<le> 2 * n + 1")
      case True
      then have kn: "k - n - 1 \<le> n" by simp
      from il [OF kn] obtain t where t: "foldM (install_one False) [0..<k - n - 1] s2 = Ok t" "bio_state.more t = bio_state.more s2"
        "\<forall>b. b \<notin> lh_block s ` {..<k - n - 1} \<longrightarrow> disk t b = disk s2 b" by blast
      note ft = log_fields [OF t(2)]
      have "disk t (log_start s) = hb" using t(3) notlog [OF _ kn, of "log_start s"] d2 by (simp add: log_area_def)
      moreover have "disk t (log_blk s j) = blk s ?d (lh_block s j)" if "j < n" for j
        using t(3) notlog [OF _ kn, of "log_blk s j"] l2 [OF that] la that by auto
      moreover have "disk t b = disk s b" if "b \<notin> log_area s" "b \<notin> ?P" for b
      proof -
        have "b \<notin> lh_block s ` {..<k - n - 1}" using that(2) kn unfolding lf(1) by auto
        then have "disk t b = disk s2 b" using t(3) by blast
        also have "\<dots> = disk s1 b" using d2 that(1) by (simp add: log_area_def)
        also have "\<dots> = disk s b" using 1(5) la that(1) by blast
        finally show ?thesis .
      qed
      ultimately show ?thesis using False True pre t(1) ft f2 by simp
    next
      case last: False
      from il [of n] obtain s3 where 3: "foldM (install_one False) [0..<n] s2 = Ok s3" "quiet (?P - lh_block s ` {..<n}) s3"
        "bio_state.more s3 = bio_state.more s2" "\<forall>j < n. disk s3 (lh_block s j) = disk s2 (log_blk s j)"
        "\<forall>b. b \<notin> lh_block s ` {..<n} \<longrightarrow> disk s3 b = disk s2 b" by blast
      note f3 = log_fields [OF 3(3)]
      have "quiet {} (s3\<lparr>lh_n := 0\<rparr>)" using 3(2) lf(1) by simp
      from write_head_step [OF this] obtain t where t: "write_head (s3\<lparr>lh_n := 0\<rparr>) = Ok t"
        "wrote (log_start s3) (head_block 0 (lh_block s3) (disk s3 (log_start s3))) (s3\<lparr>lh_n := 0\<rparr>) t" by auto
      have ft: "log_dev t = log_dev s" "log_start t = log_start s"
        using log_fields [of t "s3\<lparr>lh_n := 0\<rparr>"] t(2) f2 f3 by (simp_all add: wrote_def)
      have "sint (bld32 (disk t (log_start s)) 0) = 0"
        using t(2) f2 f3 head_block_n [of 0] by (simp add: wrote_def)
      moreover have "disk t b = blk s ?d b" if b: "b \<notin> log_area s" for b
      proof -
        have tb: "disk t b = disk s3 b" using t(2) f2 f3 b by (auto simp: wrote_def log_area_def)
        show ?thesis
        proof (cases "b \<in> ?P")
          case True
          then obtain j where "j < n" "b = lh_block s j" unfolding lf(1) by auto
          with tb 3(4) l2 show ?thesis by simp
        next
          case False
          then have "disk s3 b = disk s2 b" using 3(5) lf(1) by blast
          also have "\<dots> = disk s1 b" using d2 b by (auto simp: log_area_def)
          also have "\<dots> = disk s b" using 1(5) la b by blast
          finally show ?thesis using tb quiet_clean [OF q False] by simp
        qed
      qed
      moreover have "commit_prefix k s = Ok t"
        using pre last 3(1) t(1) f2 n30 by (simp add: install_trans_def)
      ultimately show ?thesis using \<open>\<not> k \<le> n\<close> last ft by simp
    qed
  qed
qed

section \<open>Properties\<close>

text \<open>C1: a transaction is atomic under crashes. If the machine stops after any number \<open>k\<close> of the disk writes of
  \<open>commit\<close>, recovery at the next boot succeeds and every block outside of the log has either its old contents,
  if the header had not been written, or the contents the transaction gave it. All \<open>2n + 2\<close> writes together
  are \<open>commit\<close>.\<close>

theorem commit_crash_atomic:
  assumes "commit_ready s" and "k \<le> 2 * nat (lh_n s) + 2"
  shows "commit_prefix (2 * nat (lh_n s) + 2) s = commit s \<and>
    (\<exists>t. commit_prefix k s = Ok t \<and>
      (\<forall>r. reboot t r \<longrightarrow> (\<exists>r'. recover_from_log r = Ok r' \<and>
        (\<forall>b. b \<notin> log_area s \<longrightarrow> disk r' b = (if k \<le> nat (lh_n s) then disk s b else blk s (log_dev s) b)))))"
proof
  let ?n = "nat (lh_n s)" and ?d = "log_dev s"
  note lf = logged_facts [OF assms(1)]
  have q: "quiet (set (logged s)) s" and dis: "set (logged s) \<inter> log_area s = {}" and n0: "0 < lh_n s" "lh_n s < LOGSIZE"
    and hd0: "sint (bld32 (disk s (log_start s)) 0) = 0"
    using assms(1) by (simp_all add: commit_ready_def)
  show "commit_prefix (2 * ?n + 2) s = commit s" by (rule commit_prefix_all [OF n0(1)])
  from commit_prefix_disk [OF assms] obtain t where t: "commit_prefix k s = Ok t" "log_dev t = ?d" "log_start t = log_start s"
    and D: "if k \<le> ?n then \<forall>b. b \<notin> log_blk s ` {..<?n} \<longrightarrow> disk t b = disk s b
     else if k \<le> 2 * ?n + 1 then disk t (log_start s) = head_block (lh_n s) (lh_block s) (disk s (log_start s)) \<and>
       (\<forall>j < ?n. disk t (log_blk s j) = blk s ?d (lh_block s j)) \<and>
       (\<forall>b. b \<notin> log_area s \<and> b \<notin> set (logged s) \<longrightarrow> disk t b = disk s b)
     else sint (bld32 (disk t (log_start s)) 0) = 0 \<and> (\<forall>b. b \<notin> log_area s \<longrightarrow> disk t b = blk s ?d b)"
    by blast
  have la: "log_blk s j \<in> log_area s" if "j < ?n" for j using that lf(4) by (simp add: log_area_def)
  have st: "log_start s \<notin> log_blk s ` {..<?n}"
    using log_blk_eq(2) [of _ 0 s] lf(4) by fastforce
  have "\<exists>r'. recover_from_log r = Ok r' \<and> (\<forall>b. b \<notin> log_area s \<longrightarrow> disk r' b = (if k \<le> ?n then disk s b else blk s ?d b))"
    if "reboot t r" for r
  proof -
    have r: "quiet {} r" "disk r = disk t" "log_start r = log_start s"
      using that t(3) unfolding reboot_def by auto
    have ra: "log_area r = log_area s" by (rule log_area_cong [OF r(3)])
    consider "k \<le> ?n" | "\<not> k \<le> ?n" "k \<le> 2 * ?n + 1" | "\<not> k \<le> ?n" "\<not> k \<le> 2 * ?n + 1" by blast
    then show ?thesis
    proof cases
      case 1
      with D have d: "disk t b = disk s b" if "b \<notin> log_blk s ` {..<?n}" for b using that by simp
      from recover_empty [OF r(1)] d [OF st] hd0 r obtain r' where
        "recover_from_log r = Ok r'" "\<forall>b. b \<noteq> log_start s \<longrightarrow> disk r' b = disk t b" by auto
      moreover have "b \<noteq> log_start s" if "b \<notin> log_area s" for b
        using that unfolding log_area_def by blast
      moreover have "disk t b = disk s b" if "b \<notin> log_area s" for b
        using that la by (intro d) blast
      ultimately show ?thesis using 1 by auto
    next
      case 2
      with D have d: "disk t (log_start s) = head_block (lh_n s) (lh_block s) (disk s (log_start s))"
        "\<forall>j < ?n. disk t (log_blk s j) = blk s ?d (lh_block s j)"
        "\<forall>b. b \<notin> log_area s \<and> b \<notin> set (logged s) \<longrightarrow> disk t b = disk s b" by simp_all
      have "sint (bld32 (disk r (log_start r)) 0) = int ?n"
        using d(1) r head_block_n [of "lh_n s"] n0 by simp
      moreover have "\<forall>j < ?n. bld32 (disk r (log_start r)) (4 + 4 * j) = lh_block s j"
        using d(1) r head_block_nth [of _ "lh_n s"] by simp
      ultimately obtain r' where r': "recover_from_log r = Ok r'" "\<forall>j < ?n. disk r' (lh_block s j) = disk t (log_blk s j)"
        "\<forall>b. b \<notin> lh_block s ` {..<?n} \<and> b \<noteq> log_start s \<longrightarrow> disk r' b = disk t b"
        using recover_committed [OF r(1) _ lf(4) _ lf(2)] dis lf(1) r ra by auto
      have "disk r' b = blk s ?d b" if b: "b \<notin> log_area s" for b
      proof (cases "b \<in> set (logged s)")
        case True
        then obtain j where "j < ?n" "b = lh_block s j" unfolding lf(1) by auto
        with r'(2) d(2) show ?thesis by simp
      next
        case False
        have "b \<noteq> log_start s" using b by (auto simp: log_area_def)
        then have "disk r' b = disk t b" using r'(3) False unfolding lf(1) by blast
        also have "\<dots> = disk s b" using d(3) b False by blast
        finally show ?thesis using quiet_clean [OF q False] by simp
      qed
      with r'(1) 2(1) show ?thesis by auto
    next
      case 3
      with D have d: "sint (bld32 (disk t (log_start s)) 0) = 0" "\<forall>b. b \<notin> log_area s \<longrightarrow> disk t b = blk s ?d b" by simp_all
      from recover_empty [OF r(1)] d(1) r obtain r' where
        r': "recover_from_log r = Ok r'" "\<forall>b. b \<noteq> log_start s \<longrightarrow> disk r' b = disk t b" by auto
      have "disk r' b = blk s ?d b" if "b \<notin> log_area s" for b
      proof -
        have "b \<noteq> log_start s" using that by (auto simp: log_area_def)
        with r'(2) d(2) that show ?thesis by simp
      qed
      with r'(1) 3(1) show ?thesis by auto
    qed
  qed
  with t(1) show "\<exists>t. commit_prefix k s = Ok t \<and> (\<forall>r. reboot t r \<longrightarrow> (\<exists>r'. recover_from_log r = Ok r' \<and>
      (\<forall>b. b \<notin> log_area s \<longrightarrow> disk r' b = (if k \<le> ?n then disk s b else blk s ?d b))))" by blast
qed

definition crash0 :: log_state where
  "crash0 = log0\<lparr>bufs := (bufs log0)(0 := \<lparr>bvalid = True, bdev = 1, blockno = 40, refcnt = 1, bdata = (\<lambda>_. 1)\<rparr>), disk := (\<lambda>_ _. 0)\<rparr>"

lemma crash0_simps:
  "log_dev crash0 = 1" "log_start crash0 = 2" "lh_n crash0 = 1" "lh_block crash0 = (\<lambda>_. 40)" "disk crash0 = (\<lambda>_ _. 0)"
  "lru crash0 = rev [0..<NBUF]" "slocks crash0 = slocks ipc0" "logged crash0 = [40]"
  "bufs crash0 = (\<lambda>i. if i = 0 then \<lparr>bvalid = True, bdev = 1, blockno = 40, refcnt = 1, bdata = (\<lambda>_. 1)\<rparr>
     else \<lparr>bvalid = False, bdev = 0, blockno = 0, refcnt = 0, bdata = (\<lambda>_. 0)\<rparr>)"
  by (simp_all add: crash0_def log0_def bio0_def bio_state.defs ipc_state.defs logged_def fun_eq_iff)

lemma crash0_ready: "commit_ready crash0"
proof -
  have "40 \<notin> log_area crash0"
    by (auto simp: log_area_def crash0_simps lessThan_nat_numeral)
  moreover have "held_wf 1 {} {40} crash0"
    by (auto simp: held_wf_def bcache_wf_def cached_def crash0_simps ipc0_def simp del: upt_rec_numeral)
  moreover have "bld32 (\<lambda>_. 0) 0 = 0" by (simp add: bld32_def)
  ultimately show ?thesis by (simp add: commit_ready_def crash0_simps)
qed

theorem commit_crash_atomic_witness:
  "\<exists>t r r'. commit_prefix 2 crash0 = Ok t \<and> reboot t r \<and> recover_from_log r = Ok r' \<and> disk r' 40 = (\<lambda>_. 1)"
proof -
  have k: "2 \<le> 2 * nat (lh_n crash0) + 2" by simp
  from commit_crash_atomic [OF crash0_ready k] obtain t where t: "commit_prefix 2 crash0 = Ok t"
    "\<forall>r. reboot t r \<longrightarrow> (\<exists>r'. recover_from_log r = Ok r' \<and> (\<forall>b. b \<notin> log_area crash0 \<longrightarrow> disk r' b = blk crash0 1 b))"
    by (auto simp: crash0_simps)
  from commit_prefix_disk [OF crash0_ready k] t(1) have f: "log_dev t = 1" "log_start t = 2" by (auto simp: crash0_simps)
  have "reboot t (log0\<lparr>disk := disk t\<rparr>)"
    by (auto simp: reboot_def f held_wf_def bcache_wf_def cached_def log0_def bio0_def bio_state.defs ipc_state.defs ipc0_def
        simp del: upt_rec_numeral)
  moreover have "40 \<notin> log_area crash0"
    by (auto simp: log_area_def crash0_simps lessThan_nat_numeral)
  moreover have "blk crash0 1 40 = (\<lambda>_. 1)"
  proof -
    have w: "bcache_wf 1 crash0" using crash0_ready by (auto simp: commit_ready_def crash0_simps dest: held_wfD(1))
    have "cached crash0 1 40 0" by (simp add: cached_def crash0_simps)
    from blk_eq(1) [OF w this] show ?thesis by (simp add: crash0_simps)
  qed
  ultimately show ?thesis using t by metis
qed

text \<open>C29: the log has room for as many blocks as there are buffers. A transaction that uses all of it has
  every buffer pinned, and \<open>commit\<close> panics when it reads the first block of the log.\<close>

theorem full_log_panics:
  assumes "lh_n s = LOGSIZE" and "distinct (logged s)" and "log_blk s 0 \<notin> set (logged s)" and "quiet (set (logged s)) s"
  shows "commit s = Panic ''bget: no buffers''"
proof -
  let ?P = "set (logged s)" and ?b = "log_start s + 1"
  have "card ?P = NBUF" using assms(1,2) distinct_card [of "logged s"] by (simp add: logged_def)
  note full = held_full [OF assms(4) this]
  have n: "\<not> cached s (log_dev s) ?b i" for i
    using full [of i] held_refcnt_0 [OF assms(4), of i] assms(3) by (auto simp: cached_def)
  note wf = held_wfD(1) [OF assms(4)]
  have "find (\<lambda>i. refcnt (bufs s i) = 0) (rev (lru s)) = None"
    using full bcache_wfD(2) [OF wf] by (simp add: find_None_iff)
  then have "bread (log_dev s) ?b s = Panic ''bget: no buffers''"
    using find_cached(2) [OF wf, of ?b] n by (simp add: bread_def bget_def)
  then have "write_log_one 0 s = Panic ''bget: no buffers''" by (simp add: write_log_one_def)
  moreover have "[0..<30] = (0::nat) # [Suc 0..<30]" by (rule upt_conv_Cons) simp
  ultimately have "write_log s = Panic ''bget: no buffers''"
    using assms(1) by (simp add: write_log_def del: upt_rec_numeral)
  then show ?thesis using assms(1) by (simp add: commit_def)
qed

definition full0 :: log_state where
  "full0 = log0\<lparr>lh_n := 30, lh_block := (\<lambda>i. 99 + of_nat i + 1),
     bufs := (\<lambda>i. \<lparr>bvalid = True, bdev = 1, blockno = 99 + of_nat i + 1, refcnt = 1, bdata = (\<lambda>_. 0)\<rparr>)\<rparr>"

theorem full_log_panics_witness: "commit full0 = Panic ''bget: no buffers''"
proof -
  have eq: "(99 + of_nat i + 1 :: uint32) = 99 + of_nat j + 1 \<longleftrightarrow> i = j" if "i < 30" "j < 30" for i j
    using log_blk_eq(1) [OF that, of "full0\<lparr>log_start := 99\<rparr>"] by simp
  have f: "log_dev full0 = 1" "log_start full0 = 2" "lh_n full0 = 30" "lru full0 = rev [0..<30]" "slocks full0 = slocks ipc0"
    "bufs full0 = (\<lambda>i. \<lparr>bvalid = True, bdev = 1, blockno = 99 + of_nat i + 1, refcnt = 1, bdata = (\<lambda>_. 0)\<rparr>)"
    by (simp_all add: full0_def log0_def bio0_def bio_state.defs ipc_state.defs)
  have l: "logged full0 = map (\<lambda>i. 99 + of_nat i + 1) [0..<30]"
    by (simp add: logged_def full0_def del: upt_rec_numeral)
  have "distinct (logged full0)"
    unfolding l distinct_map inj_on_def using eq by (simp del: upt_rec_numeral)
  moreover have "log_blk full0 0 \<notin> set (logged full0)"
    unfolding l f by code_simp
  moreover have "quiet (set (logged full0)) full0"
    unfolding held_wf_def bcache_wf_def cached_def l f
    using eq by (auto simp: ipc0_def simp del: upt_rec_numeral)
  ultimately show ?thesis using full_log_panics [of full0] f by simp
qed

end
