(* ===== verification/XvSpinlock.thy ===== *)
theory XvSpinlock
  imports XvContracts
begin

text \<open>
  kernel/spinlock.c: interrupt nesting and spin locks on several CPUs. The other theories treat a
  critical section as one step; here \<open>acquire\<close> and \<open>release\<close> are cut at their atomic accesses and
  interleaved with those of every other CPU.
\<close>

section \<open>State and operations\<close>

record cpu =
  noff :: int
  intena :: bool
  sie :: bool

record spinlock =
  locked :: bool
  lkcpu :: "nat option"

record machine =
  cpus :: "nat \<Rightarrow> cpu"
  lk :: spinlock

definition initlock :: "'a machine_scheme \<Rightarrow> 'a machine_scheme" where
  "initlock m = m\<lparr>lk := \<lparr>locked = False, lkcpu = None\<rparr>\<rparr>"

definition upd_cpu :: "nat \<Rightarrow> (cpu \<Rightarrow> cpu) \<Rightarrow> 'a machine_scheme \<Rightarrow> 'a machine_scheme" where
  "upd_cpu c f m = m\<lparr>cpus := (cpus m)(c := f (cpus m c))\<rparr>"

definition cpu_push_off :: "cpu \<Rightarrow> cpu" where
  "cpu_push_off p =
     (let old = sie p; p1 = p\<lparr>sie := False\<rparr>;
          p2 = (if noff p1 = 0 then p1\<lparr>intena := old\<rparr> else p1)
      in p2\<lparr>noff := noff p2 + 1\<rparr>)"

definition cpu_pop_off :: "cpu \<Rightarrow> cpu res" where
  "cpu_pop_off p =
     (if sie p then Panic ''pop_off - interruptible''
      else if noff p < 1 then Panic ''pop_off''
      else let p1 = p\<lparr>noff := noff p - 1\<rparr>
        in Ok (if noff p1 = 0 \<and> intena p1 then p1\<lparr>sie := True\<rparr> else p1))"

definition push_off :: "nat \<Rightarrow> 'a machine_scheme \<Rightarrow> 'a machine_scheme" where
  "push_off c m = upd_cpu c cpu_push_off m"

definition pop_off :: "nat \<Rightarrow> 'a machine_scheme \<Rightarrow> 'a machine_scheme res" where
  "pop_off c m = bindr (cpu_pop_off (cpus m c)) (\<lambda>p. Ok (upd_cpu c (\<lambda>_. p) m))"

definition holding :: "nat \<Rightarrow> 'a machine_scheme \<Rightarrow> bool" where
  "holding c m \<longleftrightarrow> locked (lk m) \<and> lkcpu (lk m) = Some c"

text \<open>\<open>acquire\<close>: up to the loop, one atomic swap of the loop, and the record of the owner.\<close>

definition acquire_enter :: "nat \<Rightarrow> 'a machine_scheme \<Rightarrow> 'a machine_scheme res" where
  "acquire_enter c m = (let m1 = push_off c m in if holding c m1 then Panic ''acquire'' else Ok m1)"

definition acquire_swap :: "'a machine_scheme \<Rightarrow> bool \<times> 'a machine_scheme" where
  "acquire_swap m = (locked (lk m), m\<lparr>lk := (lk m)\<lparr>locked := True\<rparr>\<rparr>)"

definition acquire_record :: "nat \<Rightarrow> 'a machine_scheme \<Rightarrow> 'a machine_scheme" where
  "acquire_record c m = m\<lparr>lk := (lk m)\<lparr>lkcpu := Some c\<rparr>\<rparr>"

text \<open>\<open>release\<close>: up to the fence, and from the atomic store on.\<close>

definition release_begin :: "nat \<Rightarrow> 'a machine_scheme \<Rightarrow> 'a machine_scheme res" where
  "release_begin c m = (if \<not> holding c m then Panic ''release'' else Ok (m\<lparr>lk := (lk m)\<lparr>lkcpu := None\<rparr>\<rparr>))"

definition release_end :: "nat \<Rightarrow> 'a machine_scheme \<Rightarrow> 'a machine_scheme res" where
  "release_end c m = pop_off c (m\<lparr>lk := (lk m)\<lparr>locked := False\<rparr>\<rparr>)"

text \<open>The two calls run by one CPU on its own; \<open>Block\<close> is an \<open>acquire\<close> that spins.\<close>

definition acquire :: "nat \<Rightarrow> 'a machine_scheme \<Rightarrow> 'a machine_scheme res" where
  "acquire c m = bindr (acquire_enter c m) (\<lambda>m1.
     let (old, m2) = acquire_swap m1 in if old then Block else Ok (acquire_record c m2))"

definition release :: "nat \<Rightarrow> 'a machine_scheme \<Rightarrow> 'a machine_scheme res" where
  "release c m = bindr (release_begin c m) (release_end c)"

section \<open>Interleaved executions\<close>

datatype lpc = Outside | Spinning | Swapped | Critical | Releasing

record system = machine +
  pcs :: "nat \<Rightarrow> lpc"

definition goto :: "nat \<Rightarrow> lpc \<Rightarrow> system \<Rightarrow> system" where
  "goto c l s = s\<lparr>pcs := (pcs s)(c := l)\<rparr>"

definition lock_init :: "system \<Rightarrow> bool" where
  "lock_init s \<longleftrightarrow> lk s = \<lparr>locked = False, lkcpu = None\<rparr> \<and> (\<forall>c. pcs s c = Outside \<and> noff (cpus s c) = 0)"

text \<open>A CPU outside the lock and with no other lock held may also enable or disable its interrupts.\<close>

inductive lock_step :: "system \<Rightarrow> system \<Rightarrow> bool" where
  enter: "pcs s c = Outside \<Longrightarrow> acquire_enter c s = Ok s' \<Longrightarrow> lock_step s (goto c Spinning s')"
| spin: "pcs s c = Spinning \<Longrightarrow> acquire_swap s = (True, s') \<Longrightarrow> lock_step s s'"
| swap: "pcs s c = Spinning \<Longrightarrow> acquire_swap s = (False, s') \<Longrightarrow> lock_step s (goto c Swapped s')"
| own: "pcs s c = Swapped \<Longrightarrow> lock_step s (goto c Critical (acquire_record c s))"
| unlock: "pcs s c = Critical \<Longrightarrow> release_begin c s = Ok s' \<Longrightarrow> lock_step s (goto c Releasing s')"
| leave: "pcs s c = Releasing \<Longrightarrow> release_end c s = Ok s' \<Longrightarrow> lock_step s (goto c Outside s')"
| intr: "pcs s c = Outside \<Longrightarrow> lock_step s (upd_cpu c (\<lambda>p. p\<lparr>sie := b\<rparr>) s)"

definition owner :: "lpc \<Rightarrow> bool" where
  "owner l \<longleftrightarrow> l \<in> {Swapped, Critical, Releasing}"

definition owners :: "system \<Rightarrow> nat set" where
  "owners s = {c. owner (pcs s c)}"

definition lock_inv :: "system \<Rightarrow> bool" where
  "lock_inv s \<longleftrightarrow>
     (if locked (lk s) then \<exists>c. owners s = {c} else owners s = {}) \<and>
     (\<forall>c. lkcpu (lk s) = Some c \<longleftrightarrow> pcs s c = Critical) \<and>
     (\<forall>c. if pcs s c = Outside then noff (cpus s c) = 0 else noff (cpus s c) = 1 \<and> \<not> sie (cpus s c))"

lemma lock_simps [simp]:
  "pcs (goto c l s) = (pcs s)(c := l)" "lk (goto c l s) = lk s" "cpus (goto c l s) = cpus s"
  "lk (upd_cpu c f m) = lk m" "cpus (upd_cpu c f m) = (cpus m)(c := f (cpus m c))"
  "pcs (upd_cpu c f s) = pcs s" "owner Outside = False" "owner Spinning = False" "owner Swapped" "owner Critical"
  "owner Releasing"
  by (simp_all add: goto_def upd_cpu_def owner_def)

lemma owners_goto: "owners (goto c l s) = (if owner l then insert c (owners s) else owners s - {c})"
  by (auto simp: owners_def)

lemma owners_cong: "pcs s' = pcs s \<Longrightarrow> owners s' = owners s"
  by (simp add: owners_def)

lemma lock_inv_owner:
  assumes "lock_inv s" and "owner (pcs s c)"
  shows "locked (lk s)" and "owners s = {c}" and "\<And>d. pcs s d = Critical \<Longrightarrow> d = c"
proof -
  have c: "c \<in> owners s" using assms(2) by (simp add: owners_def)
  with assms(1) show "locked (lk s)" and o: "owners s = {c}"
    by (auto simp: lock_inv_def split: if_splits)
  show "d = c" if "pcs s d = Critical" for d
  proof -
    have "d \<in> owners s" using that by (simp add: owners_def)
    with o show ?thesis by simp
  qed
qed

lemma lock_inv_step:
  assumes "lock_inv s" and "lock_step s t"
  shows "lock_inv t"
  using assms(2)
proof (cases rule: lock_step.cases)
  case (enter c s')
  then have s': "s' = push_off c s"
    by (auto simp: acquire_enter_def Let_def split: if_splits)
  have "c \<notin> owners s" using enter(2) by (simp add: owners_def)
  moreover have "owners s' = owners s" by (rule owners_cong) (simp add: s' push_off_def)
  ultimately have "owners t = owners s" by (simp add: enter(1) owners_goto)
  with assms(1) enter(2) show ?thesis
    unfolding lock_inv_def by (auto simp: enter(1) s' push_off_def cpu_push_off_def Let_def)
next
  case (spin c)
  then have "lk t = lk s" "pcs t = pcs s" "cpus t = cpus s"
    by (auto simp: acquire_swap_def)
  with assms(1) owners_cong [of t s] show ?thesis by (simp add: lock_inv_def)
next
  case (swap c s')
  then have f: "\<not> locked (lk s)" and s': "s' = s\<lparr>lk := (lk s)\<lparr>locked := True\<rparr>\<rparr>"
    by (auto simp: acquire_swap_def)
  have "owners s = {}" using assms(1) f by (simp add: lock_inv_def)
  moreover have "owners s' = owners s" by (rule owners_cong) (simp add: s')
  ultimately have "owners t = {c}" by (simp add: swap(1) owners_goto)
  moreover have "pcs s d \<noteq> Critical" for d
    using \<open>owners s = {}\<close> lock_simps(10) by (metis CollectI empty_iff owners_def)
  ultimately show ?thesis
    using assms(1) swap(2) unfolding lock_inv_def by (auto simp: swap(1) s')
next
  case (own c)
  have "owner (pcs s c)" using own(2) by simp
  note o = lock_inv_owner [OF assms(1) this]
  have "owners t = {c}"
    using o(2) own owners_cong [of "acquire_record c s" s] by (simp add: owners_goto acquire_record_def)
  moreover have "pcs s d \<noteq> Critical" for d
    using o(3) [of d] own(2) by auto
  ultimately show ?thesis
    using assms(1) own(2) o(1) unfolding lock_inv_def by (auto simp: own(1) acquire_record_def)
next
  case (unlock c s')
  then have s': "s' = s\<lparr>lk := (lk s)\<lparr>lkcpu := None\<rparr>\<rparr>"
    by (auto simp: release_begin_def split: if_splits)
  have "owner (pcs s c)" using unlock(2) by simp
  note o = lock_inv_owner [OF assms(1) this]
  have "owners t = {c}"
    using o(2) unlock owners_cong [of s' s] by (simp add: owners_goto s')
  moreover have "pcs s d = Critical \<longleftrightarrow> d = c" for d
    using o(3) [of d] unlock(2) by blast
  moreover have "noff (cpus s c) = 1 \<and> \<not> sie (cpus s c)"
    using assms(1) unlock(2) by (auto simp: lock_inv_def)
  ultimately show ?thesis
    using assms(1) o(1) unfolding lock_inv_def by (auto simp: unlock(1) s')
next
  case (leave c s')
  then obtain p where p: "cpu_pop_off (cpus s c) = Ok p" and s': "s' = upd_cpu c (\<lambda>_. p) (s\<lparr>lk := (lk s)\<lparr>locked := False\<rparr>\<rparr>)"
    by (auto simp: release_end_def pop_off_def)
  have "owner (pcs s c)" using leave(2) by simp
  note o = lock_inv_owner [OF assms(1) this]
  have "owners t = {}"
    using o(2) leave owners_cong [of s' s] by (simp add: owners_goto s')
  moreover have "noff (cpus s c) = 1"
    using assms(1) leave(2) by (auto simp: lock_inv_def)
  then have "noff p = 0"
    using p by (auto simp: cpu_pop_off_def Let_def split: if_splits)
  moreover have "pcs s d \<noteq> Critical" for d
    using o(3) [of d] leave(2) by auto
  ultimately show ?thesis
    using assms(1) leave(2) o(1) unfolding lock_inv_def by (auto simp: leave(1) s')
next
  case (intr c b)
  with assms(1) owners_cong [of t s] show ?thesis
    unfolding lock_inv_def by (auto simp: intr(1))
qed

interpretation spin: inv_system lock_init lock_step lock_inv
proof
  show "lock_inv s" if "lock_init s" for s
    using that by (simp add: lock_init_def lock_inv_def owners_def)
  show "lock_inv t" if "lock_inv s" and "lock_step s t" for s t
    using that by (rule lock_inv_step)
qed

section \<open>Properties\<close>

text \<open>C4: spin locks give mutual exclusion. In every interleaving of any number of CPUs, at most one CPU
  is between the successful swap of its \<open>acquire\<close> and the store of its \<open>release\<close>; it runs with interrupts
  off; \<open>holding\<close> is true exactly for the CPU in its critical section; and neither the checks of \<open>acquire\<close>
  and \<open>release\<close> nor those of \<open>pop_off\<close> panic.\<close>

theorem spinlock_mutual_exclusion:
  assumes "reachable lock_init lock_step s"
  shows "(owner (pcs s c) \<and> owner (pcs s d) \<longrightarrow> c = d) \<and>
    (owner (pcs s c) \<longrightarrow> locked (lk s) \<and> \<not> sie (cpus s c)) \<and>
    (holding c s \<longleftrightarrow> pcs s c = Critical) \<and>
    (pcs s c = Outside \<longrightarrow> (\<exists>s'. acquire_enter c s = Ok s')) \<and>
    (pcs s c = Critical \<longrightarrow> (\<exists>s'. release_begin c s = Ok s')) \<and>
    (pcs s c = Releasing \<longrightarrow> (\<exists>s'. release_end c s = Ok s'))"
proof -
  have i: "lock_inv s" by (rule spin.inv_reachable [OF assms])
  have h: "holding d s \<longleftrightarrow> pcs s d = Critical" for d
    using i lock_inv_owner(1) [OF i, of d] by (auto simp: lock_inv_def holding_def)
  have one: "owner (pcs s c) \<and> owner (pcs s d) \<Longrightarrow> c = d"
    using lock_inv_owner(2) [OF i, of c] lock_inv_owner(2) [OF i, of d] by auto
  have "\<exists>s'. acquire_enter c s = Ok s'" if "pcs s c = Outside"
  proof -
    have "holding c (push_off c s) = holding c s" by (simp add: holding_def push_off_def)
    with h that show ?thesis by (simp add: acquire_enter_def Let_def)
  qed
  moreover have "\<exists>s'. release_end c s = Ok s'" if "pcs s c = Releasing"
  proof -
    have "noff (cpus s c) = 1 \<and> \<not> sie (cpus s c)"
      using i that by (auto simp: lock_inv_def)
    then show ?thesis by (simp add: release_end_def pop_off_def cpu_pop_off_def Let_def)
  qed
  moreover have "owner (pcs s c) \<Longrightarrow> \<not> sie (cpus s c)"
  proof -
    assume "owner (pcs s c)"
    then have "pcs s c \<noteq> Outside" by auto
    with i show ?thesis by (simp add: lock_inv_def)
  qed
  ultimately show ?thesis
    using h one lock_inv_owner(1) [OF i, of c] by (auto simp: release_begin_def)
qed

definition sys0 :: system where
  "sys0 = \<lparr>cpus = (\<lambda>_. \<lparr>noff = 0, intena = False, sie = True\<rparr>), lk = \<lparr>locked = False, lkcpu = None\<rparr>, pcs = (\<lambda>_. Outside)\<rparr>"

theorem spinlock_mutual_exclusion_witness:
  "reachable lock_init lock_step (goto 0 Swapped (snd (acquire_swap (goto 0 Spinning (push_off 0 sys0))))) \<and>
   \<not> sie (cpus (goto 0 Swapped (snd (acquire_swap (goto 0 Spinning (push_off 0 sys0))))) 0)"
proof -
  let ?a = "goto 0 Spinning (push_off 0 sys0)"
  have "reachable lock_init lock_step sys0"
    by (rule reach_init) (simp add: lock_init_def sys0_def)
  moreover have "lock_step sys0 ?a"
    by (rule lock_step.enter) (simp_all add: sys0_def acquire_enter_def holding_def push_off_def upd_cpu_def)
  moreover have "lock_step ?a (goto 0 Swapped (snd (acquire_swap ?a)))"
    by (rule lock_step.swap [where c = 0]) (simp_all add: acquire_swap_def sys0_def push_off_def)
  ultimately have r: "reachable lock_init lock_step (goto 0 Swapped (snd (acquire_swap ?a)))"
    by (blast intro: reach_step)
  from spinlock_mutual_exclusion [OF r, of 0 0] r show ?thesis by simp
qed

primrec iter_pop :: "nat \<Rightarrow> cpu \<Rightarrow> cpu res" where
  "iter_pop 0 p = Ok p"
| "iter_pop (Suc n) p = bindr (cpu_pop_off p) (iter_pop n)"

lemma push_many:
  "noff p = 0 \<Longrightarrow> (cpu_push_off ^^ Suc n) p = p\<lparr>noff := int (Suc n), intena := sie p, sie := False\<rparr>"
  by (induction n) (auto simp: cpu_push_off_def Let_def)

lemma pop_many:
  assumes "m < n" and "noff p = int n" and "\<not> sie p"
  shows "iter_pop m p = Ok (p\<lparr>noff := int (n - m)\<rparr>)"
  using assms
proof (induction m arbitrary: n p)
  case (Suc m)
  from Suc.prems have "cpu_pop_off p = Ok (p\<lparr>noff := int (n - 1)\<rparr>)"
    by (auto simp: cpu_pop_off_def Let_def)
  with Suc.IH [of "n - 1" "p\<lparr>noff := int (n - 1)\<rparr>"] Suc.prems show ?case by auto
qed simp

lemma iter_pop_Suc: "iter_pop (Suc n) p = bindr (iter_pop n p) cpu_pop_off"
proof (induction n arbitrary: p)
  case 0
  show ?case by (cases "cpu_pop_off p") simp_all
next
  case (Suc n)
  have "iter_pop (Suc (Suc n)) p = bindr (cpu_pop_off p) (iter_pop (Suc n))"
    by (rule iter_pop.simps(2))
  also have "\<dots> = bindr (cpu_pop_off p) (\<lambda>q. bindr (iter_pop n q) cpu_pop_off)"
    by (cases "cpu_pop_off p") (simp_all only: Suc.IH bindr.simps)
  also have "\<dots> = bindr (iter_pop (Suc n) p) cpu_pop_off"
    by (cases "cpu_pop_off p") simp_all
  finally show ?case .
qed

text \<open>\<open>push_off\<close> and \<open>pop_off\<close> nest: after any number of \<open>push_off\<close>s on a CPU with none outstanding, as
  many \<open>pop_off\<close>s do not panic, keep interrupts off until the last, and restore the interrupt flag and
  the count.\<close>

theorem push_pop_nest:
  assumes "noff p = 0" and "m \<le> n"
  shows "\<exists>q. iter_pop m ((cpu_push_off ^^ n) p) = Ok q \<and> noff q = int (n - m) \<and>
    sie q = (if m = n then sie p else False)"
proof (cases n)
  case 0
  with assms show ?thesis by simp
next
  case (Suc k)
  let ?p = "(cpu_push_off ^^ n) p"
  have p: "?p = p\<lparr>noff := int n, intena := sie p, sie := False\<rparr>"
    using push_many [OF assms(1), of k] Suc by simp
  show ?thesis
  proof (cases "m = n")
    case False
    with assms(2) pop_many [of m n ?p] show ?thesis by (simp add: p)
  next
    case True
    have k: "iter_pop k ?p = Ok (p\<lparr>noff := 1, intena := sie p, sie := False\<rparr>)"
      unfolding p using pop_many [of k n "p\<lparr>noff := int n, intena := sie p, sie := False\<rparr>"] Suc by simp
    have "iter_pop n ?p = bindr (iter_pop k ?p) cpu_pop_off"
      unfolding Suc by (rule iter_pop_Suc)
    with k True show ?thesis by (simp add: cpu_pop_off_def Let_def)
  qed
qed

theorem push_pop_nest_witness:
  "\<exists>q. iter_pop 2 ((cpu_push_off ^^ 2) \<lparr>noff = 0, intena = False, sie = True\<rparr>) = Ok q \<and> sie q"
  using push_pop_nest [of "\<lparr>noff = 0, intena = False, sie = True\<rparr>" 2 2] by auto

end
