(* ===== verification/XvSh.thy ===== *)
theory XvSh
  imports XvPrelude
begin

text \<open>
  The command parser of user/sh.c. Pointers into the command line are positions in the list of its bytes
  before the NUL, \<open>es\<close> being its length; a token is the pair of its first position and the position after its
  last. A \<open>panic\<close> of the shell is the outcome \<open>Panic\<close>. The recursive descent takes a bound on the number of
  nested calls; four times the length of the line, plus eight, is enough.
\<close>

section \<open>Tokens\<close>

definition whitespace :: "uint8 list" where "whitespace = [32, 9, 13, 10, 11]"
definition symbols :: "uint8 list" where "symbols = [60, 124, 62, 38, 59, 40, 41]"

definition char_at :: "uint8 list \<Rightarrow> nat \<Rightarrow> uint8" where
  "char_at buf i = (if i < length buf then buf ! i else 0)"

definition skipws :: "uint8 list \<Rightarrow> nat \<Rightarrow> nat" where
  "skipws buf s = s + length (takeWhile (\<lambda>c. c \<in> set whitespace) (drop s buf))"

definition word_end :: "uint8 list \<Rightarrow> nat \<Rightarrow> nat" where
  "word_end buf s = s + length (takeWhile (\<lambda>c. c \<notin> set whitespace \<and> c \<notin> set symbols) (drop s buf))"

text \<open>The kind of the token, its first position and the position after it, and the new position. The kind of
  a word is 97 and that of the append operator is 43.\<close>

definition gettoken :: "uint8 list \<Rightarrow> nat \<Rightarrow> uint8 \<times> nat \<times> nat \<times> nat" where
  "gettoken buf s =
     (let q = skipws buf s; c = char_at buf q;
          (ret, e) = (if c = 0 then (0, q)
            else if c \<in> {124, 40, 41, 59, 38, 60} then (c, q + 1)
            else if c = 62 then (if char_at buf (q + 1) = 62 then (43, q + 2) else (62, q + 1))
            else (97, word_end buf q))
      in (ret, q, e, skipws buf e))"

definition peek :: "uint8 list \<Rightarrow> nat \<Rightarrow> uint8 list \<Rightarrow> nat \<times> bool" where
  "peek buf s toks = (let q = skipws buf s in (q, char_at buf q \<noteq> 0 \<and> char_at buf q \<in> set toks))"

lemma skipws_bounds: "s \<le> skipws buf s" "s \<le> length buf \<Longrightarrow> skipws buf s \<le> length buf"
proof -
  have "length (takeWhile (\<lambda>c. c \<in> set whitespace) (drop s buf)) \<le> length (drop s buf)"
    by (rule length_takeWhile_le)
  then show "s \<le> length buf \<Longrightarrow> skipws buf s \<le> length buf" by (simp add: skipws_def)
qed (simp add: skipws_def)

lemma word_end_bounds: "s \<le> word_end buf s" "s \<le> length buf \<Longrightarrow> word_end buf s \<le> length buf"
proof -
  have "length (takeWhile (\<lambda>c. c \<notin> set whitespace \<and> c \<notin> set symbols) (drop s buf)) \<le> length (drop s buf)"
    by (rule length_takeWhile_le)
  then show "s \<le> length buf \<Longrightarrow> word_end buf s \<le> length buf" by (simp add: word_end_def)
qed (simp add: word_end_def)

lemma char_at_less: "char_at buf i \<noteq> 0 \<Longrightarrow> i < length buf"
  by (simp add: char_at_def split: if_splits)

lemma skipws_stop: "skipws buf s < length buf \<Longrightarrow> char_at buf (skipws buf s) \<notin> set whitespace"
proof -
  assume a: "skipws buf s < length buf"
  let ?t = "takeWhile (\<lambda>c. c \<in> set whitespace) (drop s buf)"
  have l: "length ?t < length (drop s buf)" using a by (simp add: skipws_def)
  have "drop s buf ! length ?t \<notin> set whitespace"
    using nth_length_takeWhile [OF l] by simp
  with a show ?thesis by (simp add: char_at_def skipws_def)
qed

lemma skipws_idem: "skipws buf (skipws buf s) = skipws buf s"
proof (cases "skipws buf s < length buf")
  case True
  then have d: "drop (skipws buf s) buf = char_at buf (skipws buf s) # drop (Suc (skipws buf s)) buf"
    by (simp add: char_at_def Cons_nth_drop_Suc)
  show ?thesis
    using skipws_stop [OF True] unfolding skipws_def [of buf "skipws buf s"] d by simp
next
  case False
  then show ?thesis by (simp add: skipws_def [of buf "skipws buf s"])
qed

lemma gettoken_bounds:
  assumes "gettoken buf s = (t, q, e, s')"
  shows "s \<le> q" "q \<le> e" "e \<le> s'" "s \<le> length buf \<Longrightarrow> s' \<le> length buf"
    "char_at buf (skipws buf s) \<noteq> 0 \<Longrightarrow> s < s'"
proof -
  note d = assms [unfolded gettoken_def Let_def]
  let ?q = "skipws buf s"
  have q: "q = ?q" using d by (auto split: if_splits prod.splits)
  have s': "s' = skipws buf e" using d by (auto split: if_splits prod.splits)
  have e: "?q \<le> e" "?q \<le> length buf \<Longrightarrow> e \<le> length buf" "char_at buf ?q \<noteq> 0 \<Longrightarrow> ?q < e"
  proof -
    have w: "?q < word_end buf ?q" if "char_at buf ?q \<noteq> 0" "char_at buf ?q \<notin> set symbols"
    proof -
      have l: "?q < length buf" using char_at_less [OF that(1)] .
      have "drop ?q buf = char_at buf ?q # drop (Suc ?q) buf"
        using l by (simp add: char_at_def Cons_nth_drop_Suc)
      with skipws_stop [OF l] that(2) show ?thesis by (simp add: word_end_def)
    qed
    show "?q \<le> e" using d word_end_bounds(1) [of ?q buf] by (auto split: if_splits)
    show "char_at buf ?q \<noteq> 0 \<Longrightarrow> ?q < e"
      using d w by (auto simp: symbols_def split: if_splits)
    show "?q \<le> length buf \<Longrightarrow> e \<le> length buf"
      using d word_end_bounds(2) [of ?q buf] char_at_less [of buf ?q] char_at_less [of buf "?q + 1"]
      by (auto split: if_splits)
  qed
  show "s \<le> q" using q skipws_bounds(1) by simp
  show "q \<le> e" using q e(1) by simp
  show "e \<le> s'" using s' skipws_bounds(1) by simp
  show "s \<le> length buf \<Longrightarrow> s' \<le> length buf" using s' e(2) skipws_bounds(2) by blast
  show "char_at buf ?q \<noteq> 0 \<Longrightarrow> s < s'"
    using e(3) skipws_bounds(1) [of s buf] skipws_bounds(1) [of e buf] s' by linarith
qed

section \<open>Commands\<close>

type_synonym token = "nat \<times> nat"

datatype cmd =
    Exec "token list"
  | Redir cmd token int int
  | Pipe cmd cmd
  | ListC cmd cmd
  | Back cmd

abbreviation (input) O_RDONLY :: int where "O_RDONLY \<equiv> 0"
abbreviation (input) O_WRONLY :: int where "O_WRONLY \<equiv> 1"
abbreviation (input) O_CREATE :: int where "O_CREATE \<equiv> 0x200"
abbreviation (input) O_TRUNC :: int where "O_TRUNC \<equiv> 0x400"

text \<open>The redirections found, in order, each to wrap the command so far.\<close>

function parseredirs :: "uint8 list \<Rightarrow> nat \<Rightarrow> ((token \<times> int \<times> int) list \<times> nat) res" where
  "parseredirs buf s =
     (let (s1, more) = peek buf s [60, 62]
      in if \<not> more then Ok ([], s1)
         else let (tok, _, _, s2) = gettoken buf s1; (t, q, e, s3) = gettoken buf s2
           in if t \<noteq> 97 then Panic ''missing file for redirection''
              else bindr (parseredirs buf s3) (\<lambda>(rs, s4).
                Ok ((if tok = 60 then ((q, e), O_RDONLY, 0)
                     else if tok = 62 then ((q, e), O_WRONLY + O_CREATE + O_TRUNC, 1)
                     else ((q, e), O_WRONLY + O_CREATE, 1)) # rs, s4)))"
  by pat_completeness auto
termination
proof (relation "measure (\<lambda>(buf, s). length buf - s)", goal_cases)
  case (2 buf s x s1 more y tok a q e b s2 z t c q' d e' s3)
  have s1: "s1 = skipws buf s" and c: "char_at buf s1 \<noteq> 0"
    using 2 by (auto simp: peek_def Let_def)
  have i: "skipws buf s1 = s1" using s1 skipws_idem by simp
  have g: "gettoken buf s1 = (tok, q, b, s2)" "gettoken buf s2 = (t, q', e', s3)"
    using 2 by auto
  have "s1 < s2" using gettoken_bounds(5) [OF g(1)] c i by simp
  moreover have "s2 \<le> s3" using gettoken_bounds(1-3) [OF g(2)] by simp
  moreover have "s \<le> s1" using s1 skipws_bounds(1) by simp
  ultimately show ?case using char_at_less [OF c] by auto
qed simp

declare parseredirs.simps [simp del]

definition add_redirs :: "(token \<times> int \<times> int) list \<Rightarrow> cmd \<Rightarrow> cmd" where
  "add_redirs rs c = foldl (\<lambda>c (f, mode, fd). Redir c f mode fd) c rs"

text \<open>The argument loop of \<open>parseexec\<close>, with the arguments and redirections so far.\<close>

abbreviation (input) MAXARGS :: nat where "MAXARGS \<equiv> 10"

function parseargs :: "uint8 list \<Rightarrow> token list \<Rightarrow> (token \<times> int \<times> int) list \<Rightarrow> nat \<Rightarrow> (cmd \<times> nat) res" where
  "parseargs buf args rs s =
     (let (s1, stop) = peek buf s [124, 41, 38, 59]
      in if stop then Ok (add_redirs rs (Exec args), s1)
         else let (tok, q, e, s2) = gettoken buf s1
           in if tok = 0 then Ok (add_redirs rs (Exec args), s2)
              else if tok \<noteq> 97 then Panic ''syntax''
              else if MAXARGS \<le> length args + 1 then Panic ''too many args''
              else bindr (parseredirs buf s2) (\<lambda>(rs', s3). parseargs buf (args @ [(q, e)]) (rs @ rs') s3))"
  by pat_completeness auto
termination
  by (relation "measure (\<lambda>(buf, args, rs, s). MAXARGS - length args)") auto

declare parseargs.simps [simp del]

text \<open>The loop of \<open>parseline\<close> over ampersands.\<close>

function parsebacks :: "uint8 list \<Rightarrow> cmd \<Rightarrow> nat \<Rightarrow> cmd \<times> nat" where
  "parsebacks buf c s =
     (let (s1, more) = peek buf s [38]
      in if \<not> more then (c, s1) else let (_, _, _, s2) = gettoken buf s1 in parsebacks buf (Back c) s2)"
  by pat_completeness auto
termination
proof (relation "measure (\<lambda>(buf, c, s). length buf - s)", goal_cases)
  case (2 buf c s x s1 more y tok a q e b s2)
  have s1: "s1 = skipws buf s" and c: "char_at buf s1 \<noteq> 0"
    using 2 by (auto simp: peek_def Let_def)
  have i: "skipws buf s1 = s1" using s1 skipws_idem by simp
  have g: "gettoken buf s1 = (tok, q, b, s2)"
    using 2 by auto
  have "s1 < s2" using gettoken_bounds(5) [OF g] c i by simp
  moreover have "s \<le> s1" using s1 skipws_bounds(1) by simp
  ultimately show ?case using char_at_less [OF c] by auto
qed simp

declare parsebacks.simps [simp del]

fun parseline :: "nat \<Rightarrow> uint8 list \<Rightarrow> nat \<Rightarrow> (cmd \<times> nat) res"
  and parsepipe :: "nat \<Rightarrow> uint8 list \<Rightarrow> nat \<Rightarrow> (cmd \<times> nat) res"
  and parseexec :: "nat \<Rightarrow> uint8 list \<Rightarrow> nat \<Rightarrow> (cmd \<times> nat) res"
  and parseblock :: "nat \<Rightarrow> uint8 list \<Rightarrow> nat \<Rightarrow> (cmd \<times> nat) res" where
  "parseline 0 buf s = Diverge"
| "parseline (Suc f) buf s =
     bindr (parsepipe f buf s) (\<lambda>(c, s1).
       let (c2, s2) = parsebacks buf c s1; (s3, semi) = peek buf s2 [59]
       in if semi then let (_, _, _, s4) = gettoken buf s3
            in bindr (parseline f buf s4) (\<lambda>(c3, s5). Ok (ListC c2 c3, s5))
          else Ok (c2, s3))"
| "parsepipe 0 buf s = Diverge"
| "parsepipe (Suc f) buf s =
     bindr (parseexec f buf s) (\<lambda>(c, s1).
       let (s2, bar) = peek buf s1 [124]
       in if bar then let (_, _, _, s3) = gettoken buf s2
            in bindr (parsepipe f buf s3) (\<lambda>(c2, s4). Ok (Pipe c c2, s4))
          else Ok (c, s2))"
| "parseexec 0 buf s = Diverge"
| "parseexec (Suc f) buf s =
     (let (s1, paren) = peek buf s [40]
      in if paren then parseblock f buf s1
         else bindr (parseredirs buf s1) (\<lambda>(rs, s2). parseargs buf [] rs s2))"
| "parseblock 0 buf s = Diverge"
| "parseblock (Suc f) buf s =
     (let (s1, paren) = peek buf s [40]
      in if \<not> paren then Panic ''parseblock''
         else let (_, _, _, s2) = gettoken buf s1
           in bindr (parseline f buf s2) (\<lambda>(c, s3).
             let (s4, close) = peek buf s3 [41]
             in if \<not> close then Panic ''syntax - missing )''
                else let (_, _, _, s5) = gettoken buf s4
                  in bindr (parseredirs buf s5) (\<lambda>(rs, s6). Ok (add_redirs rs c, s6))))"

fun nulterminate :: "cmd \<Rightarrow> uint8 list \<Rightarrow> uint8 list" where
  "nulterminate (Exec ts) buf = fold (\<lambda>(q, e) b. b[e := 0]) ts buf"
| "nulterminate (Redir c (q, e) mode fd) buf = (nulterminate c buf)[e := 0]"
| "nulterminate (Pipe l r) buf = nulterminate r (nulterminate l buf)"
| "nulterminate (ListC l r) buf = nulterminate r (nulterminate l buf)"
| "nulterminate (Back c) buf = nulterminate c buf"

definition parsecmd :: "uint8 list \<Rightarrow> (cmd \<times> uint8 list) res" where
  "parsecmd buf =
     bindr (parseline (4 * length buf + 8) buf 0) (\<lambda>(c, s).
       let (s1, _) = peek buf s []
       in if s1 \<noteq> length buf then Panic ''syntax'' else Ok (c, nulterminate c buf))"

section \<open>What the parser returns\<close>

definition tok_ok :: "uint8 list \<Rightarrow> token \<Rightarrow> bool" where
  "tok_ok buf t \<longleftrightarrow> (case t of (q, e) \<Rightarrow> q < e \<and> e \<le> length buf \<and>
     (\<forall>i. q \<le> i \<and> i < e \<longrightarrow> buf ! i \<notin> set whitespace \<and> buf ! i \<notin> set symbols) \<and>
     (e < length buf \<longrightarrow> buf ! e \<in> set whitespace \<or> buf ! e \<in> set symbols))"

fun toks :: "cmd \<Rightarrow> token set" where
  "toks (Exec ts) = set ts"
| "toks (Redir c f mode fd) = insert f (toks c)"
| "toks (Pipe l r) = toks l \<union> toks r"
| "toks (ListC l r) = toks l \<union> toks r"
| "toks (Back c) = toks c"

definition good :: "uint8 list \<Rightarrow> nat \<Rightarrow> (cmd \<times> nat) res \<Rightarrow> bool" where
  "good buf s r \<longleftrightarrow> (case r of Ok (c, s') \<Rightarrow> s \<le> s' \<and> (\<forall>t \<in> toks c. tok_ok buf t)
     | Panic e \<Rightarrow> True | Block \<Rightarrow> False | Diverge \<Rightarrow> False)"

lemma peek_bounds:
  assumes "peek buf s ts = (s1, b)"
  shows "s \<le> s1" and "skipws buf s1 = s1" and "b \<Longrightarrow> char_at buf s1 \<noteq> 0"
  using assms skipws_bounds(1) skipws_idem by (auto simp: peek_def Let_def)

lemma peek_gettoken:
  assumes "peek buf s ts = (s1, b)" and b and "gettoken buf s1 = (t, q, e, s2)"
  shows "s1 < s2" and "s1 < length buf"
  using gettoken_bounds(5) [OF assms(3)] peek_bounds(2,3) [OF assms(1)] assms(2) char_at_less by auto

lemma gettoken_word:
  assumes "gettoken buf s = (97, q, e, s')"
  shows "tok_ok buf (q, e)"
proof -
  let ?q = "skipws buf s"
  have c: "char_at buf ?q \<noteq> 0" "char_at buf ?q \<notin> set symbols" and q: "q = ?q" and e: "e = word_end buf ?q"
    using assms by (auto simp: gettoken_def Let_def symbols_def split: if_splits)
  have l: "?q < length buf" using char_at_less [OF c(1)] .
  let ?P = "\<lambda>c. c \<notin> set whitespace \<and> c \<notin> set symbols"
  let ?t = "takeWhile ?P (drop ?q buf)"
  have "drop ?q buf = char_at buf ?q # drop (Suc ?q) buf"
    using l by (simp add: char_at_def Cons_nth_drop_Suc)
  then have "?t \<noteq> []" using skipws_stop [OF l] c(2) by simp
  then have "?q < e" by (simp add: e word_end_def)
  moreover have "e \<le> length buf" using word_end_bounds(2) [of ?q buf] l e by simp
  moreover have "?P (buf ! i)" if "?q \<le> i" "i < e" for i
  proof -
    have i: "i - ?q < length ?t" using that by (simp add: e word_end_def)
    then have "?t ! (i - ?q) \<in> set ?t" by (rule nth_mem)
    then have "?P (?t ! (i - ?q))" by (rule set_takeWhileD [THEN conjunct2])
    moreover have "?t ! (i - ?q) = buf ! i"
      using i that l by (simp add: takeWhile_nth)
    ultimately show ?thesis by simp
  qed
  moreover have "\<not> ?P (buf ! e)" if "e < length buf"
  proof -
    have "length ?t < length (drop ?q buf)" using that l by (simp add: e word_end_def)
    from nth_length_takeWhile [OF this] have "\<not> ?P (drop ?q buf ! length ?t)" .
    moreover have "drop ?q buf ! length ?t = buf ! e" using l by (simp add: e word_end_def)
    ultimately show ?thesis by simp
  qed
  ultimately show ?thesis by (auto simp: tok_ok_def q)
qed

lemma parseredirs_good:
  "case parseredirs buf s of Ok (rs, s') \<Rightarrow> s \<le> s' \<and> (\<forall>r \<in> set rs. tok_ok buf (fst r))
     | Panic e \<Rightarrow> True | Block \<Rightarrow> False | Diverge \<Rightarrow> False"
proof (induction buf s rule: parseredirs.induct)
  case (1 buf s)
  obtain s1 more where p: "peek buf s [60, 62] = (s1, more)" by (cases "peek buf s [60, 62]")
  show ?case
  proof (cases more)
    case False
    with p peek_bounds(1) [OF p] show ?thesis by (subst parseredirs.simps) simp
  next
    case True
    obtain tok a b s2 where g: "gettoken buf s1 = (tok, a, b, s2)" by (cases "gettoken buf s1")
    obtain t q e s3 where h: "gettoken buf s2 = (t, q, e, s3)" by (cases "gettoken buf s2")
    show ?thesis
    proof (cases "t = 97")
      case False
      with True p g h show ?thesis by (subst parseredirs.simps) simp
    next
      case t: True
      note ih = "1.IH" [of "(s1, more)" s1 more "(tok, a, b, s2)" tok "(a, b, s2)" a "(b, s2)" b s2 "(t, q, e, s3)" t "(q, e, s3)" q "(e, s3)" e s3]
      have "case parseredirs buf s3 of Ok (rs, s') \<Rightarrow> s3 \<le> s' \<and> (\<forall>r \<in> set rs. tok_ok buf (fst r))
          | Panic e \<Rightarrow> True | Block \<Rightarrow> False | Diverge \<Rightarrow> False"
        using ih p True g h t by simp
      moreover have "s \<le> s3"
        using peek_bounds(1) [OF p] gettoken_bounds(1-3) [OF g] gettoken_bounds(1-3) [OF h] by simp
      moreover have "tok_ok buf (q, e)" using gettoken_word h t by simp
      ultimately show ?thesis
        using True p g h t by (subst parseredirs.simps) (auto split: res.splits)
    qed
  qed
qed

lemma toks_add_redirs: "toks (add_redirs rs c) = toks c \<union> fst ` set rs"
  by (induction rs arbitrary: c) (auto simp: add_redirs_def)

lemma parseargs_good:
  "(\<forall>t \<in> set args. tok_ok buf t) \<Longrightarrow> (\<forall>r \<in> set rs. tok_ok buf (fst r)) \<Longrightarrow> good buf s (parseargs buf args rs s)"
proof (induction buf args rs s rule: parseargs.induct)
  case (1 buf args rs s)
  obtain s1 stop where p: "peek buf s [124, 41, 38, 59] = (s1, stop)" by (cases "peek buf s [124, 41, 38, 59]")
  obtain tok q e s2 where g: "gettoken buf s1 = (tok, q, e, s2)" by (cases "gettoken buf s1")
  have le: "s \<le> s1" "s1 \<le> s2"
    using peek_bounds(1) [OF p] gettoken_bounds(1-3) [OF g] by simp_all
  show ?case
  proof (cases "stop \<or> tok = 0 \<or> tok \<noteq> 97 \<or> MAXARGS \<le> length args + 1")
    case True
    with p g le "1.prems" show ?thesis
      by (subst parseargs.simps) (auto simp: good_def toks_add_redirs)
  next
    case False
    then have f: "\<not> stop" "tok = 97" "\<not> MAXARGS \<le> length args + 1" by auto
    have w: "tok_ok buf (q, e)" using gettoken_word g f(2) by simp
    note r = parseredirs_good [of s2 buf]
    have e: "parseargs buf args rs s = bindr (parseredirs buf s2) (\<lambda>(rs', s3). parseargs buf (args @ [(q, e)]) (rs @ rs') s3)"
      using p g f by (subst parseargs.simps) simp
    show ?thesis
    proof (cases "parseredirs buf s2")
      case (Ok x)
      obtain rs' s3 where x: "x = (rs', s3)" by (cases x)
      have "good buf s3 (parseargs buf (args @ [(q, e)]) (rs @ rs') s3)"
        using "1.IH" [of "(s1, stop)" s1 stop "(tok, q, e, s2)" tok "(q, e, s2)" q "(e, s2)" e s2 "(rs', s3)" rs' s3]
          p g f Ok x w "1.prems" r by auto
      moreover have "s \<le> s3" using r Ok x le by simp
      ultimately show ?thesis
        unfolding e Ok x by (auto simp: good_def split: res.splits)
    qed (use r in \<open>simp_all add: e good_def\<close>)
  qed
qed

lemma parsebacks_good:
  "parsebacks buf c s = (c', s') \<Longrightarrow> s \<le> s' \<and> toks c' = toks c"
proof (induction buf c s rule: parsebacks.induct)
  case (1 buf c s)
  obtain s1 more where p: "peek buf s [38] = (s1, more)" by (cases "peek buf s [38]")
  show ?case
  proof (cases more)
    case False
    with "1.prems" p peek_bounds(1) [OF p] show ?thesis by (subst (asm) parsebacks.simps) auto
  next
    case True
    obtain tok a b s2 where g: "gettoken buf s1 = (tok, a, b, s2)" by (cases "gettoken buf s1")
    have "parsebacks buf (Back c) s2 = (c', s')"
      using "1.prems" p g True by (subst (asm) parsebacks.simps) simp
    with "1.IH" [of "(s1, more)" s1 more "(tok, a, b, s2)" tok "(a, b, s2)" a "(b, s2)" b s2] p g True
    have "s2 \<le> s' \<and> toks c' = toks (Back c)" by simp
    with peek_bounds(1) [OF p] gettoken_bounds(1-3) [OF g] show ?thesis by simp
  qed
qed

lemma good_mono: "good buf s' r \<Longrightarrow> s \<le> s' \<Longrightarrow> good buf s r"
  by (auto simp: good_def split: res.splits)

lemma good_bind:
  assumes "good buf s r" and "\<And>c s'. r = Ok (c, s') \<Longrightarrow> s \<le> s' \<Longrightarrow> \<forall>t \<in> toks c. tok_ok buf t \<Longrightarrow> good buf s (g c s')"
  shows "good buf s (bindr r (\<lambda>(c, s'). g c s'))"
  using assms by (cases r) (auto simp: good_def)

lemma parse_good:
  "(4 * (length buf - s) + 4 \<le> f \<longrightarrow> good buf s (parseline f buf s)) \<and>
   (4 * (length buf - s) + 3 \<le> f \<longrightarrow> good buf s (parsepipe f buf s)) \<and>
   (4 * (length buf - s) + 2 \<le> f \<longrightarrow> good buf s (parseexec f buf s)) \<and>
   (4 * (length buf - s) + 1 \<le> f \<longrightarrow> good buf s (parseblock f buf s))"
proof (induction f arbitrary: s)
  case (Suc f)
  have line: "good buf s (parseline (Suc f) buf s)" if b: "4 * (length buf - s) + 4 \<le> Suc f"
    unfolding parseline.simps
  proof (rule good_bind)
    show "good buf s (parsepipe f buf s)" using Suc b by simp
    fix c s1 assume c: "s \<le> s1" "\<forall>t \<in> toks c. tok_ok buf t"
    obtain c2 s2 where k: "parsebacks buf c s1 = (c2, s2)" by (cases "parsebacks buf c s1")
    obtain s3 semi where p: "peek buf s2 [59] = (s3, semi)" by (cases "peek buf s2 [59]")
    obtain t q e s4 where g: "gettoken buf s3 = (t, q, e, s4)" by (cases "gettoken buf s3")
    have le: "s \<le> s3" and tk: "toks c2 = toks c"
      using parsebacks_good [OF k] peek_bounds(1) [OF p] c(1) by simp_all
    show "good buf s (let (c2, s2) = parsebacks buf c s1; (s3, semi) = peek buf s2 [59]
       in if semi then let (_, _, _, s4) = gettoken buf s3
            in bindr (parseline f buf s4) (\<lambda>(c3, s5). Ok (ListC c2 c3, s5))
          else Ok (c2, s3))"
    proof (cases semi)
      case True
      from peek_gettoken [OF p True g] b le have "4 * (length buf - s4) + 4 \<le> f" by linarith
      with Suc have "good buf s4 (parseline f buf s4)" by blast
      with True k p g le c tk peek_gettoken(1) [OF p True g] show ?thesis
        by (cases "parseline f buf s4") (auto simp: good_def)
    next
      case False
      with k p le c tk show ?thesis by (simp add: good_def)
    qed
  qed
  have pipe: "good buf s (parsepipe (Suc f) buf s)" if b: "4 * (length buf - s) + 3 \<le> Suc f"
    unfolding parsepipe.simps
  proof (rule good_bind)
    show "good buf s (parseexec f buf s)" using Suc b by simp
    fix c s1 assume c: "s \<le> s1" "\<forall>t \<in> toks c. tok_ok buf t"
    obtain s2 bar where p: "peek buf s1 [124] = (s2, bar)" by (cases "peek buf s1 [124]")
    obtain t q e s3 where g: "gettoken buf s2 = (t, q, e, s3)" by (cases "gettoken buf s2")
    have le: "s \<le> s2" using peek_bounds(1) [OF p] c(1) by simp
    show "good buf s (let (s2, bar) = peek buf s1 [124]
       in if bar then let (_, _, _, s3) = gettoken buf s2
            in bindr (parsepipe f buf s3) (\<lambda>(c2, s4). Ok (Pipe c c2, s4))
          else Ok (c, s2))"
    proof (cases bar)
      case True
      from peek_gettoken [OF p True g] b le have "4 * (length buf - s3) + 3 \<le> f" by linarith
      with Suc have "good buf s3 (parsepipe f buf s3)" by blast
      with True p g le c peek_gettoken(1) [OF p True g] show ?thesis
        by (cases "parsepipe f buf s3") (auto simp: good_def)
    next
      case False
      with p le c show ?thesis by (simp add: good_def)
    qed
  qed
  obtain s1 paren where p: "peek buf s [40] = (s1, paren)" by (cases "peek buf s [40]")
  note s1 = peek_bounds(1) [OF p]
  have exec: "good buf s (parseexec (Suc f) buf s)" if b: "4 * (length buf - s) + 2 \<le> Suc f"
  proof (cases paren)
    case True
    from b s1 have "4 * (length buf - s1) + 1 \<le> f" by linarith
    with Suc have "good buf s1 (parseblock f buf s1)" by blast
    with True p s1 show ?thesis by (simp add: good_mono)
  next
    case False
    note r = parseredirs_good [of s1 buf]
    show ?thesis
    proof (cases "parseredirs buf s1")
      case (Ok x)
      obtain rs s2 where x: "x = (rs, s2)" by (cases x)
      with r Ok s1 parseargs_good [of "[]" buf rs s2] have "good buf s (parseargs buf [] rs s2)"
        by (auto intro: good_mono)
      with False p Ok x show ?thesis by simp
    qed (use r False p in \<open>simp_all add: good_def\<close>)
  qed
  have block: "good buf s (parseblock (Suc f) buf s)" if b: "4 * (length buf - s) + 1 \<le> Suc f"
  proof (cases paren)
    case False
    with p show ?thesis by (simp add: good_def)
  next
    case True
    obtain t q e s2 where g: "gettoken buf s1 = (t, q, e, s2)" by (cases "gettoken buf s1")
    note pg = peek_gettoken [OF p True g]
    from pg b s1 have "4 * (length buf - s2) + 4 \<le> f" by linarith
    with Suc have l: "good buf s2 (parseline f buf s2)" by blast
    show ?thesis
    proof (cases "parseline f buf s2")
      case (Ok x)
      obtain c s3 where x: "x = (c, s3)" by (cases x)
      obtain s4 close where p4: "peek buf s3 [41] = (s4, close)" by (cases "peek buf s3 [41]")
      obtain t' q' e' s5 where g5: "gettoken buf s4 = (t', q', e', s5)" by (cases "gettoken buf s4")
      have le: "s \<le> s5" "\<forall>t \<in> toks c. tok_ok buf t"
        using l Ok x peek_bounds(1) [OF p4] gettoken_bounds(1-3) [OF g5] pg(1) s1 by (auto simp: good_def)
      note r = parseredirs_good [of s5 buf]
      show ?thesis
        using True p g Ok x p4 g5 le r
        by (cases close; cases "parseredirs buf s5") (fastforce simp: good_def toks_add_redirs)+
    qed (use l True p g in \<open>simp_all add: good_def\<close>)
  qed
  show ?case using line pipe exec block by blast
qed simp

lemma parseline_good: "good buf 0 (parseline (4 * length buf + 8) buf 0)"
  using parse_good [of buf 0 "4 * length buf + 8"] by simp

lemma nulterminate_length [simp]: "length (nulterminate c buf) = length buf"
proof (induction c arbitrary: buf)
  case (Exec ts)
  have "length (fold (\<lambda>(q, e) b. b[e := 0]) ts b) = length b" for b :: "uint8 list"
    by (induction ts arbitrary: b) auto
  then show ?case by simp
next
  case (Redir c f mode fd)
  then show ?case by (cases f) simp
qed simp_all

lemma nth_list_update_eq_if: "xs[e := v] ! i = (if i = e \<and> i < length xs then v else xs ! i)"
  by (cases "e < length xs") (auto simp: list_update_beyond)

lemma nulterminate_nth:
  "nulterminate c buf ! i = (if i < length buf \<and> i \<in> snd ` toks c then 0 else buf ! i)"
proof (induction c arbitrary: buf)
  case (Exec ts)
  have "fold (\<lambda>(q, e) b. b[e := 0]) ts b ! i = (if i < length b \<and> i \<in> snd ` set ts then 0 else b ! i)" for b :: "uint8 list"
    by (induction ts arbitrary: b) (auto simp: nth_list_update_eq_if)
  then show ?case by simp
next
  case (Redir c f mode fd)
  then show ?case by (cases f) (auto simp: nth_list_update_eq_if)
qed auto

section \<open>Properties\<close>

text \<open>C32: the parser terminates on every command line: the bound on nested calls is never reached. It returns
  a command or stops with an error message.\<close>

theorem parsecmd_terminates: "parsecmd buf \<noteq> Diverge \<and> parsecmd buf \<noteq> Block"
  using parseline_good [of buf] by (cases "parseline (4 * length buf + 8) buf 0") (auto simp: parsecmd_def good_def Let_def split: prod.splits)

text \<open>C16: every argument and file name of a parsed command is a non-empty word of the command line without white
  space or operators, and after \<open>nulterminate\<close> the C string at its start is exactly that word: terminating one
  word never damages another.\<close>

theorem parsecmd_words:
  assumes "parsecmd buf = Ok (c, buf')" and "(q, e) \<in> toks c" and "0 \<notin> set buf"
  shows "q < e \<and> e \<le> length buf \<and> length buf' = length buf \<and>
    takeWhile (\<lambda>x. x \<noteq> 0) (drop q buf') = take (e - q) (drop q buf) \<and>
    (\<forall>x \<in> set (take (e - q) (drop q buf)). x \<notin> set whitespace \<and> x \<notin> set symbols)"
proof -
  from assms(1) obtain s where l: "parseline (4 * length buf + 8) buf 0 = Ok (c, s)" and b': "buf' = nulterminate c buf"
    by (cases "parseline (4 * length buf + 8) buf 0")
      (auto simp: parsecmd_def Let_def case_prod_beta split: if_splits)
  have tk: "tok_ok buf t" if "t \<in> toks c" for t
    using parseline_good [of buf] l that by (auto simp: good_def)
  have w: "q < e" "e \<le> length buf" "\<And>i. q \<le> i \<Longrightarrow> i < e \<Longrightarrow> buf ! i \<notin> set whitespace \<and> buf ! i \<notin> set symbols"
    using tk [OF assms(2)] by (auto simp: tok_ok_def)
  have keep: "buf' ! i = buf ! i" if "q \<le> i" "i < e" for i
  proof -
    have "i \<notin> snd ` toks c"
    proof
      assume "i \<in> snd ` toks c"
      then obtain q' where "(q', i) \<in> toks c" by auto
      from tk [OF this] w(2) w(3) [OF that] that show False by (auto simp: tok_ok_def)
    qed
    then show ?thesis by (simp add: b' nulterminate_nth)
  qed
  have d: "drop q buf' = take (e - q) (drop q buf) @ drop e buf'"
  proof (rule nth_equalityI)
    show "length (drop q buf') = length (take (e - q) (drop q buf) @ drop e buf')"
      using w(1,2) by (simp add: b')
    fix i assume "i < length (drop q buf')"
    then show "drop q buf' ! i = (take (e - q) (drop q buf) @ drop e buf') ! i"
      using w(1,2) keep [of "q + i"] by (cases "i < e - q") (auto simp: nth_append b' add.commute)
  qed
  have z: "takeWhile (\<lambda>x. x \<noteq> 0) (drop e buf') = []"
  proof (cases "e < length buf")
    case True
    have "e \<in> snd ` toks c" using assms(2) by force
    with True have "buf' ! e = 0" by (simp add: b' nulterminate_nth)
    then show ?thesis
      using True by (simp add: b' Cons_nth_drop_Suc [symmetric])
  qed (simp add: b')
  have nz: "x \<noteq> 0" if "x \<in> set (take (e - q) (drop q buf))" for x
    using that assms(3) by (metis in_set_dropD in_set_takeD)
  have "x \<notin> set whitespace \<and> x \<notin> set symbols" if "x \<in> set (take (e - q) (drop q buf))" for x
    using that w by (auto simp: in_set_conv_nth)
  moreover have "takeWhile (\<lambda>x. x \<noteq> 0) (drop q buf') = take (e - q) (drop q buf)"
    unfolding d using z nz by (subst takeWhile_append2) auto
  ultimately show ?thesis using w(1,2) b' by simp
qed

lemma parse_example:
  "parsecmd [97, 32, 62, 98] = Ok (Redir (Exec [(0, 1)]) (3, 4) (1 + 512 + 1024) 1, [97, 0, 62, 98])"
  by code_simp

theorem parsecmd_words_witness: "takeWhile (\<lambda>x. x \<noteq> 0) (drop 0 [97, 0, 62, 98 :: uint8]) = take (1 - 0) (drop 0 [97, 32, 62, 98])"
  using parsecmd_words [OF parse_example, of 0 1] by simp

end
