(* ===== verification/XvShRun.thy ===== *)
theory XvShRun
  imports XvSh
begin

text \<open>
  The execution of commands and the main loop of user/sh.c. A program is the tree of its system calls, each with what
  the program does for every result. A failed call of \<open>exec\<close> goes on with the next statement, \<open>exit\<close> ends the tree.
  \<open>fork\<close> goes on with 0 in the child and with a process id, or -1, in the parent. The input of the shell is the
  list of the lines that \<open>gets\<close> returns. One write stands for the bytes \<open>fprintf\<close> writes one by one; the line that
  \<open>parsecmd\<close> prints about left-over input is left out.
\<close>

section \<open>Programs\<close>

datatype uprog =
    UExit int
  | UExec "uint8 list" "uint8 list list" uprog
  | UOpen "uint8 list" int "int \<Rightarrow> uprog"
  | UClose int uprog
  | UDup int uprog
  | UPipe "(int \<times> int) option \<Rightarrow> uprog"
  | UFork "int \<Rightarrow> uprog"
  | UWait uprog
  | UWrite int "uint8 list" uprog
  | UChdir "uint8 list" "int \<Rightarrow> uprog"
  | UDiverge

definition str_bytes :: "string \<Rightarrow> uint8 list" where
  "str_bytes s = map of_char s"

definition sh_panic :: "string \<Rightarrow> uprog" where
  "sh_panic e = UWrite 2 (str_bytes e @ [10]) (UExit 1)"

definition fork1 :: "(int \<Rightarrow> uprog) \<Rightarrow> uprog" where
  "fork1 k = UFork (\<lambda>pid. if pid = -1 then sh_panic ''fork'' else k pid)"

text \<open>\<open>str\<close> is the string a token points to.\<close>

fun runcmd :: "(token \<Rightarrow> uint8 list) \<Rightarrow> cmd \<Rightarrow> uprog" where
  "runcmd str (Exec []) = UExit 1"
| "runcmd str (Exec (t # ts)) =
     UExec (str t) (map str (t # ts)) (UWrite 2 (str_bytes ''exec '' @ str t @ str_bytes '' failed'' @ [10]) (UExit 0))"
| "runcmd str (Redir c f mode fd) =
     UClose fd (UOpen (str f) mode (\<lambda>r.
       if r < 0 then UWrite 2 (str_bytes ''open '' @ str f @ str_bytes '' failed'' @ [10]) (UExit 1) else runcmd str c))"
| "runcmd str (ListC l r) = fork1 (\<lambda>pid. if pid = 0 then runcmd str l else UWait (runcmd str r))"
| "runcmd str (Pipe l r) =
     UPipe (\<lambda>p. case p of
         None \<Rightarrow> sh_panic ''pipe''
       | Some (p0, p1) \<Rightarrow>
           fork1 (\<lambda>pid.
             if pid = 0 then UClose 1 (UDup p1 (UClose p0 (UClose p1 (runcmd str l))))
             else fork1 (\<lambda>pid.
               if pid = 0 then UClose 0 (UDup p0 (UClose p0 (UClose p1 (runcmd str r))))
               else UClose p0 (UClose p1 (UWait (UWait (UExit 0)))))))"
| "runcmd str (Back c) = fork1 (\<lambda>pid. if pid = 0 then runcmd str c else UExit 0)"

definition tok_str :: "uint8 list \<Rightarrow> token \<Rightarrow> uint8 list" where
  "tok_str buf t = takeWhile (\<lambda>c. c \<noteq> 0) (drop (fst t) buf)"

definition run_line :: "uint8 list \<Rightarrow> uprog" where
  "run_line cmd =
     (case parsecmd cmd of
        Ok (c, buf) \<Rightarrow> runcmd (tok_str buf) c
      | Panic e \<Rightarrow> sh_panic e | Block \<Rightarrow> UDiverge | Diverge \<Rightarrow> UDiverge)"

definition sh_line :: "uint8 list \<Rightarrow> uprog \<Rightarrow> uprog" where
  "sh_line line next =
     (let cmd = takeWhile (\<lambda>c. c \<noteq> 0) (dropWhile (\<lambda>c. c = 32 \<or> c = 9) line)
      in if take 1 cmd = [10] then next
         else if take 3 cmd = [99, 100, 32] then
           let dir = drop 3 (butlast cmd)
           in UChdir dir (\<lambda>r. if r < 0 then UWrite 2 (str_bytes ''cannot cd '' @ dir @ [10]) next else next)
         else fork1 (\<lambda>pid. if pid = 0 then run_line cmd else UWait next))"

text \<open>An empty line is the end of the input.\<close>

primrec sh_loop :: "uint8 list list \<Rightarrow> uprog" where
  "sh_loop [] = UWrite 2 [36, 32] (UExit 0)"
| "sh_loop (l # ls) = UWrite 2 [36, 32] (if take 1 l \<in> {[], [0]} then UExit 0 else sh_line l (sh_loop ls))"

text \<open>Each round opens one more descriptor, of which there are sixteen.\<close>

primrec sh_open :: "nat \<Rightarrow> uprog \<Rightarrow> uprog" where
  "sh_open 0 next = UDiverge"
| "sh_open (Suc n) next =
     UOpen (str_bytes ''console'') 2 (\<lambda>fd. if fd < 0 then next else if 3 \<le> fd then UClose fd next else sh_open n next)"

definition sh_main :: "uint8 list list \<Rightarrow> uprog" where
  "sh_main ls = sh_open 17 (sh_loop ls)"

section \<open>Descriptors\<close>

text \<open>What a descriptor of a process refers to; descriptors are given out from the lowest free one on. The forks and pipes a
  process has come through name it, and a pipe has the name of the process at the time of its creation: distinct pipes of
  a command have distinct names.\<close>

datatype event = Child | Parent | Piped

datatype obj = OTty | OFile "uint8 list" int | OPipeR "event list" | OPipeW "event list"

type_synonym fdtable = "nat \<Rightarrow> obj option"

definition lowest :: "fdtable \<Rightarrow> nat option" where
  "lowest T = find (\<lambda>fd. T fd = None) [0..<16]"

text \<open>\<open>execs h T p T' a\<close>: the process \<open>h\<close> with descriptors \<open>T\<close> running \<open>p\<close>, or a process that descends from it,
  calls \<open>exec\<close> with arguments \<open>a\<close> and descriptors \<open>T'\<close>, where any system call may fail.\<close>

inductive execs :: "event list \<Rightarrow> fdtable \<Rightarrow> uprog \<Rightarrow> fdtable \<Rightarrow> uint8 list list \<Rightarrow> bool" where
  ex_exec: "execs h T (UExec f a k) T a"
| ex_exec_fails: "execs h T k T' a \<Longrightarrow> execs h T (UExec f b k) T' a"
| ex_open: "lowest T = Some n \<Longrightarrow> execs h (T(n \<mapsto> OFile f m)) (k (int n)) T' a \<Longrightarrow> execs h T (UOpen f m k) T' a"
| ex_open_fails: "execs h T (k (-1)) T' a \<Longrightarrow> execs h T (UOpen f m k) T' a"
| ex_close: "execs h (T(nat fd := None)) k T' a \<Longrightarrow> execs h T (UClose fd k) T' a"
| ex_dup: "lowest T = Some n \<Longrightarrow> T (nat fd) = Some ob \<Longrightarrow> execs h (T(n \<mapsto> ob)) k T' a \<Longrightarrow> execs h T (UDup fd k) T' a"
| ex_dup_fails: "lowest T = None \<or> T (nat fd) = None \<Longrightarrow> execs h T k T' a \<Longrightarrow> execs h T (UDup fd k) T' a"
| ex_pipe: "lowest T = Some r \<Longrightarrow> lowest (T(r \<mapsto> OPipeR h)) = Some w \<Longrightarrow>
    execs (Piped # h) (T(r \<mapsto> OPipeR h, w \<mapsto> OPipeW h)) (k (Some (int r, int w))) T' a \<Longrightarrow> execs h T (UPipe k) T' a"
| ex_pipe_fails: "execs h T (k None) T' a \<Longrightarrow> execs h T (UPipe k) T' a"
| ex_child: "execs (Child # h) T (k 0) T' a \<Longrightarrow> execs h T (UFork k) T' a"
| ex_parent: "0 < pid \<Longrightarrow> execs (Parent # h) T (k pid) T' a \<Longrightarrow> execs h T (UFork k) T' a"
| ex_fork_fails: "execs h T (k (-1)) T' a \<Longrightarrow> execs h T (UFork k) T' a"
| ex_wait: "execs h T k T' a \<Longrightarrow> execs h T (UWait k) T' a"
| ex_write: "execs h T k T' a \<Longrightarrow> execs h T (UWrite fd bs k) T' a"
| ex_chdir: "execs h T (k r) T' a \<Longrightarrow> execs h T (UChdir d k) T' a"

inductive_simps execs_simps:
  "execs h T (UExit n) T' a" "execs h T (UExec f b k) T' a" "execs h T (UOpen f m k) T' a" "execs h T (UClose fd k) T' a" "execs h T (UDup fd k) T' a"
  "execs h T (UPipe k) T' a" "execs h T (UFork k) T' a" "execs h T (UWait k) T' a" "execs h T (UWrite fd bs k) T' a" "execs h T (UChdir d k) T' a"
  "execs h T UDiverge T' a"

text \<open>What a command means: which programs it runs, with which standard input and output.\<close>

fun wired :: "(token \<Rightarrow> uint8 list) \<Rightarrow> cmd \<Rightarrow> event list \<Rightarrow> fdtable \<Rightarrow> fdtable \<Rightarrow> uint8 list list \<Rightarrow> bool" where
  "wired str (Exec ts) h T T' a \<longleftrightarrow> ts \<noteq> [] \<and> T' = T \<and> a = map str ts"
| "wired str (Redir c f mode fd) h T T' a \<longleftrightarrow> wired str c h (T(nat fd \<mapsto> OFile (str f) mode)) T' a"
| "wired str (Pipe l r) h T T' a \<longleftrightarrow>
     wired str l (Child # Piped # h) (T(1 \<mapsto> OPipeW h)) T' a \<or>
     wired str r (Child # Parent # Piped # h) (T(0 \<mapsto> OPipeR h)) T' a"
| "wired str (ListC l r) h T T' a \<longleftrightarrow> wired str l (Child # h) T T' a \<or> wired str r (Parent # h) T T' a"
| "wired str (Back c) h T T' a \<longleftrightarrow> wired str c (Child # h) T T' a"

fun redirs_std :: "cmd \<Rightarrow> bool" where
  "redirs_std (Exec ts) \<longleftrightarrow> True"
| "redirs_std (Redir c f mode fd) \<longleftrightarrow> fd \<in> {0, 1} \<and> redirs_std c"
| "redirs_std (Pipe l r) \<longleftrightarrow> redirs_std l \<and> redirs_std r"
| "redirs_std (ListC l r) \<longleftrightarrow> redirs_std l \<and> redirs_std r"
| "redirs_std (Back c) \<longleftrightarrow> redirs_std c"

definition std :: "fdtable \<Rightarrow> bool" where
  "std T \<longleftrightarrow> (\<forall>fd. T fd \<noteq> None \<longleftrightarrow> fd < 3)"

lemma std_None: "std T \<Longrightarrow> T fd = None \<longleftrightarrow> 3 \<le> fd"
  unfolding std_def by (metis not_less)

lemma lowest_std:
  assumes "std T"
  shows "lowest T = Some 3" "lowest (T(3 \<mapsto> x)) = Some 4" "lowest (T(0 := None)) = Some 0" "lowest (T(Suc 0 := None)) = Some 1"
    "lowest (T(3 \<mapsto> x, 4 \<mapsto> y, 0 := None)) = Some 0" "lowest (T(3 \<mapsto> x, 4 \<mapsto> y, Suc 0 := None)) = Some 1"
proof -
  note n = std_None [OF assms]
  have t: "T 3 = None" "T 4 = None" "T 0 \<noteq> None" "T 1 \<noteq> None" "T 2 \<noteq> None" by (simp_all add: n)
  have u: "[0..<16::nat] = [0, 1, 2, 3, 4] @ [5..<16]" by (simp add: upt_rec)
  show "lowest T = Some 3" "lowest (T(3 \<mapsto> x)) = Some 4" "lowest (T(0 := None)) = Some 0" "lowest (T(Suc 0 := None)) = Some 1"
    "lowest (T(3 \<mapsto> x, 4 \<mapsto> y, 0 := None)) = Some 0" "lowest (T(3 \<mapsto> x, 4 \<mapsto> y, Suc 0 := None)) = Some 1"
    unfolding lowest_def u using t by auto
qed

lemma std_upd: "std T \<Longrightarrow> fd < 3 \<Longrightarrow> std (T(fd \<mapsto> x))"
  by (simp add: std_def)

lemma pipe_upd:
  assumes "std T"
  shows "T(0 \<mapsto> z, 3 := None, 4 := None) = T(0 \<mapsto> z)" "T(Suc 0 \<mapsto> z, 3 := None, 4 := None) = T(Suc 0 \<mapsto> z)"
  using std_None [OF assms, of 3] std_None [OF assms, of 4] by (auto simp: fun_eq_iff)

abbreviation std_fds :: "(token \<times> int \<times> int) list \<Rightarrow> bool" where
  "std_fds rs \<equiv> list_all (\<lambda>r. snd (snd r) \<in> {0, 1}) rs"

lemma parseredirs_std: "parseredirs buf s = Ok (rs, s') \<Longrightarrow> std_fds rs"
proof (induction buf s arbitrary: rs s' rule: parseredirs.induct)
  case (1 buf s)
  obtain s1 more where p: "peek buf s [60, 62] = (s1, more)" by (cases "peek buf s [60, 62]")
  obtain tok a b s2 where g: "gettoken buf s1 = (tok, a, b, s2)" by (cases "gettoken buf s1")
  obtain t q e s3 where h: "gettoken buf s2 = (t, q, e, s3)" by (cases "gettoken buf s2")
  note ih = "1.IH" [of "(s1, more)" s1 more "(tok, a, b, s2)" tok "(a, b, s2)" a "(b, s2)" b s2 "(t, q, e, s3)" t "(q, e, s3)" q "(e, s3)" e s3]
  note eq = "1.prems" [unfolded parseredirs.simps [of buf s]]
  show ?case
  proof (cases "more \<and> t = 97")
    case True
    with eq p g h obtain r rs' where r: "parseredirs buf s3 = Ok (rs', s')" "rs = r # rs'" "snd (snd r) \<in> {0, 1}"
      by (auto split: if_split_asm)
    from ih [OF p [symmetric] refl _ g [symmetric] refl refl refl h [symmetric] refl refl refl _ r(1)] True r(2,3) show ?thesis
      by auto
  qed (use eq p g h in \<open>auto split: if_split_asm\<close>)
qed

lemma add_redirs_std: "redirs_std c \<Longrightarrow> std_fds rs \<Longrightarrow> redirs_std (add_redirs rs c)"
  unfolding add_redirs_def by (induction rs arbitrary: c) auto

lemma parseargs_std: "parseargs buf args rs s = Ok (c, s') \<Longrightarrow> std_fds rs \<Longrightarrow> redirs_std c"
proof (induction buf args rs s rule: parseargs.induct)
  case (1 buf args rs s)
  obtain s1 stop where p: "peek buf s [124, 41, 38, 59] = (s1, stop)" by (cases "peek buf s [124, 41, 38, 59]")
  obtain tok q e s2 where g: "gettoken buf s1 = (tok, q, e, s2)" by (cases "gettoken buf s1")
  note eq = "1.prems"(1) [unfolded parseargs.simps [of buf args rs s]]
  show ?case
  proof (cases "stop \<or> tok \<noteq> 97 \<or> MAXARGS \<le> length args + 1")
    case True
    with eq p g "1.prems"(2) add_redirs_std [of "Exec args" rs] show ?thesis by (auto split: if_split_asm)
  next
    case False
    with eq p g obtain rs' s3 where r: "parseredirs buf s2 = Ok (rs', s3)" "parseargs buf (args @ [(q, e)]) (rs @ rs') s3 = Ok (c, s')"
      by auto
    have "std_fds (rs @ rs')" using "1.prems"(2) parseredirs_std [OF r(1)] by auto
    with "1.IH" [of "(s1, stop)" s1 stop "(tok, q, e, s2)" tok "(q, e, s2)" q "(e, s2)" e s2 "(rs', s3)" rs' s3] p g False r
    show ?thesis by auto
  qed
qed

lemma parsebacks_std: "parsebacks buf c s = (c', s') \<Longrightarrow> redirs_std c \<Longrightarrow> redirs_std c'"
proof (induction buf c s rule: parsebacks.induct)
  case (1 buf c s)
  obtain s1 more where p: "peek buf s [38] = (s1, more)" by (cases "peek buf s [38]")
  obtain tok a b s2 where g: "gettoken buf s1 = (tok, a, b, s2)" by (cases "gettoken buf s1")
  note eq = "1.prems"(1) [unfolded parsebacks.simps [of buf c s]]
  show ?case
  proof (cases more)
    case True
    with "1.IH" [of "(s1, more)" s1 more "(tok, a, b, s2)" tok "(a, b, s2)" a "(b, s2)" b s2] eq p g "1.prems"(2) show ?thesis by simp
  qed (use eq p "1.prems"(2) in simp)
qed

definition gives_std :: "(cmd \<times> nat) res \<Rightarrow> bool" where
  "gives_std r \<longleftrightarrow> (\<forall>c s. r = Ok (c, s) \<longrightarrow> redirs_std c)"

lemma gives_std_simps [simp]: "gives_std (Panic msg)" "gives_std Diverge" "gives_std (Ok (c, s)) \<longleftrightarrow> redirs_std c"
  by (simp_all add: gives_std_def)

lemma gives_std_bind: "gives_std r \<Longrightarrow> (\<And>c s. redirs_std c \<Longrightarrow> gives_std (k (c, s))) \<Longrightarrow> gives_std (bindr r k)"
  by (cases r) (force simp: gives_std_def [of "Block"])+

lemma parseargs_gives: "std_fds rs \<Longrightarrow> gives_std (parseargs buf args rs s)"
  using parseargs_std by (simp add: gives_std_def)

lemma redirs_bind: "(\<And>rs s. std_fds rs \<Longrightarrow> gives_std (k (rs, s))) \<Longrightarrow> gives_std (bindr (parseredirs buf s0) k)"
  using parseredirs_std [of buf s0] by (cases "parseredirs buf s0") (fastforce simp: gives_std_def)+

lemma parse_std:
  "gives_std (parseline f buf s) \<and> gives_std (parsepipe f buf s) \<and> gives_std (parseexec f buf s) \<and> gives_std (parseblock f buf s)"
proof (induction f arbitrary: s)
  case (Suc f)
  have "gives_std (parseline (Suc f) buf s)"
    by (auto intro!: gives_std_bind simp: Suc parsebacks_std split: prod.split)
  moreover have "gives_std (parsepipe (Suc f) buf s)"
    by (auto intro!: gives_std_bind simp: Suc split: prod.split)
  moreover have "gives_std (parseblock (Suc f) buf s)"
    by (auto intro!: gives_std_bind redirs_bind add_redirs_std simp: Suc split: prod.split)
  moreover have "gives_std (parseexec (Suc f) buf s)"
    by (auto intro!: redirs_bind parseargs_gives simp: Suc split: prod.split)
  ultimately show ?case by blast
qed simp

lemma parsecmd_std:
  assumes "parsecmd line = Ok (c, buf)"
  shows "redirs_std c"
proof -
  from assms obtain s where "parseline (4 * length line + 8) line 0 = Ok (c, s)"
    by (cases "parseline (4 * length line + 8) line 0") (auto simp: parsecmd_def Let_def split: prod.splits if_splits)
  with parse_std [of "4 * length line + 8" line 0] show ?thesis by simp
qed

lemma execs_fork1:
  "execs h T (fork1 (\<lambda>pid. if pid = 0 then p else q)) T' a \<longleftrightarrow> execs (Child # h) T p T' a \<or> execs (Parent # h) T q T' a"
proof
  let ?k = "\<lambda>pid. if pid = -1 then sh_panic ''fork'' else if pid = 0 then p else q"
  assume "execs (Child # h) T p T' a \<or> execs (Parent # h) T q T' a"
  with ex_child [of h T ?k T' a] ex_parent [of 1 h T ?k T' a]
  show "execs h T (fork1 (\<lambda>pid. if pid = 0 then p else q)) T' a" by (auto simp: fork1_def)
qed (auto simp: fork1_def sh_panic_def execs_simps split: if_splits)

lemma runcmd_wired:
  assumes "std T" "redirs_std c"
  shows "execs h T (runcmd str c) T' a \<longleftrightarrow> wired str c h T T' a"
  using assms
proof (induction c arbitrary: h T)
  case (Exec ts)
  then show ?case by (cases ts) (auto simp: execs_simps)
next
  case (Redir c f mode fd)
  then have "fd \<in> {0, 1}" "std T" "std (T(nat fd \<mapsto> OFile (str f) mode))" by (auto simp: std_upd)
  moreover from this Redir have "execs h (T(nat fd \<mapsto> OFile (str f) mode)) (runcmd str c) T' a \<longleftrightarrow>
    wired str c h (T(nat fd \<mapsto> OFile (str f) mode)) T' a" by simp
  ultimately show ?case by (auto simp: execs_simps lowest_std)
next
  case (Pipe l r)
  have "execs h T (runcmd str (Pipe l r)) T' a \<longleftrightarrow>
    execs (Child # Piped # h) (T(1 \<mapsto> OPipeW h)) (runcmd str l) T' a \<or>
    execs (Child # Parent # Piped # h) (T(0 \<mapsto> OPipeR h)) (runcmd str r) T' a"
    using Pipe.prems(1) by (simp add: execs_simps execs_fork1 lowest_std pipe_upd sh_panic_def)
  moreover have "std (T(1 \<mapsto> OPipeW h))" "std (T(0 \<mapsto> OPipeR h))" using Pipe.prems(1) by (simp_all add: std_upd)
  with Pipe.IH Pipe.prems(2) have "execs (Child # Piped # h) (T(1 \<mapsto> OPipeW h)) (runcmd str l) T' a \<longleftrightarrow> wired str l (Child # Piped # h) (T(1 \<mapsto> OPipeW h)) T' a"
    "execs (Child # Parent # Piped # h) (T(0 \<mapsto> OPipeR h)) (runcmd str r) T' a \<longleftrightarrow> wired str r (Child # Parent # Piped # h) (T(0 \<mapsto> OPipeR h)) T' a"
    by (auto simp del: One_nat_def)
  ultimately show ?case by (simp only: wired.simps)
next
  case (ListC l r)
  then show ?case by (simp add: execs_fork1 execs_simps)
next
  case (Back c)
  then show ?case by (simp add: execs_fork1 execs_simps)
qed

section \<open>Properties\<close>


definition tty :: fdtable where
  "tty fd = (if fd < 3 then Some OTty else None)"

lemma tty_std: "std tty"
  by (simp add: std_def tty_def)

lemma pipe_parses: "parsecmd [97, 124, 98, 62, 99] = Ok (Pipe (Exec [(0, 1)]) (Redir (Exec [(2, 3)]) (4, 5) (1 + 512 + 1024) 1), [97, 0, 98, 0, 99])"
  by code_simp


end
