(* ===== verification/XvGrep.thy ===== *)
theory XvGrep
  imports XvPrelude
begin

text \<open>
  The matcher and the line loop of user/grep.c. Patterns and texts are the lists of their bytes before the NUL;
  \<open>read\<close> is a parameter that chooses how many of the bytes left it delivers, at most as many as fit the buffer.
\<close>

section \<open>The matcher\<close>

abbreviation (input) STAR :: uint8 where "STAR \<equiv> 42"
abbreviation (input) DOT :: uint8 where "DOT \<equiv> 46"
abbreviation (input) DOLLAR :: uint8 where "DOLLAR \<equiv> 36"
abbreviation (input) CARET :: uint8 where "CARET \<equiv> 94"
abbreviation (input) NL :: uint8 where "NL \<equiv> 10"

function (sequential) matchhere :: "uint8 list \<Rightarrow> uint8 list \<Rightarrow> bool"
  and matchstar :: "uint8 \<Rightarrow> uint8 list \<Rightarrow> uint8 list \<Rightarrow> bool" where
  "matchhere [] tx = True"
| "matchhere (c # re) tx =
     (if re \<noteq> [] \<and> hd re = STAR then matchstar c (tl re) tx
      else if c = DOLLAR \<and> re = [] then tx = []
      else if tx \<noteq> [] \<and> (c = DOT \<or> c = hd tx) then matchhere re (tl tx) else False)"
| "matchstar c re tx =
     (if matchhere re tx then True
      else if tx \<noteq> [] \<and> (hd tx = c \<or> c = DOT) then matchstar c re (tl tx) else False)"
  by pat_completeness auto
termination
  by (relation "inv_image (less_than <*lex*> less_than) (\<lambda>x. case x of
      Inl (re, tx) \<Rightarrow> (2 * length re, length tx) | Inr (c, re, tx) \<Rightarrow> (2 * length re + 1, length tx))")
    (auto simp: neq_Nil_conv)

declare matchhere.simps [simp del] matchstar.simps [simp del]

fun match_loop :: "uint8 list \<Rightarrow> uint8 list \<Rightarrow> bool" where
  "match_loop re [] = matchhere re []"
| "match_loop re (x # tx) = (matchhere re (x # tx) \<or> match_loop re tx)"

definition match :: "uint8 list \<Rightarrow> uint8 list \<Rightarrow> bool" where
  "match re tx = (if re \<noteq> [] \<and> hd re = CARET then matchhere (tl re) tx else match_loop re tx)"

text \<open>What a pattern means: the texts it matches from their first byte on.\<close>

definition fits :: "uint8 \<Rightarrow> uint8 \<Rightarrow> bool" where
  "fits c x \<longleftrightarrow> c = DOT \<or> c = x"

inductive accepts :: "uint8 list \<Rightarrow> uint8 list \<Rightarrow> bool" where
  acc_empty: "accepts [] tx"
| acc_star: "\<forall>x \<in> set xs. fits c x \<Longrightarrow> accepts re tx \<Longrightarrow> accepts (c # STAR # re) (xs @ tx)"
| acc_end: "accepts [DOLLAR] []"
| acc_one: "fits c x \<Longrightarrow> \<not> (re \<noteq> [] \<and> hd re = STAR) \<Longrightarrow> \<not> (c = DOLLAR \<and> re = []) \<Longrightarrow> accepts re tx \<Longrightarrow>
    accepts (c # re) (x # tx)"

inductive_cases accepts_Cons: "accepts (c # re) tx"

lemma matchstar_iff:
  "matchstar c re tx \<longleftrightarrow> (\<exists>xs ys. tx = xs @ ys \<and> (\<forall>x \<in> set xs. fits c x) \<and> matchhere re ys)"
proof (induction tx)
  case Nil
  show ?case by (subst matchstar.simps) auto
next
  case (Cons a tx)
  have "matchstar c re (a # tx) \<longleftrightarrow> matchhere re (a # tx) \<or> fits c a \<and> matchstar c re tx"
    by (subst matchstar.simps) (auto simp: fits_def)
  also have "\<dots> \<longleftrightarrow> (\<exists>xs ys. a # tx = xs @ ys \<and> (\<forall>x \<in> set xs. fits c x) \<and> matchhere re ys)"
  proof
    assume "matchhere re (a # tx) \<or> fits c a \<and> matchstar c re tx"
    then show "\<exists>xs ys. a # tx = xs @ ys \<and> (\<forall>x \<in> set xs. fits c x) \<and> matchhere re ys"
    proof
      assume "matchhere re (a # tx)"
      then show ?thesis by (intro exI [of _ "[]"] exI [of _ "a # tx"]) simp
    next
      assume "fits c a \<and> matchstar c re tx"
      with Cons.IH obtain xs ys where "fits c a" "tx = xs @ ys" "\<forall>x \<in> set xs. fits c x" "matchhere re ys" by blast
      then show ?thesis by (intro exI [of _ "a # xs"] exI [of _ ys]) simp
    qed
  next
    assume "\<exists>xs ys. a # tx = xs @ ys \<and> (\<forall>x \<in> set xs. fits c x) \<and> matchhere re ys"
    then obtain xs ys where x: "a # tx = xs @ ys" "\<forall>x \<in> set xs. fits c x" "matchhere re ys" by blast
    show "matchhere re (a # tx) \<or> fits c a \<and> matchstar c re tx"
    proof (cases xs)
      case Nil
      with x show ?thesis by simp
    next
      case (Cons b zs)
      with x have "fits c a" "tx = zs @ ys" "\<forall>x \<in> set zs. fits c x" by auto
      with x(3) Cons.IH show ?thesis by blast
    qed
  qed
  finally show ?case .
qed

lemma matchhere_iff: "matchhere re tx \<longleftrightarrow> accepts re tx"
proof (induction re arbitrary: tx rule: length_induct)
  case (1 re)
  show ?case
  proof (cases re)
    case Nil
    then show ?thesis by (simp add: matchhere.simps acc_empty)
  next
    case re: (Cons c r)
    consider (star) r' where "r = STAR # r'" | (dollar) "c = DOLLAR" "r = []"
      | (one) "\<not> (r \<noteq> [] \<and> hd r = STAR)" "\<not> (c = DOLLAR \<and> r = [])"
      by (cases r) auto
    then show ?thesis
    proof cases
      case (star r')
      have ih: "matchhere r' ys = accepts r' ys" for ys
        using 1 re star by simp
      have "matchhere re tx \<longleftrightarrow> matchstar c r' tx"
        using re star by (simp add: matchhere.simps)
      also have "\<dots> \<longleftrightarrow> accepts re tx"
        unfolding matchstar_iff ih re star by (auto intro: acc_star elim!: accepts_Cons)
      finally show ?thesis .
    next
      case dollar
      then show ?thesis
        using re by (auto simp: matchhere.simps intro: acc_end elim!: accepts_Cons)
    next
      case one
      have ih: "matchhere r t = accepts r t" for t
        using 1 re by simp
      show ?thesis
      proof (cases tx)
        case Nil
        with one re show ?thesis by (auto simp: matchhere.simps elim!: accepts_Cons)
      next
        case (Cons x t)
        have "matchhere re tx \<longleftrightarrow> fits c x \<and> accepts r t"
          using one re Cons ih by (auto simp: matchhere.simps fits_def)
        also have "\<dots> \<longleftrightarrow> accepts re tx"
          unfolding re Cons using one by (auto intro: acc_one elim!: accepts_Cons)
        finally show ?thesis .
      qed
    qed
  qed
qed

lemma match_loop_iff: "match_loop re tx \<longleftrightarrow> (\<exists>pre suf. tx = pre @ suf \<and> accepts re suf)"
proof (induction tx)
  case (Cons a tx)
  have "(\<exists>pre suf. a # tx = pre @ suf \<and> accepts re suf) \<longleftrightarrow>
      accepts re (a # tx) \<or> (\<exists>pre suf. tx = pre @ suf \<and> accepts re suf)"
    by (metis append_Cons append_Nil list.sel(3) neq_Nil_conv tl_append2)
  with Cons show ?case by (simp add: matchhere_iff)
qed (simp add: matchhere_iff)

section \<open>The line loop\<close>

text \<open>The inner loop: the complete lines of the buffer that match, each with its newline, and what is left.\<close>

function grep_lines :: "uint8 list \<Rightarrow> uint8 list \<Rightarrow> uint8 list list \<times> uint8 list" where
  "grep_lines pattern p =
     (if NL \<in> set p then
        let line = takeWhile (\<lambda>c. c \<noteq> NL) p; rest = tl (dropWhile (\<lambda>c. c \<noteq> NL) p);
            (outs, left) = grep_lines pattern rest
        in (if match pattern line then (line @ [NL]) # outs else outs, left)
      else ([], p))"
  by pat_completeness auto
termination
proof (relation "measure (\<lambda>(pattern, p). length p)", goal_cases)
  case (2 pattern p line rest)
  then have "dropWhile (\<lambda>c. c \<noteq> NL) p \<noteq> []" by (simp add: dropWhile_eq_Nil_conv)
  moreover have "length (dropWhile (\<lambda>c. c \<noteq> NL) p) \<le> length p" by (rule length_dropWhile_le)
  ultimately show ?case using 2 by (cases "dropWhile (\<lambda>c. c \<noteq> NL) p") auto
qed simp

declare grep_lines.simps [simp del]

text \<open>\<open>rd k\<close> is the number of bytes the \<open>k\<close>-th \<open>read\<close> has available; the loop ends when it delivers none.\<close>

function grep_loop :: "uint8 list \<Rightarrow> (nat \<Rightarrow> nat) \<Rightarrow> nat \<Rightarrow> uint8 list \<Rightarrow> uint8 list \<Rightarrow> uint8 list list" where
  "grep_loop pattern rd k buf input =
     (let n = min (1023 - length buf) (min (rd k) (length input))
      in if 0 < n then
           let (outs, left) = grep_lines pattern (buf @ take n input)
           in outs @ grep_loop pattern rd (Suc k) left (drop n input)
         else [])"
  by pat_completeness auto
termination
  by (relation "measure (\<lambda>(pattern, rd, k, buf, input). length input)") auto

declare grep_loop.simps [simp del]

definition grep :: "uint8 list \<Rightarrow> (nat \<Rightarrow> nat) \<Rightarrow> uint8 list \<Rightarrow> uint8 list list" where
  "grep pattern rd input = grep_loop pattern rd 0 [] input"

lemma grep_lines_append:
  "grep_lines pattern p = (outs, left) \<Longrightarrow>
   grep_lines pattern (p @ q) = (outs @ fst (grep_lines pattern (left @ q)), snd (grep_lines pattern (left @ q)))"
proof (induction pattern p arbitrary: outs left rule: grep_lines.induct)
  case (1 pattern p)
  show ?case
  proof (cases "NL \<in> set p")
    case False
    with "1.prems" show ?thesis by (subst (asm) grep_lines.simps) simp
  next
    case True
    let ?line = "takeWhile (\<lambda>c. c \<noteq> NL) p" and ?rest = "tl (dropWhile (\<lambda>c. c \<noteq> NL) p)"
    obtain o' l' where r: "grep_lines pattern ?rest = (o', l')" by (cases "grep_lines pattern ?rest")
    have "grep_lines pattern p = (if match pattern ?line then (?line @ [NL]) # o' else o', l')"
      unfolding grep_lines.simps [of pattern p] Let_def r using True by simp
    with "1.prems" have e: "outs = (if match pattern ?line then (?line @ [NL]) # o' else o')" "left = l'"
      by simp_all
    have ne: "dropWhile (\<lambda>c. c \<noteq> NL) p \<noteq> []" using True by (simp add: dropWhile_eq_Nil_conv)
    have t: "takeWhile (\<lambda>c. c \<noteq> NL) (p @ q) = ?line" "tl (dropWhile (\<lambda>c. c \<noteq> NL) (p @ q)) = ?rest @ q"
      using True ne takeWhile_append1 [of NL p "\<lambda>c. c \<noteq> NL" q] dropWhile_append1 [of NL p "\<lambda>c. c \<noteq> NL" q]
      by auto
    have "NL \<in> set (p @ q)" using True by simp
    then have "grep_lines pattern (p @ q) = (let (outs, left) = grep_lines pattern (?rest @ q)
        in (if match pattern ?line then (?line @ [NL]) # outs else outs, left))"
      unfolding grep_lines.simps [of pattern "p @ q"] Let_def t by simp
    with "1.IH" [OF True refl refl r] e show ?thesis by simp
  qed
qed

lemma grep_lines_left: "grep_lines pattern p = (outs, left) \<Longrightarrow> NL \<notin> set left \<and> (\<exists>pre. p = pre @ left)"
proof (induction pattern p arbitrary: outs left rule: grep_lines.induct)
  case (1 pattern p)
  show ?case
  proof (cases "NL \<in> set p")
    case False
    with "1.prems" show ?thesis by (subst (asm) grep_lines.simps) auto
  next
    case True
    let ?d = "dropWhile (\<lambda>c. c \<noteq> NL) p"
    obtain o' l' where r: "grep_lines pattern (tl ?d) = (o', l')" by (cases "grep_lines pattern (tl ?d)")
    have "snd (grep_lines pattern p) = l'"
      unfolding grep_lines.simps [of pattern p] Let_def r using True by simp
    with "1.prems" have "left = l'" by simp
    with "1.IH" [OF True refl refl r] have l: "NL \<notin> set left" "\<exists>pre. tl ?d = pre @ left" by auto
    have "?d \<noteq> []" using True by (simp add: dropWhile_eq_Nil_conv)
    then have "p = (takeWhile (\<lambda>c. c \<noteq> NL) p @ [hd ?d]) @ tl ?d" by simp
    with l show ?thesis by (metis append.assoc)
  qed
qed

section \<open>Properties\<close>

text \<open>C33: \<open>match\<close> implements the meaning of patterns: with a leading caret the tx must match from its first
  byte, otherwise from some position on, the end included; a star stands for any number of fitting bytes, a
  dot for any byte, and a final dollar for the end of the tx.\<close>

theorem match_correct:
  "match re tx \<longleftrightarrow>
     (if re \<noteq> [] \<and> hd re = CARET then accepts (tl re) tx
      else \<exists>pre suf. tx = pre @ suf \<and> accepts re suf)"
  by (simp add: match_def matchhere_iff match_loop_iff)



end
