(* ===== verification/XvUmalloc.thy ===== *)
theory XvUmalloc
  imports XvPrelude
begin

text \<open>
  The user-level allocator user/umalloc.c. A header is at an address of the user space, its two fields are maps from
  addresses. Addresses are naturals: with every address below \<open>2 ^ 38\<close> and every size below \<open>2 ^ 32\<close> no sum of the
  code reaches \<open>2 ^ 64\<close>. A \<open>uint\<close> size is reduced modulo \<open>2 ^ 32\<close>, and the argument of \<open>sbrk\<close> is converted to an \<open>int\<close>.
  The null pointer is 0. A search that does not end is \<open>None\<close>.
\<close>

section \<open>Definitions\<close>

record uheap =
  hptr :: "nat \<Rightarrow> nat"
  hsize :: "nat \<Rightarrow> nat"
  freep :: nat
  base :: nat
  brk :: nat

abbreviation (input) u32 :: "nat \<Rightarrow> nat" where "u32 n \<equiv> n mod 2 ^ 32"

text \<open>\<open>sbrk\<close>, the effect of \<open>sys_sbrk\<close> on the size of the process: it moves the break and returns the old one.\<close>

definition usbrk :: "int \<Rightarrow> uheap \<Rightarrow> nat option \<times> uheap" where
  "usbrk n s =
     (if n < 0 then if brk s < nat (- n) then (None, s) else (Some (brk s), s\<lparr>brk := brk s - nat (- n)\<rparr>)
      else (Some (brk s), s\<lparr>brk := brk s + nat n\<rparr>))"

definition free_here :: "nat \<Rightarrow> nat \<Rightarrow> uheap \<Rightarrow> bool" where
  "free_here bp p s \<longleftrightarrow> (p < bp \<and> bp < hptr s p) \<or> (hptr s p \<le> p \<and> (p < bp \<or> bp < hptr s p))"

partial_function (option) free_find :: "nat \<Rightarrow> nat \<Rightarrow> uheap \<Rightarrow> nat option" where
  "free_find bp p s = (if free_here bp p s then Some p else free_find bp (hptr s p) s)"

definition free_upper :: "nat \<Rightarrow> nat \<Rightarrow> uheap \<Rightarrow> uheap" where
  "free_upper bp p s =
     (let nx = hptr s p
      in if bp + 16 * hsize s bp = nx
         then s\<lparr>hsize := (hsize s)(bp := u32 (hsize s bp + hsize s nx)), hptr := (hptr s)(bp := hptr s nx)\<rparr>
         else s\<lparr>hptr := (hptr s)(bp := nx)\<rparr>)"

definition free_lower :: "nat \<Rightarrow> nat \<Rightarrow> uheap \<Rightarrow> uheap" where
  "free_lower bp p s =
     (if p + 16 * hsize s p = bp
      then s\<lparr>hsize := (hsize s)(p := u32 (hsize s p + hsize s bp)), hptr := (hptr s)(p := hptr s bp)\<rparr>
      else s\<lparr>hptr := (hptr s)(p := bp)\<rparr>)"

definition ufree :: "nat \<Rightarrow> uheap \<Rightarrow> uheap option" where
  "ufree ap s =
     (let bp = ap - 16
      in case free_find bp (freep s) s of
           None \<Rightarrow> None
         | Some p \<Rightarrow> Some ((free_lower bp p (free_upper bp p s))\<lparr>freep := p\<rparr>))"

definition morecore :: "nat \<Rightarrow> uheap \<Rightarrow> (nat \<times> uheap) option" where
  "morecore nu s =
     (let nu = (if nu < 4096 then 4096 else nu)
      in case usbrk (sint (of_nat (nu * 16) :: uint32)) s of
           (None, s1) \<Rightarrow> Some (0, s1)
         | (Some p, s1) \<Rightarrow>
             case ufree (p + 16) (s1\<lparr>hsize := (hsize s1)(p := nu)\<rparr>) of
               None \<Rightarrow> None
             | Some s2 \<Rightarrow> Some (freep s2, s2))"

definition malloc_take :: "nat \<Rightarrow> nat \<Rightarrow> nat \<Rightarrow> uheap \<Rightarrow> nat \<times> uheap" where
  "malloc_take nunits prevp p s =
     (if hsize s p = nunits then (p + 16, s\<lparr>hptr := (hptr s)(prevp := hptr s p), freep := prevp\<rparr>)
      else
        let s1 = s\<lparr>hsize := (hsize s)(p := hsize s p - nunits)\<rparr>;
            q = p + 16 * hsize s1 p
        in (q + 16, s1\<lparr>hsize := (hsize s1)(q := nunits), freep := prevp\<rparr>))"

partial_function (option) malloc_loop :: "nat \<Rightarrow> nat \<Rightarrow> nat \<Rightarrow> uheap \<Rightarrow> (nat \<times> uheap) option" where
  "malloc_loop nunits prevp p s =
     (if nunits \<le> hsize s p then Some (malloc_take nunits prevp p s)
      else if p = freep s then
        case morecore nunits s of
          None \<Rightarrow> None
        | Some (q, s1) \<Rightarrow> if q = 0 then Some (0, s1) else malloc_loop nunits q (hptr s1 q) s1
      else malloc_loop nunits p (hptr s p) s)"

definition malloc_init :: "uheap \<Rightarrow> uheap" where
  "malloc_init s =
     (if freep s = 0 then s\<lparr>freep := base s, hptr := (hptr s)(base s := base s), hsize := (hsize s)(base s := 0)\<rparr> else s)"

definition malloc :: "nat \<Rightarrow> uheap \<Rightarrow> (nat \<times> uheap) option" where
  "malloc nbytes s =
     (let nunits = u32 ((nbytes + 16 - 1) div 16 + 1);
          s1 = malloc_init s
      in malloc_loop nunits (freep s1) (hptr s1 (freep s1)) s1)"

section \<open>The free list\<close>

text \<open>\<open>heap_inv A L s\<close>: \<open>L\<close> lists the free blocks from low to high addresses, linked in a circle that starts with the
  empty block \<open>base\<close>; the blocks \<open>A\<close> are allocated. No two blocks overlap, and all end before the break.\<close>

definition linked :: "(nat \<Rightarrow> nat) \<Rightarrow> nat list \<Rightarrow> bool" where
  "linked h L = successively (\<lambda>x y. h x = y) L"

definition cells :: "nat \<Rightarrow> nat \<Rightarrow> nat set" where
  "cells b n = {b..<b + 16 * n}"

definition heap_inv :: "nat set \<Rightarrow> nat list \<Rightarrow> uheap \<Rightarrow> bool" where
  "heap_inv A L s \<longleftrightarrow>
     0 < base s \<and> L \<noteq> [] \<and> hd L = base s \<and> freep s \<in> set L \<and> hsize s (base s) = 0 \<and>
     linked (hptr s) (L @ [base s]) \<and> sorted_wrt (\<lambda>a b. a < b \<and> a + 16 * hsize s a \<le> b) L \<and>
     (\<forall>b \<in> A \<union> set (tl L). base s < b \<and> 0 < hsize s b \<and> b + 16 * hsize s b \<le> brk s) \<and>
     (\<forall>a \<in> A. \<forall>b \<in> A \<union> set L. a \<noteq> b \<longrightarrow> cells a (hsize s a) \<inter> cells b (hsize s b) = {}) \<and>
     A \<inter> set L = {} \<and> base s < brk s \<and> finite A \<and> brk s \<le> 2 ^ 36"

lemma linked_append: "linked h (xs @ x # ys) \<longleftrightarrow> linked h (xs @ [x]) \<and> linked h (x # ys)"
  by (auto simp: linked_def successively_append_iff successively_Cons)

lemma free_find_skip:
  "linked (hptr s) (zs @ [p]) \<Longrightarrow> \<forall>z \<in> set zs. \<not> free_here bp z s \<Longrightarrow> free_find bp (hd (zs @ [p])) s = free_find bp p s"
proof (induction zs)
  case (Cons z zs)
  have "hptr s z = hd (zs @ [p])" "linked (hptr s) (zs @ [p])" using Cons.prems(1) by (auto simp: linked_def successively_Cons)
  with Cons show ?case by (subst free_find.simps) simp
qed simp

lemma linked_next: "linked h (us @ x # y # vs) \<Longrightarrow> h x = y"
  by (auto simp: linked_def successively_append_iff successively_Cons)

lemma linked_hd: "linked h (us @ x # vs @ z # ws) \<Longrightarrow> h x = hd (vs @ [z])"
  by (cases vs) (auto dest: linked_next)

lemma linked_sub: "linked h (us @ vs @ ws) \<Longrightarrow> linked h vs"
  by (auto simp: linked_def successively_append_iff)

lemma sorted_split: "sorted_wrt (<) L \<Longrightarrow> L = filter (\<lambda>x. x < k) L @ filter (\<lambda>x. \<not> x < k) L" for k :: nat
proof (induction L)
  case (Cons a L)
  show ?case
  proof (cases "a < k")
    case False
    then have e: "filter (\<lambda>x. x < k) L = []" using Cons.prems by (auto simp: filter_empty_conv)
    with Cons show ?thesis using False by simp
  qed (use Cons in simp)
qed simp

lemma heap_invD:
  assumes "heap_inv A L s"
  shows "0 < base s" "L \<noteq> []" "hd L = base s" "freep s \<in> set L" "hsize s (base s) = 0" "linked (hptr s) (L @ [base s])"
    "sorted_wrt (\<lambda>a b. a < b \<and> a + 16 * hsize s a \<le> b) L" "sorted_wrt (<) L" "distinct L" "A \<inter> set L = {}"
    "\<And>b. b \<in> A \<union> set (tl L) \<Longrightarrow> base s < b \<and> 0 < hsize s b \<and> b + 16 * hsize s b \<le> brk s"
    "\<And>a b. a \<in> A \<Longrightarrow> b \<in> A \<union> set L \<Longrightarrow> a \<noteq> b \<Longrightarrow> cells a (hsize s a) \<inter> cells b (hsize s b) = {}" "brk s \<le> 2 ^ 36" "base s < brk s"
proof -
  show so: "sorted_wrt (\<lambda>a b. a < b \<and> a + 16 * hsize s a \<le> b) L" using assms by (simp add: heap_inv_def)
  then show lt: "sorted_wrt (<) L" by (rule sorted_wrt_mono_rel [rotated]) simp
  then show "distinct L" by (simp add: strict_sorted_iff)
qed (use assms in \<open>auto simp: heap_inv_def\<close>)

lemma free_find_ok:
  assumes inv: "heap_inv A L s" and bp: "base s < bp" "bp \<notin> set L"
  shows "\<exists>xs p ys. L = xs @ p # ys \<and> (\<forall>x \<in> set (xs @ [p]). x < bp) \<and> (\<forall>y \<in> set ys. bp < y) \<and> free_find bp (freep s) s = Some p"
proof -
  note i = heap_invD [OF inv]
  let ?W = "filter (\<lambda>x. x < bp) L" and ?ys = "filter (\<lambda>x. \<not> x < bp) L"
  have "?W \<noteq> []" using i(2,3) bp(1) by (cases L) auto
  then obtain xs p where W: "?W = xs @ [p]" by (metis rev_exhaust)
  have L: "L = xs @ p # ?ys" using sorted_split [OF i(8), of bp] W by simp
  have lo: "x < bp" if "x \<in> set (xs @ [p])" for x using that unfolding W [symmetric] by simp
  have hi: "bp < y" if "y \<in> set ?ys" for y using that bp(2) by (auto simp: not_less le_less)
  have lk: "linked (hptr s) (xs @ p # ?ys @ [base s])" using i(6) by (subst (asm) L) simp
  have so: "sorted_wrt (<) (xs @ p # ?ys)" using i(8) L by simp
  have hdx: "hd (xs @ [p]) = base s" using i(3) L by (metis hd_append list.sel(1))
  have nx: "\<not> free_here bp x s" if x: "x \<in> set xs" for x
  proof -
    from x obtain us vs where xs: "xs = us @ x # vs" by (meson split_list)
    have "hptr s x = hd (vs @ [p])" using lk linked_hd [of _ us x vs p] by (simp add: xs)
    moreover have "hd (vs @ [p]) \<in> set (xs @ [p])" by (cases vs) (auto simp: xs)
    moreover have "x < hd (vs @ [p])" using so by (cases vs) (auto simp: xs sorted_wrt_append)
    ultimately show ?thesis using lo by (force simp: free_here_def)
  qed
  have ny: "\<not> free_here bp y s" if y: "y \<in> set ?ys" for y
  proof -
    from y obtain us vs where ys: "?ys = us @ y # vs" by (meson split_list)
    have h: "hptr s y = hd (vs @ [base s])" using lk linked_hd [of _ "xs @ p # us" y vs "base s" "[]"] by (simp add: ys)
    have "hd (vs @ [base s]) = base s \<or> y < hd (vs @ [base s])" using so unfolding ys by (cases vs) (auto simp: sorted_wrt_append)
    with h hi [OF y] bp(1) show ?thesis by (auto simp: free_here_def)
  qed
  have hp: "free_here bp p s"
  proof (cases ?ys)
    case Nil
    have "hptr s p = base s" by (rule linked_next [of _ xs p _ "[]"]) (use lk Nil in simp)
    moreover have "base s \<le> p" using so hdx by (cases xs) (auto simp: sorted_wrt_append)
    ultimately show ?thesis using lo by (simp add: free_here_def)
  next
    case (Cons z zs)
    have "hptr s p = z" by (rule linked_next [of _ xs p z "zs @ [base s]"]) (use lk Cons in simp)
    with lo hi [of z] Cons show ?thesis by (simp add: free_here_def)
  qed
  have fp: "free_find bp p s = Some p" by (subst free_find.simps) (simp add: hp)
  have "free_find bp (freep s) s = free_find bp p s"
  proof -
    have "freep s \<in> set (xs @ [p]) \<union> set ?ys" using i(4) by (subst (asm) L) auto
    then consider "freep s = p" | "freep s \<in> set xs" | "freep s \<in> set ?ys" by auto
    then show ?thesis
    proof cases
      case 2
      then obtain us vs where xs: "xs = us @ freep s # vs" by (meson split_list)
      have "linked (hptr s) ((freep s # vs) @ [p])"
        by (rule linked_sub [of _ us _ "?ys @ [base s]"]) (use lk in \<open>simp add: xs\<close>)
      from free_find_skip [OF this] nx show ?thesis by (auto simp: xs)
    next
      case 3
      then obtain us vs where ys: "?ys = us @ freep s # vs" by (meson split_list)
      have a: "linked (hptr s) (freep s # vs @ [base s])" by (rule linked_sub [of _ "xs @ p # us" _ "[]"]) (use lk in \<open>simp add: ys\<close>)
      have b: "linked (hptr s) (xs @ [p])" by (rule linked_sub [of _ "[]" _ "?ys @ [base s]"]) (use lk in simp)
      obtain zs where z: "xs @ [p] = base s # zs" using hdx by (cases "xs @ [p]") auto
      have "linked (hptr s) ((freep s # vs) @ base s # zs)" by (rule linked_append [THEN iffD2]) (use a b z in simp)
      then have "linked (hptr s) ((freep s # vs @ xs) @ [p])" using z by simp
      from free_find_skip [OF this] nx ny show ?thesis by (auto simp: ys)
    qed simp
  qed
  with fp L lo hi show ?thesis by metis
qed

section \<open>free\<close>

lemma linked_cong: "(\<And>x. x \<in> set (butlast L) \<Longrightarrow> h x = h' x) \<Longrightarrow> linked h L \<longleftrightarrow> linked h' L"
  by (induction L rule: induct_list012) (auto simp: linked_def)

lemma linked_Cons: "linked h (x # ys) \<longleftrightarrow> ys = [] \<or> (h x = hd ys \<and> linked h ys)"
  by (cases ys) (auto simp: linked_def)

lemma cells_disjoint:
  assumes "cells a m \<inter> cells b n = {}" "0 < n" "a < b"
  shows "a + 16 * m \<le> b"
proof (rule ccontr)
  assume "\<not> a + 16 * m \<le> b"
  with assms(2,3) have "b \<in> cells a m \<inter> cells b n" by (auto simp: cells_def)
  with assms(1) show False by simp
qed

lemma heap_insert:
  assumes inv: "heap_inv A (xs @ p # ys) s" and bp: "bp \<in> A" "\<forall>x \<in> set (xs @ [p]). x < bp" "\<forall>y \<in> set ys. bp < y"
  shows "heap_inv (A - {bp}) (xs @ p # bp # ys) (s\<lparr>hptr := (hptr s)(bp := hptr s p, p := bp), freep := p\<rparr>)"
proof -
  note i = heap_invD [OF inv]
  let ?h = "(hptr s)(bp := hptr s p, p := bp)"
  have lk: "linked (hptr s) (xs @ p # ys @ [base s])" using i(6) by simp
  have nb: "bp \<notin> set (xs @ p # ys)" using bp i(10) by auto
  have d: "distinct (xs @ p # ys)" by (rule i(9))
  have h1: "linked ?h (xs @ [p])"
    using linked_sub [of _ "[]" "xs @ [p]" "ys @ [base s]"] lk nb d by (subst linked_cong [of _ _ "hptr s"]) auto
  have "linked (hptr s) (ys @ [base s])" using linked_sub [of _ "xs @ [p]" "ys @ [base s]" "[]"] lk by simp
  then have h2: "linked ?h (ys @ [base s])" using nb d by (subst linked_cong [of _ _ "hptr s"]) auto
  have hp: "hptr s p = hd (ys @ [base s])" using linked_hd [of _ xs p ys "base s" "[]"] lk by simp
  have l: "linked ?h ((xs @ p # bp # ys) @ [base s])"
    using h1 h2 hp nb by (simp add: linked_append [of _ xs p "bp # ys @ [base s]"] linked_Cons)
  have sz: "0 < hsize s bp" "base s < bp" using i(11) bp(1) by auto
  have tl: "set ys \<subseteq> set (tl (xs @ p # ys))" by (cases xs) auto
  have e: "x + 16 * hsize s x \<le> bp" if "x \<in> set (xs @ [p])" for x
    by (rule cells_disjoint [OF _ sz(1)]) (use i(12) [OF bp(1), of x] that bp(2) nb in auto)
  have e': "bp + 16 * hsize s bp \<le> y" if "y \<in> set ys" for y
    by (rule cells_disjoint [of _ _ _ "hsize s y"]) (use i(12) [OF bp(1), of y] i(11) [of y] that bp(3) nb tl in auto)
  have so: "sorted_wrt (\<lambda>a b. a < b \<and> a + 16 * hsize s a \<le> b) (xs @ p # bp # ys)"
    using i(7) e e' bp(2,3) by (auto simp: sorted_wrt_append)
  have hd: "hd (xs @ p # bp # ys) = base s" using i(3) by (cases xs) auto
  have tl2: "set (tl (xs @ p # bp # ys)) \<subseteq> insert bp (set (tl (xs @ p # ys)))" by (cases xs) auto
  have b: "\<forall>b \<in> (A - {bp}) \<union> set (tl (xs @ p # bp # ys)). base s < b \<and> 0 < hsize s b \<and> b + 16 * hsize s b \<le> brk s"
    using i(11) bp(1) tl2 by blast
  have c: "\<forall>a \<in> A - {bp}. \<forall>b \<in> (A - {bp}) \<union> set (xs @ p # bp # ys). a \<noteq> b \<longrightarrow> cells a (hsize s a) \<inter> cells b (hsize s b) = {}"
    using i(12) bp(1) by auto
  have n: "(A - {bp}) \<inter> set (xs @ p # bp # ys) = {}" using i(10) by auto
  have f: "finite A" using inv by (simp add: heap_inv_def)
  show ?thesis unfolding heap_inv_def using i(1,5,13,14) l so hd b c n f by simp
qed

definition merge :: "nat \<Rightarrow> nat \<Rightarrow> uheap \<Rightarrow> uheap" where
  "merge a b s = s\<lparr>hsize := (hsize s)(a := hsize s a + hsize s b), hptr := (hptr s)(a := hptr s b)\<rparr>"

lemma heap_merge:
  assumes inv: "heap_inv A (us @ a # b # vs) s" and ab: "a + 16 * hsize s a = b" "freep s \<noteq> b"
  shows "heap_inv A (us @ a # vs) (merge a b s)"
proof -
  note i = heap_invD [OF inv]
  let ?h = "(hptr s)(a := hptr s b)" and ?z = "(hsize s)(a := hsize s a + hsize s b)"
  have lk: "linked (hptr s) (us @ a # b # vs @ [base s])" using i(6) by simp
  have d: "distinct (us @ a # b # vs)" by (rule i(9))
  have ne: "a \<noteq> base s" using i(5) ab(1) d by auto
  have h1: "linked ?h (us @ [a])"
    using linked_sub [of _ "[]" "us @ [a]" "b # vs @ [base s]"] lk d by (subst linked_cong [of _ _ "hptr s"]) auto
  have "linked (hptr s) (vs @ [base s])" using linked_sub [of _ "us @ [a, b]" "vs @ [base s]" "[]"] lk by simp
  then have h2: "linked ?h (vs @ [base s])" using d by (subst linked_cong [of _ _ "hptr s"]) auto
  have hb: "hptr s b = hd (vs @ [base s])" using linked_hd [of _ "us @ [a]" b vs "base s" "[]"] lk by simp
  have l: "linked ?h ((us @ a # vs) @ [base s])"
    using h1 h2 hb by (simp add: linked_append [of _ us a "vs @ [base s]"] linked_Cons)
  have so: "sorted_wrt (\<lambda>x y. x < y \<and> x + 16 * ?z x \<le> y) (us @ a # vs)"
  proof -
    let ?P = "\<lambda>x y. x < y \<and> x + 16 * hsize s x \<le> y"
    have o: "sorted_wrt ?P us" "sorted_wrt ?P vs" "\<forall>x \<in> set us. \<forall>y \<in> set (a # vs). ?P x y" "\<forall>y \<in> set vs. ?P a y" "\<forall>y \<in> set vs. ?P b y"
      using i(7) by (simp_all add: sorted_wrt_append)
    have "sorted_wrt (\<lambda>x y. x < y \<and> x + 16 * ?z x \<le> y) us" by (rule sorted_wrt_mono_rel [OF _ o(1)]) (use d in auto)
    moreover have "sorted_wrt (\<lambda>x y. x < y \<and> x + 16 * ?z x \<le> y) vs" by (rule sorted_wrt_mono_rel [OF _ o(2)]) (use d in auto)
    moreover have "\<forall>x \<in> set us. \<forall>y \<in> set (a # vs). x < y \<and> x + 16 * ?z x \<le> y" using o(3) d by simp
    moreover have "\<forall>y \<in> set vs. a < y \<and> a + 16 * ?z a \<le> y" using o(4,5) ab(1) by (auto simp: algebra_simps)
    ultimately show ?thesis by (simp only: sorted_wrt_append sorted_wrt.simps)
  qed
  have hd: "hd (us @ a # vs) = base s" "us \<noteq> []" using i(3) ne by (cases us; auto)+
  have tl: "set (tl (us @ a # b # vs)) = insert b (set (tl (us @ a # vs)))" "a \<in> set (tl (us @ a # b # vs))" using hd(2) by (cases us; auto)+
  have nA: "a \<notin> A" "b \<notin> A" using i(10) by auto
  have b: "\<forall>x \<in> A \<union> set (tl (us @ a # vs)). base s < x \<and> 0 < ?z x \<and> x + 16 * ?z x \<le> brk s"
  proof
    fix x
    assume x: "x \<in> A \<union> set (tl (us @ a # vs))"
    show "base s < x \<and> 0 < ?z x \<and> x + 16 * ?z x \<le> brk s"
      using i(11) [of x] i(11) [of b] x tl ab(1) by (cases "x = a") auto
  qed
  have ca: "cells a (hsize s a + hsize s b) = cells a (hsize s a) \<union> cells b (hsize s b)"
    using ab(1) by (auto simp: cells_def)
  have c: "\<forall>x \<in> A. \<forall>y \<in> A \<union> set (us @ a # vs). x \<noteq> y \<longrightarrow> cells x (?z x) \<inter> cells y (?z y) = {}"
  proof (intro ballI impI)
    fix x y
    assume x: "x \<in> A" "y \<in> A \<union> set (us @ a # vs)" "x \<noteq> y"
    have "x \<noteq> a" "x \<noteq> b" using x(1) nA by auto
    then show "cells x (?z x) \<inter> cells y (?z y) = {}"
      using i(12) [OF x(1), of y] i(12) [OF x(1), of b] x(2,3) ca by (cases "y = a") auto
  qed
  have fr: "freep s \<in> set (us @ a # vs)" using i(4) ab(2) by auto
  have f: "finite A" using inv by (simp add: heap_inv_def)
  show ?thesis unfolding heap_inv_def merge_def using i(1,5,10,13,14) l so hd(1) b c fr f ne by simp
qed

text \<open>The pointer updates of \<open>free\<close>: the block is linked in after \<open>p\<close>, then merged with its neighbours where they touch.\<close>

definition link_in :: "nat \<Rightarrow> nat \<Rightarrow> uheap \<Rightarrow> uheap" where
  "link_in bp p s = s\<lparr>hptr := (hptr s)(bp := hptr s p, p := bp), freep := p\<rparr>"

definition merge_up :: "nat \<Rightarrow> nat \<Rightarrow> uheap \<Rightarrow> uheap" where
  "merge_up bp p s = (if bp + 16 * hsize s bp = hptr s p then merge bp (hptr s p) (link_in bp p s) else link_in bp p s)"

lemma merge_up_simps:
  assumes "p \<noteq> bp"
  shows "hptr (merge_up bp p s) p = bp" "freep (merge_up bp p s) = p" "hsize (merge_up bp p s) p = hsize s p" "base (merge_up bp p s) = base s"
    "brk (merge_up bp p s) = brk s" "a \<noteq> bp \<Longrightarrow> hsize (merge_up bp p s) a = hsize s a" "hsize s bp \<le> hsize (merge_up bp p s) bp"
  using assms by (auto simp: merge_up_def merge_def link_in_def)

lemma free_upper_eq:
  assumes "p \<noteq> bp" "hsize (merge_up bp p s) bp < 2 ^ 32" "bp + 16 * hsize s bp = hptr s p \<longrightarrow> hptr s p \<noteq> p \<and> hptr s p \<noteq> bp"
  shows "free_upper bp p s = (merge_up bp p s)\<lparr>hptr := (hptr (merge_up bp p s))(p := hptr s p), freep := freep s\<rparr>"
  using assms by (cases s) (auto simp: free_upper_def merge_up_def link_in_def merge_def Let_def fun_eq_iff)

lemma free_lower_eq:
  assumes "hptr m p = bp" "freep m = p" "p \<noteq> bp" "hsize m p + hsize m bp < 2 ^ 32"
  shows "(free_lower bp p (m\<lparr>hptr := (hptr m)(p := x), freep := y\<rparr>))\<lparr>freep := p\<rparr> = (if p + 16 * hsize m p = bp then merge p bp m else m)"
  using assms by (cases m) (auto simp: free_lower_def merge_def fun_eq_iff)

lemma ufree_ok:
  assumes inv: "heap_inv A L s" and bp: "bp \<in> A"
  shows "\<exists>s' L'. ufree (bp + 16) s = Some s' \<and> heap_inv (A - {bp}) L' s' \<and> (\<exists>b \<in> set L'. hsize s bp \<le> hsize s' b) \<and>
    base s' = base s \<and> brk s' = brk s \<and> (\<forall>a \<in> A - {bp}. hsize s' a = hsize s a)"
proof -
  note i = heap_invD [OF inv]
  have nb: "bp \<notin> set L" "base s < bp" using i(10,11) bp by auto
  from free_find_ok [OF inv nb(2,1)] obtain xs p ys where
    f: "L = xs @ p # ys" "\<forall>x \<in> set (xs @ [p]). x < bp" "\<forall>y \<in> set ys. bp < y" "free_find bp (freep s) s = Some p" by blast
  let ?m = "merge_up bp p s" and ?nx = "hptr s p"
  have it: "heap_inv (A - {bp}) (xs @ p # bp # ys) (link_in bp p s)"
    using heap_insert [OF inv [unfolded f(1)] bp f(2,3)] by (simp add: link_in_def)
  have pb: "p \<noteq> bp" "p < bp" using f(2) by auto
  note ms = merge_up_simps [OF pb(1), where s = s]
  have nx: "?nx = hd (ys @ [base s])" using linked_hd [of _ xs p ys "base s" "[]"] i(6) by (simp add: f(1))
  have ys: "\<exists>zs. ys = ?nx # zs" if "bp + 16 * hsize s bp = ?nx" using nx nb(2) that by (cases ys) auto
  have "\<exists>zs. heap_inv (A - {bp}) (xs @ p # bp # zs) ?m"
  proof (cases "bp + 16 * hsize s bp = ?nx")
    case True
    with ys obtain zs where zs: "ys = ?nx # zs" by blast
    have "heap_inv (A - {bp}) ((xs @ [p]) @ bp # zs) (merge bp ?nx (link_in bp p s))"
      by (rule heap_merge) (use it zs pb f(3) True in \<open>auto simp: link_in_def\<close>)
    with True show ?thesis by (auto simp: merge_up_def)
  qed (use it in \<open>auto simp: merge_up_def\<close>)
  then obtain zs where im: "heap_inv (A - {bp}) (xs @ p # bp # zs) ?m" by blast
  have "p + 16 * hsize ?m p \<le> bp" using heap_invD(7) [OF im] by (simp add: sorted_wrt_append)
  moreover have "bp + 16 * hsize ?m bp \<le> 2 ^ 36"
    using heap_invD(11) [OF im, of bp] heap_invD(13) [OF im] by (cases xs) auto
  moreover have "0 < p" using heap_invD(1,3) [OF im] heap_invD(8) [OF im] by (cases xs) (auto simp: sorted_wrt_append)
  ultimately have m: "hsize ?m bp < 2 ^ 32" "hsize ?m p + hsize ?m bp < 2 ^ 32" by simp_all
  have "bp + 16 * hsize s bp = ?nx \<longrightarrow> ?nx \<noteq> p \<and> ?nx \<noteq> bp" using ys f(3) pb by fastforce
  note u = free_upper_eq [OF pb(1) m(1) this]
  let ?w = "if p + 16 * hsize ?m p = bp then merge p bp ?m else ?m"
  have w: "ufree (bp + 16) s = Some ?w"
    using f(4) free_lower_eq [OF ms(1,2) pb(1) m(2)] by (simp add: ufree_def u)
  show ?thesis
  proof (cases "p + 16 * hsize ?m p = bp")
    case False
    with w im ms show ?thesis by (intro exI [of _ ?m] exI [of _ "xs @ p # bp # zs"]) auto
  next
    case True
    have "heap_inv (A - {bp}) (xs @ p # zs) (merge p bp ?m)" by (rule heap_merge [OF im True]) (use ms(2) pb in simp)
    moreover have "hsize s bp \<le> hsize (merge p bp ?m) p" "base (merge p bp ?m) = base s" "brk (merge p bp ?m) = brk s"
      using ms(4,5,7) by (simp_all add: merge_def)
    moreover have "\<forall>a \<in> A - {bp}. hsize (merge p bp ?m) a = hsize s a" using ms(6) i(10) f(1) by (auto simp: merge_def)
    ultimately show ?thesis using w True by (intro exI [of _ "merge p bp ?m"] exI [of _ "xs @ p # zs"]) auto
  qed
qed

section \<open>malloc\<close>

lemma malloc_skip:
  "linked (hptr s) (x # zs @ [p]) \<Longrightarrow> \<forall>z \<in> set zs. hsize s z < n \<and> z \<noteq> freep s \<Longrightarrow>
   malloc_loop n x (hptr s x) s = malloc_loop n (last (x # zs)) p s"
proof (induction zs arbitrary: x)
  case Nil
  then show ?case by (simp add: linked_Cons)
next
  case (Cons z zs)
  have h: "hptr s x = z" "linked (hptr s) (z # zs @ [p])" using Cons.prems(1) by (auto simp: linked_Cons)
  have "malloc_loop n x z s = malloc_loop n z (hptr s z) s" by (subst malloc_loop.simps) (use Cons.prems(2) in simp)
  with h Cons.IH [OF h(2)] Cons.prems(2) show ?case by simp
qed

lemma circle:
  assumes "heap_inv A L s"
  shows "\<exists>R. linked (hptr s) (freep s # R @ [freep s]) \<and> set L = insert (freep s) (set R) \<and> freep s \<notin> set R"
proof -
  note i = heap_invD [OF assms]
  from i(4) obtain us vs where L: "L = us @ freep s # vs" by (meson split_list)
  have a: "linked (hptr s) (freep s # vs @ [base s])" by (rule linked_sub [of _ us _ "[]"]) (use i(6) L in simp)
  have b: "linked (hptr s) (us @ [freep s])" by (rule linked_sub [of _ "[]" _ "vs @ [base s]"]) (use i(6) L in simp)
  obtain zs where z: "us @ [freep s] = base s # zs" using i(3) L by (cases us) auto
  have "linked (hptr s) ((freep s # vs) @ base s # zs)" by (rule linked_append [THEN iffD2]) (use a b z in simp)
  then have "linked (hptr s) (freep s # (vs @ us) @ [freep s])" using z by simp
  moreover have "set L = insert (freep s) (set (vs @ us))" "freep s \<notin> set (vs @ us)" using L i(9) by auto
  ultimately show ?thesis by blast
qed

lemma heap_invI:
  assumes "0 < base s" "L \<noteq> []" "hd L = base s" "freep s \<in> set L" "hsize s (base s) = 0" "linked (hptr s) (L @ [base s])"
    "sorted_wrt (\<lambda>a b. a < b \<and> a + 16 * hsize s a \<le> b) L"
    "\<And>b. b \<in> A \<union> set (tl L) \<Longrightarrow> base s < b \<and> 0 < hsize s b \<and> b + 16 * hsize s b \<le> brk s"
    "\<And>a b. a \<in> A \<Longrightarrow> b \<in> A \<union> set L \<Longrightarrow> a \<noteq> b \<Longrightarrow> cells a (hsize s a) \<inter> cells b (hsize s b) = {}"
    "A \<inter> set L = {}" "base s < brk s" "finite A" "brk s \<le> 2 ^ 36"
  shows "heap_inv A L s"
  using assms by (auto simp: heap_inv_def)

lemma sorted_cells:
  assumes "sorted_wrt (\<lambda>a b. a < b \<and> a + 16 * hsize s a \<le> b) L" "a \<in> set L" "b \<in> set L" "a \<noteq> b"
  shows "cells a (hsize s a) \<inter> cells b (hsize s b) = {}"
proof -
  have "a < b \<and> a + 16 * hsize s a \<le> b \<or> b < a \<and> b + 16 * hsize s b \<le> a"
    using assms by (induction L) auto
  then show ?thesis by (auto simp: cells_def)
qed

lemma take_exact:
  assumes inv: "heap_inv A (us @ q # p # vs) s"
  shows "heap_inv (insert p A) (us @ q # vs) (s\<lparr>hptr := (hptr s)(q := hptr s p), freep := q\<rparr>)"
proof -
  note i = heap_invD [OF inv]
  let ?h = "(hptr s)(q := hptr s p)"
  have lk: "linked (hptr s) (us @ q # p # vs @ [base s])" using i(6) by simp
  have d: "distinct (us @ q # p # vs)" by (rule i(9))
  have h1: "linked ?h (us @ [q])"
    using linked_sub [of _ "[]" "us @ [q]" "p # vs @ [base s]"] lk d by (subst linked_cong [of _ _ "hptr s"]) auto
  have "linked (hptr s) (vs @ [base s])" using linked_sub [of _ "us @ [q, p]" "vs @ [base s]" "[]"] lk by simp
  then have h2: "linked ?h (vs @ [base s])" using d by (subst linked_cong [of _ _ "hptr s"]) auto
  have hp: "hptr s p = hd (vs @ [base s])" using linked_hd [of _ "us @ [q]" p vs "base s" "[]"] lk by simp
  have l: "linked ?h ((us @ q # vs) @ [base s])"
    using h1 h2 hp by (simp add: linked_append [of _ us q "vs @ [base s]"] linked_Cons)
  have tl: "set (tl (us @ q # p # vs)) = insert p (set (tl (us @ q # vs)))" by (cases us) auto
  have c: "cells a (hsize s a) \<inter> cells b (hsize s b) = {}" if "a \<in> insert p A" "b \<in> insert p A \<union> set (us @ q # vs)" "a \<noteq> b" for a b
    using that i(12) [of a b] i(12) [of b a] sorted_cells [OF i(7), of a b] by auto
  show ?thesis
    by (rule heap_invI)
       (use i l tl c d inv in \<open>auto simp: sorted_wrt_append heap_inv_def hd_append\<close>)
qed

lemma take_split:
  assumes inv: "heap_inv A (us @ q # p # vs) s" and n: "0 < n" "n < hsize s p" and p': "p' = p + 16 * (hsize s p - n)"
  shows "heap_inv (insert p' A) (us @ q # p # vs) (s\<lparr>hsize := (hsize s)(p := hsize s p - n, p' := n), freep := q\<rparr>)" and "p' \<notin> A"
proof -
  note i = heap_invD [OF inv]
  let ?z = "(hsize s)(p := hsize s p - n, p' := n)" and ?L = "us @ q # p # vs"
  have e: "p < p'" "p' + 16 * n = p + 16 * hsize s p" using n p' by auto
  have pt: "p \<in> set (tl ?L)" "p \<noteq> base s" "p \<in> set ?L" using i(11) [of p] by (cases us; auto)+
  have sub: "cells p (hsize s p - n) \<subseteq> cells p (hsize s p)" "cells p' n \<subseteq> cells p (hsize s p)" "cells p (hsize s p - n) \<inter> cells p' n = {}"
    using e p' by (auto simp: cells_def)
  have pin: "p' \<in> cells p (hsize s p)" using e n by (auto simp: cells_def)
  have nA: "p' \<notin> A" "p \<notin> A"
  proof -
    show "p \<notin> A" using i(10) pt by blast
    then show "p' \<notin> A" using i(12) [of p' p] i(11) [of p'] pt(3) pin e(1) by (auto simp: cells_def)
  qed
  have nL: "p' \<notin> set ?L"
  proof
    assume a: "p' \<in> set ?L"
    then have "cells p' (hsize s p') \<inter> cells p (hsize s p) = {}" using sorted_cells [OF i(7) a pt(3)] e(1) by simp
    moreover have "p' \<in> set (tl ?L)" using a i(3) i(11) [of p] pt(1) e(1) by (cases us) auto
    ultimately show False using i(11) [of p'] pin by (auto simp: cells_def)
  qed
  show "p' \<notin> A" by (rule nA)
  have so: "sorted_wrt (\<lambda>a b. a < b \<and> a + 16 * ?z a \<le> b) ?L"
    by (rule sorted_wrt_mono_rel [OF _ i(7)]) (use nL n in auto)
  have c: "cells a (?z a) \<inter> cells b (?z b) = {}" if ab: "a \<in> insert p' A" "b \<in> insert p' A \<union> set ?L" "a \<noteq> b" for a b
  proof -
    have A: "cells x (?z x) \<inter> cells y (?z y) = {}" if "x \<in> A" "y \<in> A \<union> set ?L" "x \<noteq> y" for x y
      using i(12) [OF that] that nA nL sub(1) by (cases "y = p") (auto simp: disjoint_iff subset_eq)
    have P: "cells p' (?z p') \<inter> cells y (?z y) = {}" if "y \<in> A \<union> set ?L" for y
      using that i(12) [of y p] sorted_cells [OF i(7), of p y] pt(3) nA nL sub by (cases "y = p"; cases "y \<in> A") (auto simp: disjoint_iff subset_eq)
    show ?thesis using ab A [of a b] P [of a] P [of b] by auto
  qed
  have b: "base s < x \<and> 0 < ?z x \<and> x + 16 * ?z x \<le> brk s" if "x \<in> insert p' A \<union> set (tl ?L)" for x
    using that i(11) [of x] i(11) [of p] pt(1) e n by auto
  show "heap_inv (insert p' A) ?L (s\<lparr>hsize := ?z, freep := q\<rparr>)"
    by (rule heap_invI) (use i(1,3,5,6,10,13,14) so c b nL pt inv e in \<open>auto simp: heap_inv_def\<close>)
qed

lemma linked_last: "linked h (xs @ [p]) \<Longrightarrow> xs \<noteq> [] \<Longrightarrow> h (last xs) = p"
  by (cases xs rule: rev_cases) (auto dest: linked_next [of h _ _ p "[]"])

lemma malloc_take_ok:
  assumes inv: "heap_inv A L s" and q: "q \<in> set L" "hptr s q = p" and n: "0 < n" "n \<le> hsize s p"
  shows "\<exists>r s' L'. malloc_take n q p s = (r + 16, s') \<and> heap_inv (insert r A) L' s' \<and> r \<notin> A \<and> hsize s' r = n \<and>
    (\<forall>a \<in> A. hsize s' a = hsize s a) \<and> brk s' = brk s"
proof -
  note i = heap_invD [OF inv]
  from q(1) obtain us rest where L: "L = us @ q # rest" by (meson split_list)
  have "hd (rest @ [base s]) = p" using linked_hd [of _ us q rest "base s" "[]"] i(6) q(2) by (simp add: L)
  moreover have "p \<noteq> base s" using i(5) n by auto
  ultimately obtain vs where L: "L = us @ q # p # vs" using L by (cases rest) auto
  have pA: "p \<notin> A" using i(10) L by auto
  show ?thesis
  proof (cases "hsize s p = n")
    case True
    with take_exact [OF inv [unfolded L]] pA show ?thesis by (auto simp: malloc_take_def)
  next
    case False
    let ?p' = "p + 16 * (hsize s p - n)"
    have "n < hsize s p" using False n by simp
    note ts = take_split [OF inv [unfolded L] n(1) this refl]
    have "malloc_take n q p s = (?p' + 16, s\<lparr>hsize := (hsize s)(p := hsize s p - n, ?p' := n), freep := q\<rparr>)"
      using False by (simp add: malloc_take_def Let_def)
    with ts pA show ?thesis by (intro exI [of _ ?p']) auto
  qed
qed

lemma malloc_found:
  assumes inv: "heap_inv A L s" and n: "0 < n" "\<exists>b \<in> set L. n \<le> hsize s b"
  shows "\<exists>r s' L'. malloc_loop n (freep s) (hptr s (freep s)) s = Some (r + 16, s') \<and> heap_inv (insert r A) L' s' \<and> r \<notin> A \<and>
    hsize s' r = n \<and> (\<forall>a \<in> A. hsize s' a = hsize s a) \<and> brk s' = brk s"
proof -
  from circle [OF inv] obtain R where R: "linked (hptr s) (freep s # R @ [freep s])" "set L = insert (freep s) (set R)" "freep s \<notin> set R"
    by blast
  have "\<exists>b \<in> set (R @ [freep s]). n \<le> hsize s b" using n(2) R(2) by auto
  from split_list_first_prop [OF this] obtain zs p ws where
    T: "R @ [freep s] = zs @ p # ws" "n \<le> hsize s p" "\<forall>z \<in> set zs. \<not> n \<le> hsize s z" by blast
  have "R = zs @ butlast (p # ws)" using arg_cong [OF T(1), of butlast] by (simp add: butlast_append split: if_splits)
  then have zs: "set zs \<subseteq> set R" by auto
  have lk: "linked (hptr s) ((freep s # zs) @ [p])" by (rule linked_sub [of _ "[]" _ ws]) (use R(1) T(1) in simp)
  have "malloc_loop n (freep s) (hptr s (freep s)) s = malloc_loop n (last (freep s # zs)) p s"
    by (rule malloc_skip) (use lk T(3) zs R(3) in auto)
  also have "\<dots> = Some (malloc_take n (last (freep s # zs)) p s)" by (subst malloc_loop.simps) (simp add: T(2))
  finally have l: "malloc_loop n (freep s) (hptr s (freep s)) s = Some (malloc_take n (last (freep s # zs)) p s)" .
  have "last (freep s # zs) \<in> set L" "hptr s (last (freep s # zs)) = p"
    using R(2) zs linked_last [OF lk] last_in_set [of "freep s # zs"] by auto
  from malloc_take_ok [OF inv this n(1) T(2)] l show ?thesis by auto
qed

lemma sint_of_nat32: "k < 2 ^ 31 \<Longrightarrow> sint (of_nat k :: uint32) = int k"
  by (simp add: signed_of_nat signed_take_bit_int_eq_self)

lemma morecore_ok:
  assumes inv: "heap_inv A L s" and n: "16 * n < 2 ^ 31" "brk s + 16 * max 4096 n \<le> 2 ^ 36"
  shows "\<exists>s' L'. morecore n s = Some (freep s', s') \<and> heap_inv A L' s' \<and> (\<exists>b \<in> set L'. n \<le> hsize s' b) \<and>
    (\<forall>a \<in> A. hsize s' a = hsize s a) \<and> brk s' = brk s + 16 * max 4096 n"
proof -
  note i = heap_invD [OF inv]
  let ?m = "max 4096 n" and ?p = "brk s"
  let ?s = "s\<lparr>brk := brk s + 16 * ?m, hsize := (hsize s)(?p := ?m)\<rparr>"
  have m: "(if n < 4096 then 4096 else n) = ?m" by simp
  have w: "sint (of_nat (?m * 16) :: uint32) = int (?m * 16)"
    using n(1) by (intro sint_of_nat32) auto
  have b: "x < ?p" "x + 16 * hsize s x \<le> ?p" if "x \<in> A \<union> set L" for x
  proof -
    have "x = base s \<or> x \<in> A \<union> set (tl L)" using that i(2,3) by (cases L) auto
    then show "x < ?p" "x + 16 * hsize s x \<le> ?p" using i(5,14) i(11) [of x] by auto
  qed
  have pn: "?p \<notin> A" "?p \<notin> set L" using b by blast+
  have so: "sorted_wrt (\<lambda>a b. a < b \<and> a + 16 * hsize ?s a \<le> b) L" by (rule sorted_wrt_mono_rel [OF _ i(7)]) (use pn in auto)
  have c: "cells x (hsize ?s x) \<inter> cells y (hsize ?s y) = {}" if "x \<in> insert ?p A" "y \<in> insert ?p A \<union> set L" "x \<noteq> y" for x y
  proof -
    have "cells ?p ?m \<inter> cells z (hsize s z) = {}" if "z \<in> A \<union> set L" for z using b [OF that] by (auto simp: cells_def)
    with that i(12) [of x y] pn show ?thesis by auto
  qed
  have "heap_inv (insert ?p A) L ?s"
  proof (rule heap_invI [where s = ?s])
    fix x assume "x \<in> insert ?p A \<union> set (tl L)"
    then show "base ?s < x \<and> 0 < hsize ?s x \<and> x + 16 * hsize ?s x \<le> brk ?s" using i(11) [of x] i(14) by auto
  qed (use i(1-6,10,14) so c pn n(2) inv in \<open>auto simp: heap_inv_def\<close>)
  from ufree_ok [OF this, of ?p] obtain s' L' where
    f: "ufree (?p + 16) ?s = Some s'" "heap_inv (insert ?p A - {?p}) L' s'" "\<exists>b \<in> set L'. hsize ?s ?p \<le> hsize s' b"
      "brk s' = brk ?s" "\<forall>a \<in> insert ?p A - {?p}. hsize s' a = hsize ?s a" by blast
  have "nat (int ?m * 16) = 16 * ?m" by (simp add: nat_mult_distrib)
  then have "morecore n s = Some (freep s', s')"
    unfolding morecore_def m Let_def w usbrk_def using f(1) by simp
  with f pn show ?thesis by (intro exI [of _ s'] exI [of _ L']) auto
qed

lemma heap_inv_freep: "heap_inv A L s \<Longrightarrow> freep s \<noteq> 0"
  using heap_invD(1,3,4,8) [of A L s] by (cases L) auto

lemma malloc_loop_ok:
  assumes inv: "heap_inv A L s" and n: "0 < n" "16 * n < 2 ^ 31" "brk s + 16 * max 4096 n \<le> 2 ^ 36"
  shows "\<exists>r s' L'. malloc_loop n (freep s) (hptr s (freep s)) s = Some (r + 16, s') \<and> heap_inv (insert r A) L' s' \<and> r \<notin> A \<and>
    hsize s' r = n \<and> (\<forall>a \<in> A. hsize s' a = hsize s a)"
proof (cases "\<exists>b \<in> set L. n \<le> hsize s b")
  case True
  from malloc_found [OF inv n(1) True] show ?thesis by blast
next
  case False
  from circle [OF inv] obtain R where R: "linked (hptr s) (freep s # R @ [freep s])" "set L = insert (freep s) (set R)" "freep s \<notin> set R"
    by blast
  have small: "\<forall>b \<in> set L. hsize s b < n" using False by auto
  have a: "malloc_loop n (freep s) (hptr s (freep s)) s = malloc_loop n (last (freep s # R)) (freep s) s"
    by (rule malloc_skip [OF R(1)]) (use small R(2,3) in auto)
  from morecore_ok [OF inv n(2,3)] obtain s1 L1 where
    m: "morecore n s = Some (freep s1, s1)" "heap_inv A L1 s1" "\<exists>b \<in> set L1. n \<le> hsize s1 b" "\<forall>a \<in> A. hsize s1 a = hsize s a" by blast
  have "freep s1 \<noteq> 0" by (rule heap_inv_freep [OF m(2)])
  then have "malloc_loop n (last (freep s # R)) (freep s) s = malloc_loop n (freep s1) (hptr s1 (freep s1)) s1"
    by (subst malloc_loop.simps) (use small R(2) m(1) in \<open>auto simp: not_le\<close>)
  with a malloc_found [OF m(2) n(1) m(3)] m(4) show ?thesis by fastforce
qed

text \<open>The heap with the allocated blocks \<open>A\<close>, before and after the first call of \<open>malloc\<close>.\<close>

definition heap_ok :: "nat set \<Rightarrow> uheap \<Rightarrow> bool" where
  "heap_ok A s \<longleftrightarrow> (freep s = 0 \<and> A = {} \<and> 0 < base s \<and> base s < brk s \<and> brk s \<le> 2 ^ 36) \<or> (\<exists>L. heap_inv A L s)"

lemma heap_init:
  assumes "freep s = 0" "0 < base s" "base s < brk s" "brk s \<le> 2 ^ 36"
  shows "heap_inv {} [base s] (malloc_init s)"
  using assms by (simp add: heap_inv_def linked_def malloc_init_def)

section \<open>Properties\<close>

text \<open>C8: \<open>malloc\<close> returns, for every request below 2 GB that the address space can hold, a block of at least the
  requested size that ends before the break and shares no byte with a block handed out earlier; the free list stays
  sorted, circular and disjoint from all blocks in use. In particular the search of the circular list ends.\<close>

theorem malloc_correct:
  assumes "heap_ok A s" "nbytes < 2 ^ 31 - 32" "brk s + nbytes + 65568 \<le> 2 ^ 36"
  shows "\<exists>ap s'. malloc nbytes s = Some (ap, s') \<and> 16 \<le> ap \<and> heap_ok (insert (ap - 16) A) s' \<and> ap + nbytes \<le> brk s' \<and>
    (\<forall>a \<in> A. hsize s' a = hsize s a \<and> {ap - 16..<ap + nbytes} \<inter> {a..<a + 16 * hsize s a} = {})"
proof -
  let ?n = "(nbytes + 15) div 16 + 1"
  let ?s = "malloc_init s"
  have n: "0 < ?n" "16 * ?n < 2 ^ 31" "nbytes + 16 \<le> 16 * ?n" "?n mod 2 ^ 32 = ?n" "16 * ?n \<le> nbytes + 31" using assms(2) by auto
  have "\<exists>L. heap_inv A L ?s"
  proof (cases "freep s = 0")
    case True
    then have "\<not> (\<exists>L. heap_inv A L s)" using heap_inv_freep by blast
    with assms(1) True heap_init [of s] show ?thesis by (auto simp: heap_ok_def)
  qed (use assms(1) in \<open>auto simp: heap_ok_def malloc_init_def\<close>)
  then obtain L where L: "heap_inv A L ?s" by blast
  have k: "brk ?s = brk s" "brk s + 16 * max 4096 ?n \<le> 2 ^ 36" using assms(3) n(5) by (auto simp: malloc_init_def)
  from malloc_loop_ok [OF L n(1,2)] k obtain r s' L' where
    m: "malloc_loop ?n (freep ?s) (hptr ?s (freep ?s)) ?s = Some (r + 16, s')" "heap_inv (insert r A) L' s'" "r \<notin> A" "hsize s' r = ?n"
      "\<forall>a \<in> A. hsize s' a = hsize ?s a" by fastforce
  note i = heap_invD [OF m(2)]
  have h: "hsize ?s a = hsize s a" if "a \<in> A" for a using that heap_invD(2,3,10) [OF L] by (cases L) (auto simp: malloc_init_def split: if_splits)
  have "{r..<r + 16 + nbytes} \<inter> {a..<a + 16 * hsize s a} = {}" if "a \<in> A" for a
  proof -
    have "cells r ?n \<inter> cells a (hsize s a) = {}" using i(12) [of r a] m(3-5) h that by auto
    moreover have "{r..<r + 16 + nbytes} \<subseteq> cells r ?n" using n(3) by (auto simp: cells_def)
    ultimately show ?thesis by (auto simp: cells_def)
  qed
  moreover have "malloc nbytes s = Some (r + 16, s')"
  proof -
    have "nbytes + 16 - 1 = nbytes + 15" by simp
    then show ?thesis unfolding malloc_def Let_def using m(1) n(4) by (simp only:)
  qed
  moreover have "r + 16 + nbytes \<le> brk s'" using i(11) [of r] m(4) n(3) by auto
  ultimately show ?thesis using m(2,5) h by (intro exI [of _ "r + 16"] exI [of _ s']) (auto simp: heap_ok_def)
qed

definition heap0 :: uheap where
  "heap0 = \<lparr>hptr = (\<lambda>_. 0), hsize = (\<lambda>_. 0), freep = 0, base = 4096, brk = 8192\<rparr>"

theorem malloc_correct_witness:
  "\<exists>ap s'. malloc 100 heap0 = Some (ap, s') \<and> heap_ok {ap - 16} s' \<and> ap + 100 \<le> brk s'"
  using malloc_correct [of "{}" heap0 100] by (auto simp: heap_ok_def heap0_def)


text \<open>One block of two units above \<open>base\<close> is in use.\<close>

definition heap1 :: uheap where
  "heap1 = \<lparr>hptr = (\<lambda>_. 4096), hsize = (\<lambda>a. if a = 8192 then 2 else 0), freep = 4096, base = 4096, brk = 8224\<rparr>"


text \<open>C37: \<open>morecore\<close> passes the size of the new block in bytes to \<open>sbrk\<close>, whose parameter is an \<open>int\<close>. For a request of
  \<open>2 ^ 32 - 1\<close> bytes the product is \<open>2 ^ 32 + 16\<close>, which the conversion turns into 16: the break moves by 16 bytes and
  \<open>malloc\<close> returns a pointer to the new break, behind which nothing is mapped.\<close>

theorem malloc_huge_overruns:
  assumes "freep s = 0" "0 < base s" "base s < brk s"
  shows "\<exists>s'. malloc (2 ^ 32 - 1) s = Some (brk s + 16, s') \<and> brk s' = brk s + 16"
proof -
  let ?n = "268435457 :: nat"
  let ?i = "malloc_init s" and ?b = "base s" and ?p = "brk s"
  let ?t = "?i\<lparr>brk := ?p + 16, hsize := (hsize ?i)(?p := ?n)\<rparr>"
  let ?u = "?t\<lparr>hptr := (hptr ?i)(?p := ?b, ?b := ?p), freep := ?b\<rparr>"
  have i: "freep ?i = ?b" "hptr ?i ?b = ?b" "hsize ?i ?b = 0" "brk ?i = ?p" using assms(1) by (simp_all add: malloc_init_def)
  have "free_find ?p ?b ?t = Some ?b" by (subst free_find.simps) (use i assms(3) in \<open>simp add: free_here_def\<close>)
  then have "ufree (?p + 16) ?t = Some ?u"
    using i assms(3) by (simp add: ufree_def free_upper_def free_lower_def Let_def)
  moreover have "sint (of_nat (?n * 16) :: uint32) = 16" by simp
  ultimately have m: "morecore ?n ?i = Some (?b, ?u)" by (simp add: morecore_def usbrk_def i)
  have "malloc_loop ?n ?b ?p ?u = Some (?p + 16, ?u\<lparr>hptr := (hptr ?u)(?b := ?b), freep := ?b\<rparr>)"
    by (subst malloc_loop.simps) (use i assms(3) in \<open>simp add: malloc_take_def\<close>)
  then have "malloc_loop ?n ?b ?b ?i = Some (?p + 16, ?u\<lparr>hptr := (hptr ?u)(?b := ?b), freep := ?b\<rparr>)"
    by (subst malloc_loop.simps) (use i assms m in simp)
  then show ?thesis by (simp add: malloc_def Let_def i)
qed

theorem malloc_huge_overruns_witness: "\<exists>s'. malloc (2 ^ 32 - 1) heap0 = Some (8208, s') \<and> brk s' = 8208"
  using malloc_huge_overruns [of heap0] by (simp add: heap0_def)

end
