(* ===== verification/XvMkfs.thy ===== *)
theory XvMkfs
  imports XvFs
begin

text \<open>
  mkfs/mkfs.c: the program of the host that builds the file system image. The image file is a function from block
  numbers to blocks with its length in blocks; blocks never written are holes, which read as zeroes. The n-th
  operation on the image fails when \<open>fault n\<close>. The files of the host are a parameter: for every path
  what the calls of \<open>read\<close> return, or nothing when \<open>open\<close> fails. \<open>die\<close>, a usage message and a failed \<open>assert\<close> are
  \<open>Panic\<close>. The host is little-endian.
\<close>

section \<open>State\<close>

abbreviation (input) FSSIZE :: nat where "FSSIZE \<equiv> 2000"
abbreviation (input) NINODES :: nat where "NINODES \<equiv> 200"

record mkfs_state =
  blocks :: "nat \<Rightarrow> block"
  img_len :: nat
  fault :: "nat \<Rightarrow> bool"
  ops :: nat
  msb :: superblock
  freeinode :: uint32
  freeblock :: uint32

definition nbitmap :: nat where "nbitmap = FSSIZE div BPB + 1"
definition ninodeblocks :: nat where "ninodeblocks = NINODES div 16 + 1"
definition mk_nlog :: nat where "mk_nlog = 30 + 1"
definition nmeta :: nat where "nmeta = 2 + mk_nlog + ninodeblocks + nbitmap"

section \<open>Operations\<close>

definition xshort :: "uint16 \<Rightarrow> uint16" where
  "xshort x = bld16 ((\<lambda>_. 0)(0 := ucast x, 1 := ucast (drop_bit 8 x))) 0"

definition xint :: "uint32 \<Rightarrow> uint32" where
  "xint x = bld32 ((\<lambda>_. 0)(0 := ucast x, 1 := ucast (drop_bit 8 x), 2 := ucast (drop_bit 16 x), 3 := ucast (drop_bit 24 x))) 0"

definition sect_pos :: "uint32 \<Rightarrow> nat" where
  "sect_pos sec = unat (sec * 1024) div 1024"

definition wsect :: "uint32 \<Rightarrow> block \<Rightarrow> mkfs_state \<Rightarrow> mkfs_state res" where
  "wsect sec buf s =
     (if fault s (ops s) then Panic ''lseek''
      else if fault s (ops s + 1) then Panic ''write''
      else Ok (s\<lparr>ops := ops s + 2, blocks := (blocks s)(sect_pos sec := buf), img_len := max (img_len s) (sect_pos sec + 1)\<rparr>))"

definition rsect :: "uint32 \<Rightarrow> mkfs_state \<Rightarrow> (block \<times> mkfs_state) res" where
  "rsect sec s =
     (if fault s (ops s) then Panic ''lseek''
      else if fault s (ops s + 1) \<or> img_len s \<le> sect_pos sec then Panic ''read''
      else Ok (blocks s (sect_pos sec), s\<lparr>ops := ops s + 2\<rparr>))"

text \<open>A \<open>struct dinode\<close> is the part of an \<open>inode\<close> that \<open>put_dinode\<close> writes.\<close>

definition dinode0 :: inode where
  "dinode0 = \<lparr>idev = 0, inum = 0, iref = 0, ivalid = False, itype = 0, imajor = 0, iminor = 0, nlink = 0, isize = 0, addrs = \<lambda>_. 0\<rparr>"

definition winode :: "uint32 \<Rightarrow> inode \<Rightarrow> mkfs_state \<Rightarrow> mkfs_state res" where
  "winode k ip s =
     (let bn = IBLOCK k (msb s)
      in bindr (rsect bn s) (\<lambda>(buf, s1). wsect bn (put_dinode (dinode_off k) ip buf) s1))"

definition rinode :: "uint32 \<Rightarrow> mkfs_state \<Rightarrow> (inode \<times> mkfs_state) res" where
  "rinode k s = bindr (rsect (IBLOCK k (msb s)) s) (\<lambda>(buf, s1). Ok (get_dinode (dinode_off k) buf dinode0, s1))"

definition mk_ialloc :: "uint16 \<Rightarrow> mkfs_state \<Rightarrow> (uint32 \<times> mkfs_state) res" where
  "mk_ialloc ty s =
     (let k = freeinode s
      in bindr (winode k (dinode0\<lparr>itype := xshort ty, nlink := xshort 1, isize := xint 0\<rparr>) (s\<lparr>freeinode := freeinode s + 1\<rparr>))
           (\<lambda>s1. Ok (k, s1)))"

definition bitmap_of :: "nat \<Rightarrow> block" where
  "bitmap_of used = fold (\<lambda>i b. b(i div 8 := b (i div 8) OR bit_mask i)) [0..<used] (\<lambda>_. 0)"

definition mk_balloc :: "uint32 \<Rightarrow> mkfs_state \<Rightarrow> mkfs_state res" where
  "mk_balloc used s =
     (if sint used \<ge> int BPB then Panic ''assert''
      else wsect (bmapstart (msb s)) (bitmap_of (nat (sint used))) s)"

text \<open>The block of the file that holds byte \<open>off\<close>, allocated when missing.\<close>

definition take_block :: "mkfs_state \<Rightarrow> uint32 \<times> mkfs_state" where
  "take_block s = (xint (freeblock s), s\<lparr>freeblock := freeblock s + 1\<rparr>)"

definition direct_block :: "nat \<Rightarrow> inode \<Rightarrow> mkfs_state \<Rightarrow> inode \<times> mkfs_state" where
  "direct_block i din s =
     (if xint (addrs din i) = 0
      then let (a, s1) = take_block s in (din\<lparr>addrs := (addrs din)(i := a)\<rparr>, s1)
      else (din, s))"

definition append_block :: "nat \<Rightarrow> inode \<Rightarrow> mkfs_state \<Rightarrow> (uint32 \<times> inode \<times> mkfs_state) res" where
  "append_block fbn din s =
     (if fbn < NDIRECT then
        let (din1, s1) = direct_block fbn din s
        in Ok (xint (addrs din1 fbn), din1, s1)
      else
        let (din1, s1) = direct_block NDIRECT din s; ib = xint (addrs din1 NDIRECT); i = 4 * (fbn - NDIRECT)
        in bindr (rsect ib s1) (\<lambda>(indirect, s2).
             if bld32 indirect i = 0 then
               let (a, s3) = take_block s2
               in bindr (wsect ib (bst32 i a indirect) s3) (\<lambda>s4. Ok (xint a, din1, s4))
             else Ok (xint (bld32 indirect i), din1, s2)))"

lemma block_end_pos: "(n :: nat) < n div 1024 * 1024 + 1024" "n < 1024 + n div 1024 * 1024"
  using div_mult_mod_eq [of n 1024] mod_less_divisor [of 1024 n] by linarith+

function iappend_loop :: "uint8 list \<Rightarrow> uint32 \<Rightarrow> inode \<Rightarrow> mkfs_state \<Rightarrow> (uint32 \<times> inode \<times> mkfs_state) res" where
  "iappend_loop p off din s =
     (if p = [] then Ok (off, din, s)
      else let fbn = unat off div BSIZE
        in if \<not> fbn < MAXFILE then Panic ''assert''
           else bindr (append_block fbn din s) (\<lambda>(x, din1, s1).
             let n1 = min (length p) ((fbn + 1) * BSIZE - unat off)
             in bindr (rsect x s1) (\<lambda>(buf, s2).
                bindr (wsect x (put_bytes (unat off - fbn * BSIZE) (take n1 p) buf) s2) (\<lambda>s3.
                iappend_loop (drop n1 p) (off + of_nat n1) din1 s3))))"
  by pat_completeness auto
termination
  by (relation "measure (\<lambda>(p, off, din, s). length p)") (auto simp: block_end_pos)

declare iappend_loop.simps [simp del]

definition iappend :: "uint32 \<Rightarrow> uint8 list \<Rightarrow> mkfs_state \<Rightarrow> mkfs_state res" where
  "iappend k p s =
     bindr (rinode k s) (\<lambda>(din, s1).
     bindr (iappend_loop p (xint (isize din)) din s1) (\<lambda>(off, din1, s2).
     winode k (din1\<lparr>isize := xint off\<rparr>) s2))"

definition dirent_bytes :: "uint32 \<Rightarrow> uint8 list \<Rightarrow> uint8 list" where
  "dirent_bytes k name =
     (let i = xshort (ucast k)
      in [ucast i, ucast (drop_bit 8 i)] @ take DIRSIZ (name @ replicate DIRSIZ 0))"

definition sb_block :: "superblock \<Rightarrow> block" where
  "sb_block b = bst32 28 (bmapstart b) (bst32 24 (inodestart b) (bst32 20 (logstart b) (bst32 16 (nlog b)
     (bst32 12 (ninodes b) (bst32 8 (nblocks b) (bst32 4 (sb_size b) (bst32 0 (magic b) (\<lambda>_. 0))))))))"

definition mk_sb :: superblock where
  "mk_sb = \<lparr>magic = FSMAGIC, sb_size = xint (of_nat FSSIZE), nblocks = xint (of_nat (FSSIZE - nmeta)), ninodes = xint (of_nat NINODES),
     nlog = xint (of_nat mk_nlog), logstart = xint 2, inodestart = xint (of_nat (2 + mk_nlog)),
     bmapstart = xint (of_nat (2 + mk_nlog + ninodeblocks))\<rparr>"

definition mk_start :: "(nat \<Rightarrow> bool) \<Rightarrow> mkfs_state res" where
  "mk_start faults =
     (let s = \<lparr>blocks = \<lambda>_ _. 0, img_len = 0, fault = faults, ops = 0, msb = mk_sb, freeinode = 1, freeblock = of_nat nmeta\<rparr>
      in bindr (foldM (\<lambda>i. wsect (of_nat i) (\<lambda>_. 0)) [0..<FSSIZE] s) (\<lambda>s1.
         bindr (wsect 1 (sb_block (msb s1)) s1) (\<lambda>s2.
         bindr (mk_ialloc T_DIR s2) (\<lambda>(rootino, s3).
           if rootino \<noteq> ROOTINO then Panic ''assert''
           else bindr (iappend rootino (dirent_bytes rootino [46]) s3)
                  (iappend rootino (dirent_bytes rootino [46, 46]))))))"

definition shortname :: "uint8 list \<Rightarrow> uint8 list" where
  "shortname path = (if take 5 path = [117, 115, 101, 114, 47] then drop 5 path else path)"

definition skip_underscore :: "uint8 list \<Rightarrow> uint8 list" where
  "skip_underscore name = (if take 1 name = [95] then drop 1 name else name)"

definition add_file :: "(uint8 list \<Rightarrow> uint8 list list option) \<Rightarrow> uint8 list \<Rightarrow> mkfs_state \<Rightarrow> mkfs_state res" where
  "add_file host path s =
     (if 47 \<in> set (shortname path) then Panic ''assert''
      else case host path of
        None \<Rightarrow> Panic ''open''
      | Some chunks \<Rightarrow>
          let name = skip_underscore (shortname path)
          in if DIRSIZ < length name then Panic ''assert''
             else bindr (mk_ialloc T_FILE s) (\<lambda>(k, s1).
                  bindr (iappend ROOTINO (dirent_bytes k name) s1)
                    (foldM (iappend k) chunks)))"

definition mk_finish :: "mkfs_state \<Rightarrow> mkfs_state res" where
  "mk_finish s =
     bindr (rinode ROOTINO s) (\<lambda>(din, s1).
       let off = xint (isize din); off1 = (off div 1024 + 1) * 1024
       in bindr (winode ROOTINO (din\<lparr>isize := xint off1\<rparr>) s1) (\<lambda>s2. mk_balloc (freeblock s2) s2))"

definition mkfs_main :: "(uint8 list \<Rightarrow> uint8 list list option) \<Rightarrow> (nat \<Rightarrow> bool) \<Rightarrow> bool \<Rightarrow> uint8 list list \<Rightarrow> mkfs_state res" where
  "mkfs_main host faults opens argv =
     (if length argv < 2 then Panic ''Usage: mkfs fs.img files...''
      else if \<not> opens then Panic ''open''
      else bindr (mk_start faults) (\<lambda>s.
           bindr (foldM (add_file host) (drop 2 argv) s) mk_finish))"

section \<open>Bytes and words\<close>

lemma xint_id [simp]: "xint x = x"
  using bld32_bst32 [of 0 x "\<lambda>_. 0"] by (simp add: xint_def bst32_def numeral_2_eq_2)

lemma xshort_id [simp]: "xshort x = x"
  using bld16_bst16 [of 0 x "\<lambda>_. 0"] by (simp add: xshort_def bst16_def)

lemma sect_pos_small [simp]: "x < 4194304 \<Longrightarrow> sect_pos x = unat x"
  by (simp add: sect_pos_def unat_word_ariths word_less_nat_alt)

section \<open>The image as files\<close>

text \<open>The blocks of a file: \<open>slot 0\<close> to \<open>slot 267\<close> hold its contents, \<open>slot 268\<close> is the indirect block, 0 stands for none.\<close>

definition slot :: "(nat \<Rightarrow> block) \<Rightarrow> inode \<Rightarrow> nat \<Rightarrow> nat" where
  "slot B d j =
     (if j < 12 then unat (addrs d j)
      else if j = 268 then unat (addrs d 12)
      else if 268 < j \<or> addrs d 12 = 0 then 0
      else unat (bld32 (B (unat (addrs d 12))) (4 * (j - 12))))"

definition contents :: "(nat \<Rightarrow> block) \<Rightarrow> inode \<Rightarrow> uint8 list" where
  "contents B d = map (\<lambda>x. B (slot B d (x div 1024)) (x mod 1024)) [0..<unat (isize d)]"

text \<open>Blocks are given out from 47 on, each for one purpose.\<close>

definition separate :: "(nat \<Rightarrow> nat \<Rightarrow> nat) \<Rightarrow> nat \<Rightarrow> bool" where
  "separate f n \<longleftrightarrow> (\<forall>k j. f k j \<noteq> 0 \<longrightarrow> 47 \<le> f k j \<and> f k j < n) \<and>
     (\<forall>k j k' j'. f k j \<noteq> 0 \<longrightarrow> f k j = f k' j' \<longrightarrow> k = k' \<and> j = j')"

definition start_of :: "nat \<Rightarrow> nat" where
  "start_of j = (if j = 268 then 12 * 1024 else j * 1024)"

definition layout :: "(nat \<Rightarrow> block) \<Rightarrow> (nat \<Rightarrow> inode) \<Rightarrow> nat \<Rightarrow> bool" where
  "layout B D n \<longleftrightarrow> separate (\<lambda>k. slot B (D k)) n \<and> 47 \<le> n \<and> (\<forall>b \<ge> n. B b = (\<lambda>_. 0)) \<and>
     (\<forall>k. unat (isize (D k)) \<le> 268 * 1024) \<and>
     (\<forall>k j. slot B (D k) j \<noteq> 0 \<longleftrightarrow> j \<le> 268 \<and> start_of j < unat (isize (D k)))"

lemma separate_grow:
  assumes "separate f n" "47 \<le> n"
  shows "separate (f(k := (f k)(j := n))) (Suc n)"
proof -
  have r: "f k' j' \<noteq> n" "n \<noteq> f k' j'" for k' j'
    using assms unfolding separate_def by (metis less_irrefl not_numeral_le_zero)+
  then show ?thesis
    using assms unfolding separate_def by (auto simp: less_Suc_eq r)
qed

lemma separate_range: "separate f n \<Longrightarrow> f k j \<noteq> 0 \<Longrightarrow> 47 \<le> f k j \<and> f k j < n"
  and separate_inj: "separate f n \<Longrightarrow> f k j \<noteq> 0 \<Longrightarrow> f k j = f k' j' \<Longrightarrow> k = k' \<and> j = j'"
  unfolding separate_def by blast+

lemma slot_isize [simp]: "slot B (d\<lparr>isize := x\<rparr>) = slot B d"
  by (simp add: slot_def fun_eq_iff)

lemma slot_direct: "i \<le> 12 \<Longrightarrow> i = 12 \<longrightarrow> addrs d 12 = 0 \<and> B (unat a) = (\<lambda>_. 0) \<Longrightarrow>
  slot B (d\<lparr>addrs := (addrs d)(i := a)\<rparr>) = (slot B d)((if i = 12 then 268 else i) := unat a)"
  by (auto simp: slot_def fun_eq_iff bld32_def)

lemma slot_indirect:
  assumes "addrs d 12 \<noteq> 0" "12 \<le> j" "j < 268"
  shows "slot (B(unat (addrs d 12) := bst32 (4 * (j - 12)) a (B (unat (addrs d 12))))) d = (slot B d)(j := unat a)"
proof
  fix j'
  have "bld32 (bst32 (4 * (j - 12)) a c) (4 * (j' - 12)) = bld32 c (4 * (j' - 12))" if "j' \<noteq> j" "12 \<le> j'" for c
    using that assms(2) by (intro bld32_bst32_other) auto
  with assms show "slot (B(unat (addrs d 12) := bst32 (4 * (j - 12)) a (B (unat (addrs d 12))))) d j' = ((slot B d)(j := unat a)) j'"
    by (auto simp: slot_def bld32_bst32)
qed

lemma slot_cong: "(slot B d 268 \<noteq> 0 \<Longrightarrow> B' (slot B d 268) = B (slot B d 268)) \<Longrightarrow> slot B' d = slot B d"
  by (rule ext) (auto simp: slot_def unat_eq_0)

text \<open>Giving a fresh block to slot \<open>j\<close> of file \<open>k\<close>, unless it has one.\<close>

definition grown :: "(nat \<Rightarrow> nat \<Rightarrow> nat) \<Rightarrow> nat \<Rightarrow> (nat \<Rightarrow> nat \<Rightarrow> nat) \<Rightarrow> nat \<Rightarrow> nat \<Rightarrow> nat \<Rightarrow> bool" where
  "grown f n f' n' k j \<longleftrightarrow> (if f k j = 0 then f' = f(k := (f k)(j := n)) \<and> n' = Suc n else f' = f \<and> n' = n)"

lemma grown_facts:
  assumes "grown f n f' n' k j" "separate f n" "47 \<le> n"
  shows "separate f' n'" "f' k j \<noteq> 0" "f' k' j' \<noteq> 0 \<longleftrightarrow> f k' j' \<noteq> 0 \<or> k' = k \<and> j' = j" "f k' j' \<noteq> 0 \<Longrightarrow> f' k' j' = f k' j'"
    "n \<le> n'" "n' \<le> Suc n" "f' k' j' \<noteq> f k' j' \<Longrightarrow> f' k' j' = n"
  using assms separate_grow [of f n k j] by (auto simp: grown_def split: if_splits)

section \<open>Operations on a working host\<close>

definition calm :: "mkfs_state \<Rightarrow> bool" where
  "calm s \<longleftrightarrow> (\<forall>n. \<not> fault s n) \<and> img_len s = 2000 \<and> msb s = mk_sb"

definition same_host :: "mkfs_state \<Rightarrow> mkfs_state \<Rightarrow> bool" where
  "same_host s s' \<longleftrightarrow> fault s' = fault s \<and> img_len s' = img_len s \<and> msb s' = msb s \<and> freeinode s' = freeinode s"

lemma same_host_trans [trans]: "same_host s t \<Longrightarrow> same_host t u \<Longrightarrow> same_host s u"
  by (simp add: same_host_def)

lemma calm_same: "calm s \<Longrightarrow> same_host s s' \<Longrightarrow> calm s'"
  by (simp add: calm_def same_host_def)

lemma small_sect: "unat x < 2000 \<Longrightarrow> sect_pos x = unat x"
  by (intro sect_pos_small) (simp add: word_less_nat_alt)

lemma rsect_ok: "calm s \<Longrightarrow> unat x < 2000 \<Longrightarrow> rsect x s = Ok (blocks s (unat x), s\<lparr>ops := ops s + 2\<rparr>)"
  by (simp add: rsect_def calm_def small_sect)

lemma wsect_ok:
  "calm s \<Longrightarrow> unat x < 2000 \<Longrightarrow> wsect x b s = Ok (s\<lparr>ops := ops s + 2, blocks := (blocks s)(unat x := b)\<rparr>)"
  by (simp add: wsect_def calm_def small_sect max_def)

lemma unat_next: "unat x < 2000 \<Longrightarrow> unat (x + 1 :: uint32) = Suc (unat x)"
  by (simp add: unat_word_ariths)

lemma direct_block_ok:
  assumes "i \<le> 12" "unat (freeblock s) < 2000" "blocks s (unat (freeblock s)) = (\<lambda>_. 0)"
    and j: "j = (if i = 12 then 268 else i)" and f: "f = (\<lambda>k'. slot (blocks s) ((D(k := d)) k'))"
  obtains d' s' where "direct_block i d s = (d', s')" "blocks s' = blocks s" "same_host s s'" "d' = d\<lparr>addrs := addrs d'\<rparr>"
    "grown f (unat (freeblock s)) (\<lambda>k'. slot (blocks s') ((D(k := d')) k')) (unat (freeblock s')) k j"
proof (cases "addrs d i = 0")
  case True
  let ?d = "d\<lparr>addrs := (addrs d)(i := freeblock s)\<rparr>" and ?s = "s\<lparr>freeblock := freeblock s + 1\<rparr>"
  have "slot (blocks s) ?d = (slot (blocks s) d)(j := unat (freeblock s))"
    unfolding j using assms True by (intro slot_direct) auto
  moreover have "slot (blocks s) d j = 0" using True assms(1) by (auto simp: slot_def j)
  ultimately have "grown f (unat (freeblock s)) (\<lambda>k'. slot (blocks ?s) ((D(k := ?d)) k')) (unat (freeblock ?s)) k j"
    using unat_next [OF assms(2)] by (auto simp: grown_def fun_eq_iff f)
  then show thesis using True by (intro that [of ?d ?s]) (simp_all add: direct_block_def take_block_def same_host_def)
next
  case False
  then have "slot (blocks s) d j \<noteq> 0" using assms(1) by (auto simp: slot_def unat_gt_0 j)
  then show thesis using False by (intro that [of d s]) (simp_all add: direct_block_def same_host_def grown_def f)
qed

lemma indirect_grown:
  assumes "calm s" "separate (\<lambda>k'. slot (blocks s) ((D(k := d)) k')) (unat (freeblock s))" "addrs d 12 \<noteq> 0" "12 \<le> j" "j < 268"
    "slot (blocks s) d j = 0" "unat (freeblock s) < 2000" "ib = unat (addrs d 12)"
    "B' = (blocks s)(ib := bst32 (4 * (j - 12)) (freeblock s) (blocks s ib))"
  shows "grown (\<lambda>k'. slot (blocks s) ((D(k := d)) k')) (unat (freeblock s)) (\<lambda>k'. slot B' ((D(k := d)) k')) (Suc (unat (freeblock s))) k j"
proof -
  have "slot B' (D k') = slot (blocks s) (D k')" if "k' \<noteq> k" for k'
  proof (rule slot_cong)
    assume n: "slot (blocks s) (D k') 268 \<noteq> 0"
    have "slot (blocks s) (D k') 268 \<noteq> slot (blocks s) d 268"
      using assms(2) that n unfolding separate_def by (metis fun_upd_apply)
    then show "B' (slot (blocks s) (D k') 268) = blocks s (slot (blocks s) (D k') 268)"
      using assms(8,9) by (simp add: slot_def)
  qed
  moreover have "slot B' d = (slot (blocks s) d)(j := unat (freeblock s))"
    using slot_indirect [OF assms(3-5), of "blocks s" "freeblock s"] assms(8,9) by simp
  ultimately show ?thesis using assms(6) by (auto simp: grown_def fun_eq_iff)
qed

lemma append_block_ok:
  assumes c: "calm s" and j: "j < 268" and f: "f = (\<lambda>k'. slot (blocks s) ((D(k := d)) k'))" and sep: "separate f (unat (freeblock s))"
    and n: "47 \<le> unat (freeblock s)" "unat (freeblock s) + (if f k 268 = 0 then 1 else 0) < 2000"
    and z: "\<forall>b \<ge> unat (freeblock s). blocks s b = (\<lambda>_. 0)"
  obtains x d' s' f1 n1 where "append_block j d s = Ok (x, d', s')" "same_host s s'" "d' = d\<lparr>addrs := addrs d'\<rparr>"
    "if j < 12 then f1 = f \<and> n1 = unat (freeblock s) else grown f (unat (freeblock s)) f1 n1 k 268"
    "grown f1 n1 (\<lambda>k'. slot (blocks s') ((D(k := d')) k')) (unat (freeblock s')) k j" "unat x = slot (blocks s') d' j"
    "\<forall>b. b = 0 \<or> b \<noteq> slot (blocks s') d' 268 \<longrightarrow> blocks s' b = blocks s b"
proof (cases "j < 12")
  case True
  have fb: "unat (freeblock s) < 2000" using n by linarith
  obtain d' s' where "direct_block j d s = (d', s')" "blocks s' = blocks s" "same_host s s'" "d' = d\<lparr>addrs := addrs d'\<rparr>"
    "grown f (unat (freeblock s)) (\<lambda>k'. slot (blocks s') ((D(k := d')) k')) (unat (freeblock s')) k j"
    by (rule direct_block_ok [OF less_imp_le [OF True] fb z [rule_format, OF order_refl] _ f, of j]) (use True in auto)
  then show thesis using True
    by (intro that [of "addrs d' j" d' s' f "unat (freeblock s)"]) (auto simp: append_block_def slot_def)
next
  case False
  have fb: "unat (freeblock s) < 2000" using n by linarith
  obtain d1 s1 where r: "direct_block 12 d s = (d1, s1)" "blocks s1 = blocks s" "same_host s s1" "d1 = d\<lparr>addrs := addrs d1\<rparr>"
    and g: "grown f (unat (freeblock s)) (\<lambda>k'. slot (blocks s1) ((D(k := d1)) k')) (unat (freeblock s1)) k 268"
    by (rule direct_block_ok [OF order_refl fb z [rule_format, OF order_refl] _ f, of 268]) auto
  let ?f1 = "\<lambda>k'. slot (blocks s1) ((D(k := d1)) k')"
  note gf = grown_facts [OF g sep n(1)]
  have n1: "unat (freeblock s1) < 2000" using g n(2) by (auto simp: grown_def split: if_splits)
  have ib: "slot (blocks s1) d1 268 = unat (addrs d1 12)" by (simp add: slot_def)
  have nz: "addrs d1 12 \<noteq> 0" using gf(2) ib by (auto simp: unat_gt_0)
  then have nzu: "0 < unat (addrs d1 12)" by (simp add: unat_gt_0)
  have b: "unat (addrs d1 12) < unat (freeblock s1)" using separate_range [OF gf(1,2)] ib by simp
  have c1: "calm s1" by (rule calm_same [OF c r(3)])
  have rs: "rsect (addrs d1 12) s1 = Ok (blocks s1 (unat (addrs d1 12)), s1\<lparr>ops := ops s1 + 2\<rparr>)"
    using b n1 by (intro rsect_ok [OF c1]) linarith
  have sj: "slot (blocks s1) d1 j = unat (bld32 (blocks s1 (unat (addrs d1 12))) (4 * (j - 12)))"
    using False j nz by (simp add: slot_def)
  show thesis
  proof (cases "slot (blocks s1) d1 j = 0")
    case True
    let ?b = "bst32 (4 * (j - 12)) (freeblock s1) (blocks s1 (unat (addrs d1 12)))"
    let ?s = "s1\<lparr>freeblock := freeblock s1 + 1, ops := ops s1 + 2 + 2, blocks := (blocks s1)(unat (addrs d1 12) := ?b)\<rparr>"
    have ap: "append_block j d s = Ok (freeblock s1, d1, ?s)"
      using False r(1) rs True sj wsect_ok [of "s1\<lparr>ops := ops s1 + 2, freeblock := freeblock s1 + 1\<rparr>" "addrs d1 12" ?b] c1 b n1
      by (simp add: append_block_def take_block_def unat_eq_0 calm_def Let_def)
    have ig: "grown ?f1 (unat (freeblock s1)) (\<lambda>k'. slot (blocks ?s) ((D(k := d1)) k')) (Suc (unat (freeblock s1))) k j"
      using indirect_grown [OF c1 gf(1) nz, of j "unat (addrs d1 12)" "blocks ?s"] False j True n1 by simp
    show thesis
    proof (rule that [OF ap])
      show "unat (freeblock s1) = slot (blocks ?s) d1 j"
        using slot_indirect [OF nz _ j, of "blocks s1" "freeblock s1"] False by simp
    qed (use False g ig r n1 nzu unat_next [OF n1] in \<open>auto simp: same_host_def slot_def\<close>)
  next
    case nzj: False
    have ap: "append_block j d s = Ok (bld32 (blocks s1 (unat (addrs d1 12))) (4 * (j - 12)), d1, s1\<lparr>ops := ops s1 + 2\<rparr>)"
      using False r(1) rs nzj sj by (auto simp: append_block_def Let_def)
    show thesis
      by (rule that [OF ap]) (use False g r nzj sj in \<open>auto simp: same_host_def grown_def\<close>)
  qed
qed

section \<open>One block of an append\<close>

lemma two_grown:
  assumes "separate f n" "47 \<le> n" "if j < 12 then f1 = f \<and> n1 = n else grown f n f1 n1 k 268" "grown f1 n1 f' n' k j"
  shows "separate f' n'" "f' k j \<noteq> 0" "n \<le> n'" "f k' i \<noteq> 0 \<Longrightarrow> f' k' i = f k' i"
    "f' k' i \<noteq> 0 \<longleftrightarrow> f k' i \<noteq> 0 \<or> k' = k \<and> (i = j \<or> 12 \<le> j \<and> i = 268)"
    "n' + (if f' k 268 = 0 then 1 else 0) \<le> Suc (n + (if f k 268 = 0 then 1 else 0))"
proof -
  have 1: "separate f1 n1" "47 \<le> n1" "n \<le> n1" "f k' i \<noteq> 0 \<Longrightarrow> f1 k' i = f k' i"
    "f1 k' i \<noteq> 0 \<longleftrightarrow> f k' i \<noteq> 0 \<or> k' = k \<and> 12 \<le> j \<and> i = 268"
    "n1 + (if f1 k 268 = 0 then 1 else 0) \<le> n + (if f k 268 = 0 then 1 else 0)" for k' i
    using assms(1-3) grown_facts [of f n f1 n1 k 268] by (auto simp: grown_def split: if_splits)
  note 2 = grown_facts [OF assms(4) 1(1,2)]
  show "separate f' n'" "f' k j \<noteq> 0" "n \<le> n'" using 1(3) 2(1,2,5) by auto
  show "f k' i \<noteq> 0 \<Longrightarrow> f' k' i = f k' i" using 1(4,5) 2(4) by metis
  show "f' k' i \<noteq> 0 \<longleftrightarrow> f k' i \<noteq> 0 \<or> k' = k \<and> (i = j \<or> 12 \<le> j \<and> i = 268)" using 1(5) 2(3) by blast
  show "n' + (if f' k 268 = 0 then 1 else 0) \<le> Suc (n + (if f k 268 = 0 then 1 else 0))"
    using 1(6) 2(3) [of k 268] 2(6) by (auto split: if_splits)
qed

lemma block_written:
  assumes "separate f' n'" "f' = (\<lambda>k'. slot B' (D' k'))" "x = f' k j" "x \<noteq> 0" "j < 268"
    "\<forall>b. b = 0 \<or> b \<noteq> f' k 268 \<longrightarrow> B' b = B b" "B'' = B'(x := c)"
  shows "slot B'' (D' k') = f' k'" "f' k' i \<noteq> 0 \<Longrightarrow> i < 268 \<Longrightarrow> (k', i) \<noteq> (k, j) \<Longrightarrow> B'' (f' k' i) = B (f' k' i)"
    "b < 47 \<Longrightarrow> B'' b = B b" "B' x = B x" "n' \<le> b \<Longrightarrow> B'' b = B b"
proof -
  note inj = separate_inj [OF assms(1)] and rng = separate_range [OF assms(1)]
  have "slot B'' (D' k') = slot B' (D' k')"
  proof (rule slot_cong)
    assume "slot B' (D' k') 268 \<noteq> 0"
    with inj [of k' 268 k j] assms(2,3,5) have "slot B' (D' k') 268 \<noteq> x" by auto
    then show "B'' (slot B' (D' k') 268) = B' (slot B' (D' k') 268)" using assms(7) by simp
  qed
  then show "slot B'' (D' k') = f' k'" using assms(2) by simp
  show "B'' (f' k' i) = B (f' k' i)" if "f' k' i \<noteq> 0" "i < 268" "(k', i) \<noteq> (k, j)"
    using inj [OF that(1), of k j] inj [OF that(1), of k 268] that assms(3,6,7) by auto
  show "B' x = B x" using inj [of k j k 268] assms(3-6) by auto
  have "B'' b = B b" if "b < 47 \<or> n' \<le> b"
  proof -
    have "b = 0 \<or> b \<noteq> f' k 268" using that rng [of k 268] by (cases "f' k 268 = 0") auto
    moreover have "b \<noteq> x" using that rng [of k j] assms(3,4) by auto
    ultimately show ?thesis using assms(6,7) by auto
  qed
  then show "b < 47 \<Longrightarrow> B'' b = B b" "n' \<le> b \<Longrightarrow> B'' b = B b" by blast+
qed

lemma slot_used:
  assumes "layout B D n" "x < unat (isize (D k))"
  shows "slot B (D k) (x div 1024) \<noteq> 0" "x div 1024 < 268"
proof -
  have "unat (isize (D k)) \<le> 268 * 1024" using assms(1) by (simp add: layout_def)
  with assms(2) show l: "x div 1024 < 268" by (simp add: less_mult_imp_div_less)
  have "x div 1024 * 1024 \<le> x" by simp
  with assms l show "slot B (D k) (x div 1024) \<noteq> 0" by (simp add: layout_def start_of_def)
qed

lemma append_step:
  assumes lay: "layout B D n" and off: "isize (D k) = off" "j = unat off div 1024" "j < 268"
    and q: "q \<noteq> []" "unat off + length q \<le> (j + 1) * 1024"
    and g: "if j < 12 then f1 = f \<and> n1 = n else grown f n f1 n1 k 268" "grown f1 n1 f' n' k j"
    and f: "f = (\<lambda>k'. slot B (D k'))" "f' = (\<lambda>k'. slot B' (D' k'))" "x = f' k j"
    and D': "\<And>k'. isize (D' k') = (if k' = k then off + of_nat (length q) else isize (D k'))" "\<forall>k'. k' \<noteq> k \<longrightarrow> D' k' = D k'"
    and B: "\<forall>b. b = 0 \<or> b \<noteq> f' k 268 \<longrightarrow> B' b = B b" "B'' = B'(x := put_bytes (unat off - j * 1024) q (B' x))"
  shows "layout B'' D' n'" "contents B'' (D' k) = contents B (D k) @ q" "k' \<noteq> k \<Longrightarrow> contents B'' (D' k') = contents B (D k')"
    "b < 47 \<Longrightarrow> B'' b = B b"
proof -
  have l: "separate f n" "47 \<le> n" "\<And>b. n \<le> b \<Longrightarrow> B b = (\<lambda>_. 0)" "\<And>k. unat (isize (D k)) \<le> 268 * 1024"
    "\<And>k j. f k j \<noteq> 0 \<longleftrightarrow> j \<le> 268 \<and> start_of j < unat (isize (D k))"
    using lay unfolding layout_def f(1) by auto
  note tg = two_grown [OF l(1,2) g]
  note bw = block_written [OF tg(1) f(2,3) _ off(3) B]
  have x: "x \<noteq> 0" using tg(2) f(3) by simp
  have oj: "j * 1024 \<le> unat off" "unat off < j * 1024 + 1024" unfolding off(2) using block_end_pos(1) [of "unat off"] by simp_all
  have size: "unat (off + of_nat (length q)) = unat off + length q"
    using q(2) off(3) by (simp add: unat_word_ariths unat_of_nat)
  have sl: "slot B'' (D' k') = f' k'" for k' by (rule bw(1) [OF x])
  have ds: "start_of i < unat (isize (D' k')) \<longleftrightarrow> start_of i < unat (isize (D k')) \<or> k' = k \<and> (i = j \<or> 12 \<le> j \<and> i = 268)" if "i \<le> 268" for k' i
    using that oj q off(1,3) size D'(1) [of k'] by (cases "k' = k") (auto simp: start_of_def length_greater_0_conv [symmetric] simp del: length_greater_0_conv)
  show "layout B'' D' n'"
    unfolding layout_def sl
  proof (intro conjI allI impI)
    show "separate f' n'" by (rule tg(1))
    show "47 \<le> n'" using tg(3) l(2) by simp
    show "B'' b = (\<lambda>_. 0)" if "n' \<le> b" for b using bw(5) [OF x that] l(3) [of b] that tg(3) by simp
    show "unat (isize (D' k')) \<le> 268 * 1024" for k' using l(4) [of k'] D'(1) [of k'] size q(2) off(3) by auto
    show "f' k' i \<noteq> 0 \<longleftrightarrow> i \<le> 268 \<and> start_of i < unat (isize (D' k'))" for k' i
      using tg(5) [of k' i] l(5) [of k' i] ds [of i k'] off(3) by auto
  qed
  have xb: "B'' x = put_bytes (unat off - j * 1024) q (B' x)" using B(2) by simp
  have byte: "B'' (slot B'' (D' k') (y div 1024)) (y mod 1024) = B (slot B (D k') (y div 1024)) (y mod 1024)" if "y < unat (isize (D k'))" for k' y
  proof -
    note u = slot_used [OF lay that]
    have e: "f' k' (y div 1024) = slot B (D k') (y div 1024)" using tg(4) u(1) by (simp add: f(1))
    show ?thesis
    proof (cases "(k', y div 1024) = (k, j)")
      case False
      with bw(2) [OF x, of k' "y div 1024"] e u show ?thesis by (simp add: sl)
    next
      case True
      then have "y mod 1024 < unat off - j * 1024" using that off(1) minus_div_mult_eq_mod [of y 1024] oj by auto
      then show ?thesis using True xb bw(4) [OF x] e f(3) by (simp add: sl put_bytes_def)
    qed
  qed
  show "contents B'' (D' k') = contents B (D k')" if "k' \<noteq> k" for k'
    unfolding contents_def using D'(1) [of k'] that byte [of _ k'] by (simp add: D'(2) [rule_format, OF that])
  show "b < 47 \<Longrightarrow> B'' b = B b" by (rule bw(3) [OF x])
  have new: "B'' (slot B'' (D' k) ((unat off + i) div 1024)) ((unat off + i) mod 1024) = q ! i" if "i < length q" for i
  proof -
    have d: "(unat off + i) div 1024 = j" using oj q(2) that by (intro div_nat_eqI) auto
    then have "(unat off + i) mod 1024 = unat off - j * 1024 + i" using minus_div_mult_eq_mod [of "unat off + i" 1024] oj by auto
    with d that f(3) xb show ?thesis by (simp add: sl put_bytes_def)
  qed
  show "contents B'' (D' k) = contents B (D k) @ q"
  proof (rule nth_equalityI)
    show "length (contents B'' (D' k)) = length (contents B (D k) @ q)" using size D'(1) [of k] off(1) by (simp add: contents_def)
    fix i assume "i < length (contents B'' (D' k))"
    then have i: "i < unat off + length q" using size D'(1) [of k] by (simp add: contents_def)
    show "contents B'' (D' k) ! i = (contents B (D k) @ q) ! i"
    proof (cases "i < unat off")
      case True
      then show ?thesis using byte [of i k] i size D'(1) [of k] off(1) by (simp add: contents_def nth_append)
    next
      case False
      then show ?thesis using new [of "i - unat off"] i size D'(1) [of k] off(1) by (simp add: contents_def nth_append)
    qed
  qed
qed

section \<open>Appending\<close>

text \<open>The number of blocks an append touches.\<close>

definition need :: "nat \<Rightarrow> nat \<Rightarrow> nat" where
  "need off l = (if l = 0 then 0 else (off mod 1024 + l + 1023) div 1024)"

lemma need_step:
  assumes "0 < l" "m = min l ((off div 1024 + 1) * 1024 - off)"
  shows "Suc (need (off + m) (l - m)) \<le> need off l" "0 < m"
proof -
  define a b where ab: "a = off div 1024" "b = off mod 1024"
  then have o: "off = a * 1024 + b" "b < 1024" by simp_all
  have m: "m = min l (1024 - b)" unfolding assms(2) ab(1) [symmetric] using o by (simp add: algebra_simps)
  with assms(1) o(2) show "0 < m" by simp
  show "Suc (need (off + m) (l - m)) \<le> need off l"
  proof (cases "l \<le> 1024 - b")
    case True
    have "1 \<le> (b + l + 1023) div 1024" using assms(1) by (simp add: less_eq_div_iff_mult_less_eq)
    with True m assms(1) show ?thesis by (simp add: need_def min_def ab(2) [symmetric])
  next
    case False
    then have e: "m + b = 1024" "m < l" using m o(2) by simp_all
    have "off + m = (a + 1) * 1024" using e(1) by (simp add: o(1))
    then have "(off + m) mod 1024 = 0" by (metis mod_mult_self2_is_0)
    moreover have "b + l + 1023 = (l - m + 1023) + 1024" using e by simp
    then have "(b + l + 1023) div 1024 = Suc ((l - m + 1023) div 1024)" by (metis Suc_eq_plus1 div_add_self2 zero_neq_numeral)
    ultimately show ?thesis using e(2) by (simp add: need_def ab(2) [symmetric])
  qed
qed

text \<open>The indirect block that may still have to be allocated.\<close>

definition missing :: "inode \<Rightarrow> nat" where
  "missing d = (if addrs d 12 = 0 then 1 else 0)"

lemma missing_slot: "(if slot B d 268 = 0 then 1 else 0) = missing d"
  by (auto simp: slot_def missing_def unat_eq_0)

lemma iappend_loop_ok:
  assumes "calm s" "layout (blocks s) (D(k := d\<lparr>isize := off\<rparr>)) (unat (freeblock s))" "unat off + length p \<le> 268 * 1024"
    "unat (freeblock s) + missing d + need (unat off) (length p) \<le> 2000"
  shows "\<exists>off' d' s'. iappend_loop p off d s = Ok (off', d', s') \<and> same_host s s' \<and> unat off' = unat off + length p \<and>
    layout (blocks s') (D(k := d'\<lparr>isize := off'\<rparr>)) (unat (freeblock s')) \<and>
    contents (blocks s') (d'\<lparr>isize := off'\<rparr>) = contents (blocks s) (d\<lparr>isize := off\<rparr>) @ p \<and>
    (\<forall>k'. k' \<noteq> k \<longrightarrow> contents (blocks s') (D k') = contents (blocks s) (D k')) \<and> (\<forall>b < 47. blocks s' b = blocks s b) \<and>
    d' = d\<lparr>addrs := addrs d'\<rparr> \<and> unat (freeblock s') + missing d' \<le> unat (freeblock s) + missing d + need (unat off) (length p)"
  using assms
proof (induction p off d s rule: iappend_loop.induct)
  case (1 p off d s)
  show ?case
  proof (cases "p = []")
    case True
    then have "iappend_loop p off d s = Ok (off, d, s)" by (simp add: iappend_loop.simps [of "[]"])
    with True "1.prems"(2) show ?thesis by (intro exI [of _ off] exI [of _ d] exI [of _ s]) (simp add: same_host_def)
  next
    case False
    let ?j = "unat off div 1024" and ?D = "D(k := d\<lparr>isize := off\<rparr>)"
    let ?m = "min (length p) ((?j + 1) * 1024 - unat off)"
    let ?f = "\<lambda>k'. slot (blocks s) ((D(k := d)) k')"
    have lp: "0 < length p" using False by simp
    note ns = need_step [OF lp refl]
    have "unat off < 268 * 1024" using "1.prems"(3) lp by linarith
    then have j: "?j < 268" by (rule less_mult_imp_div_less)
    have fD: "?f = (\<lambda>k'. slot (blocks s) (?D k'))" by (auto simp: fun_eq_iff)
    have L: "separate ?f (unat (freeblock s))" "47 \<le> unat (freeblock s)" "\<forall>b \<ge> unat (freeblock s). blocks s b = (\<lambda>_. 0)"
      using "1.prems"(2) unfolding layout_def fD by auto
    have ms: "(if ?f k 268 = 0 then 1 else 0) = missing d" using missing_slot [of "blocks s" d] by simp
    have fb: "unat (freeblock s) + (if ?f k 268 = 0 then 1 else 0) < 2000" using "1.prems"(4) ns(1) [of "unat off"] unfolding ms by linarith
    obtain x d1 s1 f1 n1 where ab: "append_block ?j d s = Ok (x, d1, s1)" "same_host s s1" "d1 = d\<lparr>addrs := addrs d1\<rparr>"
      and g: "if ?j < 12 then f1 = ?f \<and> n1 = unat (freeblock s) else grown ?f (unat (freeblock s)) f1 n1 k 268"
        "grown f1 n1 (\<lambda>k'. slot (blocks s1) ((D(k := d1)) k')) (unat (freeblock s1)) k ?j"
      and x: "unat x = slot (blocks s1) d1 ?j" and bl: "\<forall>b. b = 0 \<or> b \<noteq> slot (blocks s1) d1 268 \<longrightarrow> blocks s1 b = blocks s b"
      by (rule append_block_ok [OF "1.prems"(1) j refl L(1,2) fb L(3)])
    let ?q = "take ?m p" and ?f' = "\<lambda>k'. slot (blocks s1) ((D(k := d1)) k')"
    let ?c = "put_bytes (unat off - ?j * 1024) ?q (blocks s1 (unat x))"
    let ?s = "s1\<lparr>ops := ops s1 + 2 + 2, blocks := (blocks s1)(unat x := ?c)\<rparr>" and ?off = "off + of_nat ?m"
    note tg = two_grown [OF L(1,2) g]
    have n': "unat (freeblock s1) + (if ?f' k 268 = 0 then 1 else 0) \<le> Suc (unat (freeblock s) + (if ?f k 268 = 0 then 1 else 0))" by (rule tg(6))
    have x2: "unat x < 2000" using separate_range [OF tg(1,2)] x n' fb by simp
    have ms': "(if ?f' k 268 = 0 then 1 else 0) = missing d1" using missing_slot [of "blocks s1" d1] by simp
    have n1: "unat (freeblock s1) + missing d1 \<le> Suc (unat (freeblock s) + missing d)" using n' unfolding ms ms' .
    have c1: "calm s1" by (rule calm_same [OF "1.prems"(1) ab(2)])
    have c3: "calm ?s" using c1 by (simp add: calm_def)
    have h3: "same_host s ?s" using ab(2) by (simp add: same_host_def)
    have eq: "iappend_loop p off d s = iappend_loop (drop ?m p) ?off d1 ?s"
      using False j ab(1) rsect_ok [OF c1 x2] wsect_ok [of "s1\<lparr>ops := ops s1 + 2\<rparr>" x ?c] c1 x2
      by (simp add: iappend_loop.simps [of p] Let_def calm_def)
    have lq: "length ?q = ?m" by simp
    have q: "?q \<noteq> []" "unat off + length ?q \<le> (?j + 1) * 1024" using ns(2) [of "unat off"] lp block_end_pos(1) [of "unat off"] by auto
    have f2: "?f' = (\<lambda>k'. slot (blocks s1) ((D(k := d1\<lparr>isize := ?off\<rparr>)) k'))" by (auto simp: fun_eq_iff)
    let ?D' = "D(k := d1\<lparr>isize := ?off\<rparr>)"
    have D': "isize (?D' k') = (if k' = k then off + of_nat (length ?q) else isize (?D k'))" "\<forall>k'. k' \<noteq> k \<longrightarrow> ?D' k' = ?D k'" for k'
      using lq by simp_all
    have o: "isize (?D k) = off" "unat x = ?f' k ?j" "blocks ?s = (blocks s1)(unat x := ?c)" using x by simp_all
    have bl': "\<forall>b. b = 0 \<or> b \<noteq> ?f' k 268 \<longrightarrow> blocks s1 b = blocks s b" using bl by simp
    note st = append_step [OF "1.prems"(2) o(1) refl j q g fD f2 o(2) D' bl' o(3)]
    have so: "unat ?off = unat off + ?m" using q(2) lq j by (simp add: unat_word_ariths unat_of_nat)
    have wq: "wsect x ?c (s1\<lparr>ops := ops s1 + 2\<rparr>) = Ok ?s" using wsect_ok [of "s1\<lparr>ops := ops s1 + 2\<rparr>" x ?c] c1 x2 by (simp add: calm_def)
    have jj: "\<not> \<not> ?j < 268" using j by simp
    have fs: "freeblock ?s = freeblock s1" by simp
    have lay: "layout (blocks ?s) ?D' (unat (freeblock ?s))" unfolding fs by (rule st(1))
    have r3: "unat ?off + length (drop ?m p) \<le> 268 * 1024" using "1.prems"(3) so by simp
    have r4: "unat (freeblock ?s) + missing d1 + need (unat ?off) (length (drop ?m p)) \<le> 2000"
      using n1 "1.prems"(4) ns(1) [of "unat off"] so by simp
    obtain off' d' s' where R: "iappend_loop (drop ?m p) ?off d1 ?s = Ok (off', d', s')" "same_host ?s s'"
      "unat off' = unat ?off + length (drop ?m p)"
      "layout (blocks s') (D(k := d'\<lparr>isize := off'\<rparr>)) (unat (freeblock s'))"
      "contents (blocks s') (d'\<lparr>isize := off'\<rparr>) = contents (blocks ?s) (d1\<lparr>isize := ?off\<rparr>) @ drop ?m p"
      "\<forall>k'. k' \<noteq> k \<longrightarrow> contents (blocks s') (D k') = contents (blocks ?s) (D k')" "\<forall>b < 47. blocks s' b = blocks ?s b"
      "d' = d1\<lparr>addrs := addrs d'\<rparr>" "unat (freeblock s') + missing d' \<le> unat (freeblock ?s) + missing d1 + need (unat ?off) (length (drop ?m p))"
      using "1.IH" [OF False refl jj ab(1) refl refl refl rsect_ok [OF c1 x2] refl wq c3 lay r3 r4] by blast
    show ?thesis
    proof (intro exI conjI)
      show "iappend_loop p off d s = Ok (off', d', s')" using eq R(1) by simp
      show "same_host s s'" by (rule same_host_trans [OF h3 R(2)])
      show "unat off' = unat off + length p" using R(3) so by simp
      show "layout (blocks s') (D(k := d'\<lparr>isize := off'\<rparr>)) (unat (freeblock s'))" by (rule R(4))
      have "contents (blocks ?s) (d1\<lparr>isize := ?off\<rparr>) = contents (blocks s) (d\<lparr>isize := off\<rparr>) @ ?q" using st(2) by (simp only: fun_upd_same)
      then show "contents (blocks s') (d'\<lparr>isize := off'\<rparr>) = contents (blocks s) (d\<lparr>isize := off\<rparr>) @ p"
        unfolding R(5) by (simp only: append_assoc append_take_drop_id)
      show "\<forall>k'. k' \<noteq> k \<longrightarrow> contents (blocks s') (D k') = contents (blocks s) (D k')"
      proof (intro allI impI)
        fix k' assume n: "k' \<noteq> k"
        from st(3) [OF n] R(6) [rule_format, OF n] show "contents (blocks s') (D k') = contents (blocks s) (D k')"
          by (simp only: fun_upd_other [OF n])
      qed
      show "\<forall>b < 47. blocks s' b = blocks s b" using trans [OF R(7) [rule_format] st(4)] by blast
      have "d1\<lparr>addrs := z\<rparr> = d\<lparr>addrs := z\<rparr>" for z by (subst ab(3)) simp
      from trans [OF R(8) this] show "d' = d\<lparr>addrs := addrs d'\<rparr>" .
      show "unat (freeblock s') + missing d' \<le> unat (freeblock s) + missing d + need (unat off) (length p)"
        using R(9) n1 ns(1) [of "unat off"] unfolding so length_drop fs by linarith
    qed
  qed
qed

section \<open>Inodes on the image\<close>

definition inode_of :: "(nat \<Rightarrow> block) \<Rightarrow> nat \<Rightarrow> inode" where
  "inode_of B k = (if k < 208 then get_dinode (k mod 16 * 64) (B (33 + k div 16)) dinode0 else dinode0)"

definition image_ok :: "mkfs_state \<Rightarrow> bool" where
  "image_ok s \<longleftrightarrow> layout (blocks s) (inode_of (blocks s)) (unat (freeblock s))"

definition file_of :: "mkfs_state \<Rightarrow> nat \<Rightarrow> uint8 list" where
  "file_of s k = contents (blocks s) (inode_of (blocks s) k)"

lemma mk_sb_starts: "inodestart mk_sb = 33" "bmapstart mk_sb = 46"
  by (simp_all add: mk_sb_def mk_nlog_def ninodeblocks_def)

lemma inode_pos:
  assumes "unat k < 208"
  shows "unat (IBLOCK k mk_sb) = 33 + unat k div 16" "dinode_off k = unat k mod 16 * 64" "33 + unat k div 16 < 47"
proof -
  show l: "33 + unat k div 16 < 47" using assms by simp
  show "unat (IBLOCK k mk_sb) = 33 + unat k div 16"
    using l by (simp add: IBLOCK_def mk_sb_starts unat_word_ariths unat_div)
  show "dinode_off k = unat k mod 16 * 64" by (simp add: dinode_off_def unat_mod)
qed

lemma put_dinode_outside: "x < a \<or> a + 64 \<le> x \<Longrightarrow> put_dinode a ip d x = d x"
  by (auto simp: put_dinode_def bst32_def bst16_def upt_rec)

lemma get_dinode_cong:
  assumes "\<And>x. a \<le> x \<Longrightarrow> x < a + 64 \<Longrightarrow> d' x = d x"
  shows "get_dinode a d' ip = get_dinode a d ip"
  using assms by (auto simp: get_dinode_def bld16_def bld32_def fun_eq_iff)

lemma inode_stored:
  assumes "k < 208" "B' = B(33 + k div 16 := put_dinode (k mod 16 * 64) d (B (33 + k div 16)))"
  shows "k' \<noteq> k \<Longrightarrow> inode_of B' k' = inode_of B k'" "isize (inode_of B' k) = isize d" "j < 13 \<Longrightarrow> addrs (inode_of B' k) j = addrs d j"
proof -
  show "inode_of B' k' = inode_of B k'" if "k' \<noteq> k"
  proof (cases "k' div 16 = k div 16")
    case True
    with that have "k' mod 16 \<noteq> k mod 16" by (metis div_mult_mod_eq)
    then have "k mod 16 * 64 + 64 \<le> k' mod 16 * 64 \<or> k' mod 16 * 64 + 64 \<le> k mod 16 * 64" by arith
    then have "get_dinode (k' mod 16 * 64) (put_dinode (k mod 16 * 64) d (B (33 + k div 16))) dinode0 =
        get_dinode (k' mod 16 * 64) (B (33 + k div 16)) dinode0"
      by (intro get_dinode_cong put_dinode_outside) auto
    with True assms(2) show ?thesis by (simp add: inode_of_def)
  qed (use assms(2) in \<open>simp add: inode_of_def\<close>)
  show "isize (inode_of B' k) = isize d" "j < 13 \<Longrightarrow> addrs (inode_of B' k) j = addrs d j"
    using assms by (simp_all add: inode_of_def dinode_roundtrip)
qed

lemma slot_addrs: "(\<And>j. j < 13 \<Longrightarrow> addrs d' j = addrs d j) \<Longrightarrow> slot B d' = slot B d"
  by (rule ext) (simp add: slot_def)

lemma layout_cong:
  assumes "layout B D n" "\<And>k. isize (D' k) = isize (D k)" "\<And>k j. j < 13 \<Longrightarrow> addrs (D' k) j = addrs (D k) j" "\<And>b. 47 \<le> b \<Longrightarrow> B' b = B b"
  shows "layout B' D' n" "contents B' (D' k) = contents B (D k)"
proof -
  have r: "slot B (D k) j \<noteq> 0 \<Longrightarrow> 47 \<le> slot B (D k) j" for k j
    using assms(1) separate_range [of "\<lambda>k. slot B (D k)" n k j] by (simp add: layout_def)
  have s: "slot B' (D' k) = slot B (D k)" for k
    using slot_addrs [of "D' k" "D k" B'] slot_cong [of B "D k" B'] assms(3,4) r [of k 268] by simp
  show "layout B' D' n" using assms(1) unfolding layout_def s assms(2) using assms(4) by auto
  have "B' (slot B (D k) (x div 1024)) = B (slot B (D k) (x div 1024))" if "x < unat (isize (D k))" for x
    using assms(4) r slot_used [OF assms(1) that] by blast
  then show "contents B' (D' k) = contents B (D k)" unfolding contents_def s assms(2) by simp
qed

lemma rinode_ok: "calm s \<Longrightarrow> unat k < 208 \<Longrightarrow> rinode k s = Ok (inode_of (blocks s) (unat k), s\<lparr>ops := ops s + 2\<rparr>)"
  using inode_pos [of k] rsect_ok [of s "IBLOCK k mk_sb"] by (simp add: rinode_def inode_of_def calm_def)

lemma winode_ok:
  assumes "calm s" "unat k < 208"
  shows "winode k d s = Ok (s\<lparr>ops := ops s + 2 + 2, blocks := (blocks s)(33 + unat k div 16 :=
    put_dinode (unat k mod 16 * 64) d (blocks s (33 + unat k div 16)))\<rparr>)"
  using assms inode_pos [of k] rsect_ok [of s "IBLOCK k mk_sb"] wsect_ok [of "s\<lparr>ops := ops s + 2\<rparr>" "IBLOCK k mk_sb"]
  by (simp add: winode_def calm_def Let_def)

lemma file_len: "length (file_of s k) = unat (isize (inode_of (blocks s) k))"
  by (simp add: file_of_def contents_def)

lemma inode_of_low: "(\<And>b. b < 47 \<Longrightarrow> B' b = B b) \<Longrightarrow> inode_of B' = inode_of B"
  by (rule ext) (simp add: inode_of_def)

lemma winode_image:
  assumes "calm s" "unat k < 208" "layout (blocks s) (D(unat k := d)) (unat (freeblock s))" "D = inode_of (blocks s)"
  obtains s' where "winode k d s = Ok s'" "same_host s s'" "freeblock s' = freeblock s" "image_ok s'"
    "file_of s' (unat k) = contents (blocks s) d" "\<forall>j. j \<noteq> unat k \<longrightarrow> file_of s' j = contents (blocks s) (D j)"
proof -
  let ?k = "unat k" and ?b = "33 + unat k div 16"
  let ?B = "(blocks s)(?b := put_dinode (?k mod 16 * 64) d (blocks s ?b))"
  let ?s = "s\<lparr>ops := ops s + 2 + 2, blocks := ?B\<rparr>"
  note st = inode_stored [OF assms(2) refl, where B = "blocks s" and d = d]
  have low: "47 \<le> b \<Longrightarrow> ?B b = blocks s b" for b using inode_pos(3) [OF assms(2)] by simp
  have D: "isize (inode_of ?B k') = isize ((D(?k := d)) k')" "j < 13 \<Longrightarrow> addrs (inode_of ?B k') j = addrs ((D(?k := d)) k') j" for k' j
    using st assms(4) by (cases "k' = ?k"; simp)+
  have lc: "layout ?B (inode_of ?B) (unat (freeblock s))" "contents ?B (inode_of ?B j) = contents (blocks s) ((D(?k := d)) j)" for j
    using layout_cong [where D' = "inode_of ?B" and B' = ?B, OF assms(3) D low] by blast+
  show thesis
  proof (rule that [of ?s])
    show "winode k d s = Ok ?s" by (rule winode_ok [OF assms(1,2)])
    show "image_ok ?s" using lc(1) by (simp add: image_ok_def)
    show "file_of ?s ?k = contents (blocks s) d" using lc(2) [of ?k] by (simp add: file_of_def)
    show "\<forall>j. j \<noteq> ?k \<longrightarrow> file_of ?s j = contents (blocks s) (D j)" using lc(2) by (simp add: file_of_def)
  qed (simp_all add: same_host_def)
qed

lemma iappend_ok:
  assumes c: "calm s" and im: "image_ok s" and k: "unat k < 208" and len: "length (file_of s (unat k)) + length p \<le> 268 * 1024"
    and room: "unat (freeblock s) + 1 + need (length (file_of s (unat k))) (length p) \<le> 2000"
  obtains s' where "iappend k p s = Ok s'" "same_host s s'" "image_ok s'" "file_of s' (unat k) = file_of s (unat k) @ p"
    "\<forall>j. j \<noteq> unat k \<longrightarrow> file_of s' j = file_of s j"
    "unat (freeblock s') \<le> unat (freeblock s) + 1 + need (length (file_of s (unat k))) (length p)"
proof -
  let ?D = "inode_of (blocks s)" and ?k = "unat k" and ?s = "s\<lparr>ops := ops s + 2\<rparr>"
  let ?d = "?D ?k"
  have c1: "calm ?s" using c by (simp add: calm_def)
  have lay: "layout (blocks ?s) (?D(?k := ?d\<lparr>isize := isize ?d\<rparr>)) (unat (freeblock ?s))" using im by (simp add: image_ok_def)
  have len1: "unat (isize ?d) + length p \<le> 268 * 1024" using len by (simp add: file_len)
  have room1: "unat (freeblock ?s) + missing ?d + need (unat (isize ?d)) (length p) \<le> 2000"
    using room by (simp add: file_len missing_def)
  from iappend_loop_ok [OF c1 lay len1 room1] obtain off' d' s2 where
    R: "iappend_loop p (isize ?d) ?d ?s = Ok (off', d', s2)" "same_host ?s s2"
      "layout (blocks s2) (?D(?k := d'\<lparr>isize := off'\<rparr>)) (unat (freeblock s2))"
      "contents (blocks s2) (d'\<lparr>isize := off'\<rparr>) = contents (blocks ?s) (?d\<lparr>isize := isize ?d\<rparr>) @ p"
      "\<forall>k'. k' \<noteq> ?k \<longrightarrow> contents (blocks s2) (?D k') = contents (blocks ?s) (?D k')" "\<forall>b < 47. blocks s2 b = blocks ?s b"
      "unat (freeblock s2) + missing d' \<le> unat (freeblock ?s) + missing ?d + need (unat (isize ?d)) (length p)" by blast
  have D: "?D = inode_of (blocks s2)" using R(6) by (intro inode_of_low [symmetric]) simp
  have h: "same_host s s2" using R(2) by (simp add: same_host_def)
  obtain s3 where w: "winode k (d'\<lparr>isize := off'\<rparr>) s2 = Ok s3" "same_host s2 s3" "freeblock s3 = freeblock s2" "image_ok s3"
    "file_of s3 ?k = contents (blocks s2) (d'\<lparr>isize := off'\<rparr>)" "\<forall>j. j \<noteq> ?k \<longrightarrow> file_of s3 j = contents (blocks s2) (?D j)"
    by (rule winode_image [OF calm_same [OF c h] k R(3) D])
  show thesis
  proof (rule that [of s3])
    show "iappend k p s = Ok s3" using rinode_ok [OF c k] R(1) w(1) by (simp add: iappend_def)
    show "same_host s s3" by (rule same_host_trans [OF h w(2)])
    show "file_of s3 ?k = file_of s ?k @ p" using w(5) R(4) by (simp add: file_of_def)
    show "\<forall>j. j \<noteq> ?k \<longrightarrow> file_of s3 j = file_of s j" using w(6) R(5) by (simp add: file_of_def)
    show "unat (freeblock s3) \<le> unat (freeblock s) + 1 + need (length (file_of s ?k)) (length p)"
      using R(7) w(3) by (simp add: file_len missing_def split: if_splits)
  qed (rule w(4))
qed

text \<open>C12: on a working host, as long as the file stays within its limit and the image has room, \<open>iappend\<close> succeeds and
  appends exactly the given bytes to the file of the inode, leaves every other file as it was, and keeps the
  image well formed: every block belongs to one file at one position, blocks not given out are zero.\<close>

theorem iappend_correct:
  assumes "calm s" "image_ok s" "unat k < 208" "length (file_of s (unat k)) + length p \<le> 268 * 1024"
    "unat (freeblock s) + 1 + need (length (file_of s (unat k))) (length p) \<le> 2000"
  shows "\<exists>s'. iappend k p s = Ok s' \<and> calm s' \<and> image_ok s' \<and> file_of s' (unat k) = file_of s (unat k) @ p \<and>
    (\<forall>j. j \<noteq> unat k \<longrightarrow> file_of s' j = file_of s j)"
  using iappend_ok [OF assms] calm_same [OF assms(1)] by metis

definition blank :: mkfs_state where
  "blank = \<lparr>blocks = \<lambda>_ _. 0, img_len = 2000, fault = \<lambda>_. False, ops = 0, msb = mk_sb, freeinode = 1, freeblock = 47\<rparr>"

lemma inode_of_zero: "inode_of (\<lambda>_ _. 0) k = dinode0"
  by (simp add: inode_of_def get_dinode_def dinode0_def bld16_def bld32_def fun_eq_iff)

lemma blank_ok: "calm blank" "image_ok blank" "file_of blank k = []"
proof -
  have s: "slot B dinode0 j = 0" for B j by (simp add: slot_def dinode0_def)
  show "image_ok blank" by (simp add: image_ok_def layout_def blank_def inode_of_zero s separate_def) (simp add: dinode0_def)
  show "file_of blank k = []" by (simp add: file_of_def contents_def blank_def inode_of_zero) (simp add: dinode0_def)
qed (simp add: calm_def blank_def)

theorem iappend_correct_witness: "\<exists>s'. iappend 1 [7, 8] blank = Ok s' \<and> file_of s' 1 = [7, 8] \<and> file_of s' 2 = []"
proof -
  have "unat (freeblock blank) + 1 + need (length (file_of blank (unat (1 :: uint32)))) (length [7, 8 :: uint8]) \<le> 2000"
    by (simp add: blank_ok need_def blank_def)
  from iappend_correct [OF blank_ok(1,2) _ _ this] show ?thesis by (auto simp: blank_ok)
qed

end
