(* ===== verification/XvMkfsMain.thy ===== *)
theory XvMkfsMain
  imports XvMkfs
begin

text \<open>
  The image mkfs/mkfs.c builds: the empty file system, the loop of \<open>main\<close> over its arguments against an abstract map from
  inode numbers to files, the bitmap, and the rounded size of the root directory.
\<close>

section \<open>A new inode\<close>

lemma layout_clear:
  assumes "layout B D n" "isize d = 0" "addrs d = (\<lambda>_. 0)"
  shows "layout B (D(k := d)) n"
proof -
  have z: "slot B d j = 0" for j using assms(3) by (simp add: slot_def)
  have s: "slot B ((D(k := d)) k') j = (if k' = k then 0 else slot B (D k') j)" for k' j using z by simp
  have i: "isize ((D(k := d)) k') = (if k' = k then 0 else isize (D k'))" for k' using assms(2) by simp
  show ?thesis using assms(1) unfolding layout_def separate_def s i by auto
qed

lemma mk_ialloc_ok:
  assumes c: "calm s" and im: "image_ok s" and k: "unat (freeinode s) < 208"
  obtains s' where "mk_ialloc ty s = Ok (freeinode s, s')" "calm s'" "freeinode s' = freeinode s + 1" "freeblock s' = freeblock s" "image_ok s'"
    "file_of s' (unat (freeinode s)) = []" "\<forall>j. j \<noteq> unat (freeinode s) \<longrightarrow> file_of s' j = file_of s j"
proof -
  let ?s = "s\<lparr>freeinode := freeinode s + 1\<rparr>" and ?d = "dinode0\<lparr>itype := xshort ty, nlink := xshort 1, isize := xint 0\<rparr>"
  let ?D = "inode_of (blocks s)"
  have c1: "calm ?s" using c by (simp add: calm_def)
  have l: "layout (blocks ?s) (?D(unat (freeinode s) := ?d)) (unat (freeblock ?s))"
    using layout_clear [of "blocks s" ?D "unat (freeblock s)" ?d] im by (simp add: image_ok_def dinode0_def)
  have D: "?D = inode_of (blocks ?s)" by simp
  obtain s' where w: "winode (freeinode s) ?d ?s = Ok s'" "same_host ?s s'" "freeblock s' = freeblock ?s" "image_ok s'"
    "file_of s' (unat (freeinode s)) = contents (blocks ?s) ?d" "\<forall>j. j \<noteq> unat (freeinode s) \<longrightarrow> file_of s' j = contents (blocks ?s) (?D j)"
    by (rule winode_image [OF c1 k l D])
  show thesis
  proof (rule that [of s'])
    show "mk_ialloc ty s = Ok (freeinode s, s')" using w(1) by (simp add: mk_ialloc_def Let_def)
    show "calm s'" by (rule calm_same [OF c1 w(2)])
    show "freeinode s' = freeinode s + 1" using w(2) by (simp add: same_host_def)
    show "file_of s' (unat (freeinode s)) = []" using w(5) by (simp add: contents_def)
    show "\<forall>j. j \<noteq> unat (freeinode s) \<longrightarrow> file_of s' j = file_of s j" using w(6) by (simp add: file_of_def)
  qed (use w(3,4) in simp_all)
qed

section \<open>The files of the host\<close>

text \<open>A bound on the blocks the appends of some blocks take.\<close>

fun blocks_for :: "nat \<Rightarrow> uint8 list list \<Rightarrow> nat" where
  "blocks_for off [] = 0"
| "blocks_for off (c # cs) = 1 + need off (length c) + blocks_for (off + length c) cs"

lemma append_all:
  assumes "calm s" "image_ok s" "unat k < 208" "length (file_of s (unat k)) + length (concat chunks) \<le> 268 * 1024"
    "unat (freeblock s) + blocks_for (length (file_of s (unat k))) chunks \<le> 2000"
  shows "\<exists>s'. foldM (iappend k) chunks s = Ok s' \<and> same_host s s' \<and> image_ok s' \<and> file_of s' (unat k) = file_of s (unat k) @ concat chunks \<and>
    (\<forall>j. j \<noteq> unat k \<longrightarrow> file_of s' j = file_of s j) \<and>
    unat (freeblock s') \<le> unat (freeblock s) + blocks_for (length (file_of s (unat k))) chunks"
  using assms
proof (induction chunks arbitrary: s)
  case Nil
  then show ?case by (simp add: same_host_def)
next
  case (Cons c cs)
  have len: "length (file_of s (unat k)) + length c \<le> 268 * 1024" using Cons.prems(4) by simp
  have room: "unat (freeblock s) + 1 + need (length (file_of s (unat k))) (length c) \<le> 2000" using Cons.prems(5) by simp
  obtain s1 where 1: "iappend k c s = Ok s1" "same_host s s1" "image_ok s1" "file_of s1 (unat k) = file_of s (unat k) @ c"
    "\<forall>j. j \<noteq> unat k \<longrightarrow> file_of s1 j = file_of s j"
    "unat (freeblock s1) \<le> unat (freeblock s) + 1 + need (length (file_of s (unat k))) (length c)"
    by (rule iappend_ok [OF Cons.prems(1-3) len room])
  have "length (file_of s1 (unat k)) + length (concat cs) \<le> 268 * 1024" using Cons.prems(4) 1(4) by simp
  moreover have "unat (freeblock s1) + blocks_for (length (file_of s1 (unat k))) cs \<le> 2000" using Cons.prems(5) 1(4,6) by simp
  ultimately obtain s2 where 2: "foldM (iappend k) cs s1 = Ok s2" "same_host s1 s2" "image_ok s2"
    "file_of s2 (unat k) = file_of s1 (unat k) @ concat cs" "\<forall>j. j \<noteq> unat k \<longrightarrow> file_of s2 j = file_of s1 j"
    "unat (freeblock s2) \<le> unat (freeblock s1) + blocks_for (length (file_of s1 (unat k))) cs"
    using Cons.IH [OF calm_same [OF Cons.prems(1) 1(2)] 1(3) Cons.prems(3)] by blast
  show ?case
  proof (intro exI conjI)
    show "foldM (iappend k) (c # cs) s = Ok s2" using 1(1) 2(1) by simp
    show "same_host s s2" by (rule same_host_trans [OF 1(2) 2(2)])
    show "image_ok s2" by (rule 2(3))
    show "file_of s2 (unat k) = file_of s (unat k) @ concat (c # cs)" using 1(4) 2(4) by simp
    show "\<forall>j. j \<noteq> unat k \<longrightarrow> file_of s2 j = file_of s j" using 1(5) 2(5) by simp
    show "unat (freeblock s2) \<le> unat (freeblock s) + blocks_for (length (file_of s (unat k))) (c # cs)" using 1(4,6) 2(6) by simp
  qed
qed

lemma dirent_length: "length (dirent_bytes k name) = 16"
  by (simp add: dirent_bytes_def Let_def)

section \<open>The empty file system\<close>

lemma zero_fill:
  assumes "\<And>i. \<not> fault s i" "img_len s = 0" "blocks s = (\<lambda>_ _. 0)" "n \<le> 2000"
  shows "foldM (\<lambda>i. wsect (of_nat i) (\<lambda>_. 0)) [0..<n] s = Ok (s\<lparr>ops := ops s + 2 * n, img_len := n\<rparr>)"
  using assms(4)
proof (induction n)
  case 0
  with assms(2) show ?case by simp
next
  case (Suc n)
  have u: "unat (of_nat n :: uint32) = n" using Suc.prems by (simp add: unat_of_nat)
  then have "sect_pos (of_nat n) = n" using small_sect [of "of_nat n"] Suc.prems by simp
  with Suc assms(1,3) show ?case by (simp add: wsect_def fun_upd_idem)
qed

text \<open>The image before the first inode is allocated.\<close>

lemma fresh_image:
  assumes "blocks s = (\<lambda>_ _. 0)(1 := b)" "freeblock s = 47"
  shows "image_ok s" "file_of s k = []"
proof -
  have B: "inode_of (blocks s) = inode_of (blocks blank)" by (rule ext) (simp add: assms(1) inode_of_def blank_def)
  have low: "blocks s b' = blocks blank b'" if "47 \<le> b'" for b' using that by (simp add: assms(1) blank_def)
  have l: "layout (blocks blank) (inode_of (blocks blank)) 47" using blank_ok(2) by (simp add: image_ok_def blank_def)
  show "image_ok s" using layout_cong(1) [OF l refl refl, of "blocks s"] low assms(2) by (simp add: image_ok_def B)
  show "file_of s k = []" using layout_cong(2) [OF l refl refl, of "blocks s" k] low blank_ok(3) [of k] by (simp add: file_of_def B)
qed

lemma mk_start_ok:
  assumes "\<And>i. \<not> faults i"
  obtains s where "mk_start faults = Ok s" "calm s" "image_ok s" "freeinode s = 2" "unat (freeblock s) \<le> 51"
    "file_of s 1 = dirent_bytes 1 [46] @ dirent_bytes 1 [46, 46]" "\<forall>j. j \<noteq> 1 \<longrightarrow> file_of s j = []"
proof -
  let ?s0 = "\<lparr>blocks = \<lambda>_ _. 0, img_len = 0, fault = faults, ops = 0, msb = mk_sb, freeinode = 1, freeblock = of_nat nmeta\<rparr>"
  let ?s1 = "?s0\<lparr>ops := ops ?s0 + 2 * 2000, img_len := 2000\<rparr>"
  let ?s2 = "?s1\<lparr>ops := ops ?s1 + 2, blocks := (blocks ?s1)(1 := sb_block mk_sb)\<rparr>"
  have nm: "(of_nat nmeta :: uint32) = 47" by (simp add: nmeta_def mk_nlog_def ninodeblocks_def nbitmap_def)
  have z: "foldM (\<lambda>i. wsect (of_nat i) (\<lambda>_. 0)) [0..<2000] ?s0 = Ok ?s1" by (rule zero_fill) (simp_all add: assms)
  have c1: "calm ?s1" using assms by (simp add: calm_def)
  have w: "wsect 1 (sb_block (msb ?s1)) ?s1 = Ok ?s2" using wsect_ok [OF c1, of 1 "sb_block mk_sb"] by simp
  have c2: "calm ?s2" using assms by (simp add: calm_def)
  have i2: "image_ok ?s2" "file_of ?s2 k = []" for k by (rule fresh_image [of ?s2 "sb_block mk_sb"]; simp add: nm)+
  have k2: "unat (freeinode ?s2) < 208" by simp
  obtain s3 where 3: "mk_ialloc T_DIR ?s2 = Ok (freeinode ?s2, s3)" "calm s3" "freeinode s3 = freeinode ?s2 + 1" "freeblock s3 = freeblock ?s2"
    "image_ok s3" "file_of s3 (unat (freeinode ?s2)) = []" "\<forall>j. j \<noteq> unat (freeinode ?s2) \<longrightarrow> file_of s3 j = file_of ?s2 j"
    by (rule mk_ialloc_ok [OF c2 i2(1) k2])
  have f3: "file_of s3 j = []" for j using 3(6,7) i2(2) by (cases "j = unat (freeinode ?s2)") simp_all
  let ?r = "unat (1 :: uint32)"
  have k1: "?r < 208" by simp
  have r3: "length (file_of s3 ?r) + length (dirent_bytes 1 [46]) \<le> 268 * 1024"
    "unat (freeblock s3) + 1 + need (length (file_of s3 ?r)) (length (dirent_bytes 1 [46])) \<le> 2000"
    using 3(4) by (simp_all add: f3 dirent_length need_def nm)
  obtain s4 where 4: "iappend 1 (dirent_bytes 1 [46]) s3 = Ok s4" "same_host s3 s4" "image_ok s4"
    "file_of s4 ?r = file_of s3 ?r @ dirent_bytes 1 [46]" "\<forall>j. j \<noteq> ?r \<longrightarrow> file_of s4 j = file_of s3 j"
    "unat (freeblock s4) \<le> unat (freeblock s3) + 1 + need (length (file_of s3 ?r)) (length (dirent_bytes 1 [46]))"
    by (rule iappend_ok [OF 3(2,5) k1 r3])
  have f4: "file_of s4 ?r = dirent_bytes 1 [46]" using 4(4) by (simp add: f3)
  have n4: "unat (freeblock s4) \<le> 49" using 4(6) 3(4) by (simp add: f3 dirent_length need_def nm)
  have c4: "calm s4" by (rule calm_same [OF 3(2) 4(2)])
  have r4: "length (file_of s4 ?r) + length (dirent_bytes 1 [46, 46]) \<le> 268 * 1024"
    "unat (freeblock s4) + 1 + need (length (file_of s4 ?r)) (length (dirent_bytes 1 [46, 46])) \<le> 2000"
    using n4 unfolding f4 by (simp_all add: dirent_length need_def)
  obtain s5 where 5: "iappend 1 (dirent_bytes 1 [46, 46]) s4 = Ok s5" "same_host s4 s5" "image_ok s5"
    "file_of s5 ?r = file_of s4 ?r @ dirent_bytes 1 [46, 46]" "\<forall>j. j \<noteq> ?r \<longrightarrow> file_of s5 j = file_of s4 j"
    "unat (freeblock s5) \<le> unat (freeblock s4) + 1 + need (length (file_of s4 ?r)) (length (dirent_bytes 1 [46, 46]))"
    by (rule iappend_ok [OF c4 4(3) k1 r4])
  show thesis
  proof (rule that [of s5])
    show "mk_start faults = Ok s5" using z w 3(1) 4(1) 5(1) by (simp add: mk_start_def Let_def)
    show "calm s5" by (rule calm_same [OF c4 5(2)])
    show "freeinode s5 = 2" using 3(3) 4(2) 5(2) by (simp add: same_host_def)
    show "unat (freeblock s5) \<le> 51" using 5(6) n4 unfolding f4 by (simp add: dirent_length need_def)
    show "file_of s5 1 = dirent_bytes 1 [46] @ dirent_bytes 1 [46, 46]" using 5(4) f4 by simp
    show "\<forall>j. j \<noteq> 1 \<longrightarrow> file_of s5 j = []" using 5(5) 4(5) f3 by simp
  qed (rule 5(3))
qed

section \<open>One file\<close>

lemma add_file_ok:
  assumes "calm s" "image_ok s" "1 < unat (freeinode s)" "unat (freeinode s) < 208"
    and path: "47 \<notin> set (shortname path)" "host path = Some chunks" "length (skip_underscore (shortname path)) \<le> 14"
    and len: "length (file_of s 1) + 16 \<le> 268 * 1024" "length (concat chunks) \<le> 268 * 1024"
    and room: "unat (freeblock s) + 1 + need (length (file_of s 1)) 16 + blocks_for 0 chunks \<le> 2000"
  shows "\<exists>s'. add_file host path s = Ok s' \<and> calm s' \<and> image_ok s' \<and> freeinode s' = freeinode s + 1 \<and>
    file_of s' (unat (freeinode s)) = concat chunks \<and>
    file_of s' 1 = file_of s 1 @ dirent_bytes (freeinode s) (skip_underscore (shortname path)) \<and>
    (\<forall>j. j \<noteq> 1 \<and> j \<noteq> unat (freeinode s) \<longrightarrow> file_of s' j = file_of s j) \<and>
    unat (freeblock s') \<le> unat (freeblock s) + 1 + need (length (file_of s 1)) 16 + blocks_for 0 chunks"
proof -
  let ?k = "unat (freeinode s)" and ?e = "dirent_bytes (freeinode s) (skip_underscore (shortname path))"
  obtain s1 where 1: "mk_ialloc T_FILE s = Ok (freeinode s, s1)" "calm s1" "freeinode s1 = freeinode s + 1" "freeblock s1 = freeblock s"
    "image_ok s1" "file_of s1 ?k = []" "\<forall>j. j \<noteq> ?k \<longrightarrow> file_of s1 j = file_of s j"
    by (rule mk_ialloc_ok [OF assms(1,2,4)])
  have u: "unat ROOTINO = 1" by simp
  have f1: "file_of s1 1 = file_of s 1" using 1(7) assms(3) by simp
  have r: "unat ROOTINO < 208" "length (file_of s1 (unat ROOTINO)) + length ?e \<le> 268 * 1024"
    "unat (freeblock s1) + 1 + need (length (file_of s1 (unat ROOTINO))) (length ?e) \<le> 2000"
    unfolding u dirent_length f1 1(4) using len(1) room by simp_all
  obtain s2 where 2: "iappend ROOTINO ?e s1 = Ok s2" "same_host s1 s2" "image_ok s2" "file_of s2 (unat ROOTINO) = file_of s1 (unat ROOTINO) @ ?e"
    "\<forall>j. j \<noteq> unat ROOTINO \<longrightarrow> file_of s2 j = file_of s1 j"
    "unat (freeblock s2) \<le> unat (freeblock s1) + 1 + need (length (file_of s1 (unat ROOTINO))) (length ?e)"
    by (rule iappend_ok [OF 1(2,5) r])
  have c2: "calm s2" by (rule calm_same [OF 1(2) 2(2)])
  have f2: "file_of s2 ?k = []" using 2(5) 1(6) assms(3) u by simp
  have l2: "length (file_of s2 ?k) + length (concat chunks) \<le> 268 * 1024" using f2 len(2) by simp
  have r2: "unat (freeblock s2) + blocks_for (length (file_of s2 ?k)) chunks \<le> 2000"
    using 2(6) room unfolding u dirent_length f1 1(4) f2 by simp
  from append_all [OF c2 2(3) assms(4) l2 r2] obtain s3 where 3: "foldM (iappend (freeinode s)) chunks s2 = Ok s3" "same_host s2 s3" "image_ok s3"
    "file_of s3 ?k = file_of s2 ?k @ concat chunks" "\<forall>j. j \<noteq> ?k \<longrightarrow> file_of s3 j = file_of s2 j"
    "unat (freeblock s3) \<le> unat (freeblock s2) + blocks_for (length (file_of s2 ?k)) chunks" by blast
  show ?thesis
  proof (intro exI conjI)
    show "add_file host path s = Ok s3" using path 1(1) 2(1) 3(1) by (simp add: add_file_def Let_def)
    show "calm s3" by (rule calm_same [OF c2 3(2)])
    show "freeinode s3 = freeinode s + 1" using 1(3) 2(2) 3(2) by (simp add: same_host_def)
    show "file_of s3 ?k = concat chunks" using 3(4) f2 by simp
    show "file_of s3 1 = file_of s 1 @ ?e" using 3(5) 2(4) f1 assms(3) u by simp
    show "\<forall>j. j \<noteq> 1 \<and> j \<noteq> ?k \<longrightarrow> file_of s3 j = file_of s j" using 3(5) 2(5) 1(7) u by simp
    show "unat (freeblock s3) \<le> unat (freeblock s) + 1 + need (length (file_of s 1)) 16 + blocks_for 0 chunks"
      using 3(6) 2(6) unfolding u dirent_length f1 1(4) f2 by simp
  qed (rule 3(3))
qed

section \<open>All files\<close>

text \<open>The files that result from adding some paths, inodes being numbered from \<open>k\<close> on, and whether they fit when the blocks
  below \<open>n\<close> are in use.\<close>

definition host_bytes :: "(uint8 list \<Rightarrow> uint8 list list option) \<Rightarrow> uint8 list \<Rightarrow> uint8 list list" where
  "host_bytes host path = (case host path of None \<Rightarrow> [] | Some chunks \<Rightarrow> chunks)"

fun put_files :: "(uint8 list \<Rightarrow> uint8 list list option) \<Rightarrow> uint32 \<Rightarrow> uint8 list list \<Rightarrow> (nat \<Rightarrow> uint8 list) \<Rightarrow> nat \<Rightarrow> uint8 list" where
  "put_files host k [] F = F"
| "put_files host k (p # ps) F =
     put_files host (k + 1) ps (F(1 := F 1 @ dirent_bytes k (skip_underscore (shortname p)), unat k := concat (host_bytes host p)))"

fun fits :: "(uint8 list \<Rightarrow> uint8 list list option) \<Rightarrow> nat \<Rightarrow> nat \<Rightarrow> nat \<Rightarrow> uint8 list list \<Rightarrow> bool" where
  "fits host n k root [] \<longleftrightarrow> True"
| "fits host n k root (p # ps) \<longleftrightarrow>
     k < 208 \<and> 47 \<notin> set (shortname p) \<and> host p \<noteq> None \<and> length (skip_underscore (shortname p)) \<le> 14 \<and>
     root + 16 \<le> 268 * 1024 \<and> length (concat (host_bytes host p)) \<le> 268 * 1024 \<and>
     n + 1 + need root 16 + blocks_for 0 (host_bytes host p) \<le> 2000 \<and>
     fits host (n + 1 + need root 16 + blocks_for 0 (host_bytes host p)) (k + 1) (root + 16) ps"

lemma add_files_ok:
  assumes "calm s" "image_ok s" "1 < unat (freeinode s)" "unat (freeblock s) \<le> n"
    "fits host n (unat (freeinode s)) (length (file_of s 1)) ps" "n \<le> 2000"
  shows "\<exists>s'. foldM (add_file host) ps s = Ok s' \<and> calm s' \<and> image_ok s' \<and> file_of s' = put_files host (freeinode s) ps (file_of s) \<and>
    unat (freeblock s') \<le> 2000"
  using assms
proof (induction ps arbitrary: s n)
  case Nil
  then show ?case by simp
next
  case (Cons p ps)
  let ?k = "unat (freeinode s)" and ?m = "n + 1 + need (length (file_of s 1)) 16 + blocks_for 0 (host_bytes host p)"
  obtain chunks where h: "host p = Some chunks" "host_bytes host p = chunks" using Cons.prems(5) by (auto simp: host_bytes_def)
  have F: "?k < 208" "47 \<notin> set (shortname p)" "length (skip_underscore (shortname p)) \<le> 14" "length (file_of s 1) + 16 \<le> 268 * 1024"
    "length (concat chunks) \<le> 268 * 1024" "?m \<le> 2000" "fits host ?m (?k + 1) (length (file_of s 1) + 16) ps"
    using Cons.prems(5) h(2) by simp_all
  have room: "unat (freeblock s) + 1 + need (length (file_of s 1)) 16 + blocks_for 0 chunks \<le> 2000" using F(6) Cons.prems(4) unfolding h(2) by linarith
  obtain s1 where 1: "add_file host p s = Ok s1" "calm s1" "image_ok s1" "freeinode s1 = freeinode s + 1"
    "file_of s1 ?k = concat chunks" "file_of s1 1 = file_of s 1 @ dirent_bytes (freeinode s) (skip_underscore (shortname p))"
    "\<forall>j. j \<noteq> 1 \<and> j \<noteq> ?k \<longrightarrow> file_of s1 j = file_of s j"
    "unat (freeblock s1) \<le> unat (freeblock s) + 1 + need (length (file_of s 1)) 16 + blocks_for 0 chunks"
    using add_file_ok [where host = host and path = p, OF Cons.prems(1-3) F(1,2) h(1) F(3-5) room] by blast
  have k: "unat (freeinode s1) = ?k + 1" using 1(4) F(1) by (simp add: unat_word_ariths)
  have f: "file_of s1 = (file_of s)(1 := file_of s 1 @ dirent_bytes (freeinode s) (skip_underscore (shortname p)), ?k := concat (host_bytes host p))"
    using 1(5-7) h(2) by (auto simp: fun_eq_iff)
  have "length (file_of s1 1) = length (file_of s 1) + 16" using 1(6) by (simp add: dirent_length)
  then have "fits host ?m (unat (freeinode s1)) (length (file_of s1 1)) ps" using F(7) k by simp
  moreover have "1 < unat (freeinode s1)" "unat (freeblock s1) \<le> ?m" using k Cons.prems(3,4) 1(8) h(2) by simp_all
  ultimately obtain s2 where "foldM (add_file host) ps s1 = Ok s2" "calm s2" "image_ok s2"
    "file_of s2 = put_files host (freeinode s1) ps (file_of s1)" "unat (freeblock s2) \<le> 2000"
    using Cons.IH [OF 1(2,3) _ _ _ F(6)] by blast
  with 1(1,4) f show ?case by simp
qed

section \<open>The bitmap and the size of the root\<close>

lemma bitmap_bit: "t < 8 \<Longrightarrow> bit (bitmap_of n b) t \<longleftrightarrow> 8 * b + t < n"
proof (induction n)
  case 0
  then show ?case by (simp add: bitmap_of_def)
next
  case (Suc n)
  have "bitmap_of (Suc n) = (bitmap_of n)(n div 8 := bitmap_of n (n div 8) OR bit_mask n)" by (simp add: bitmap_of_def)
  moreover have "bit (bit_mask n) t \<longleftrightarrow> t = n mod 8" using Suc.prems by (auto simp: bit_mask_def bit_simps)
  moreover have "8 * b + t = n \<longleftrightarrow> b = n div 8 \<and> t = n mod 8" using Suc.prems by auto
  ultimately show ?case using Suc by (auto simp: bit_or_iff less_Suc_eq)
qed

lemma bitmap_test: "bitmap_of n (i div 8) AND bit_mask i \<noteq> 0 \<longleftrightarrow> i < n"
proof -
  have "bitmap_of n (i div 8) AND bit_mask i \<noteq> 0 \<longleftrightarrow> bit (bitmap_of n (i div 8)) (i mod 8)"
    by (simp add: bit_mask_def bit_iff_and_push_bit_not_eq_0)
  then show ?thesis by (simp add: bitmap_bit)
qed

lemma root_rounded:
  assumes lay: "layout B D n" and off: "off = unat (isize (D k))" "off mod 1024 \<noteq> 0" and d: "d = (D k)\<lparr>isize := (isize (D k) div 1024 + 1) * 1024\<rparr>"
  shows "layout B (D(k := d)) n" "take off (contents B d) = contents B (D k)"
proof -
  define q where "q = off div 1024"
  define r where "r = off mod 1024"
  have o: "off = q * 1024 + r" "0 < r" "r < 1024" using off(2) by (simp_all add: q_def r_def)
  have le: "off \<le> 268 * 1024" using lay off(1) by (simp add: layout_def)
  then have q: "q < 268" using o by linarith
  have sz: "unat (isize d) = (q + 1) * 1024"
    using q by (simp add: d unat_word_ariths unat_div off(1) [symmetric] q_def [symmetric])
  have st: "start_of j < off \<longleftrightarrow> start_of j < (q + 1) * 1024" for j
  proof -
    have "m * 1024 < off \<longleftrightarrow> m * 1024 < (q + 1) * 1024" for m
    proof (cases "m \<le> q")
      case True
      then have "m * 1024 \<le> q * 1024" by simp
      then have "m * 1024 < off" "m * 1024 < (q + 1) * 1024" using o by simp_all
      then show ?thesis by blast
    next
      case False
      then have "(q + 1) * 1024 \<le> m * 1024" by (intro mult_le_mono1) simp
      then have "\<not> m * 1024 < off" "\<not> m * 1024 < (q + 1) * 1024" using o by simp_all
      then show ?thesis by blast
    qed
    then show ?thesis by (simp only: start_of_def split: if_split) blast
  qed
  have sl: "slot B ((D(k := d)) k') = slot B (D k')" for k' by (simp add: d)
  show "layout B (D(k := d)) n"
    unfolding layout_def sl
    using lay q st sz off(1) by (auto simp: layout_def)
  have s: "slot B d = slot B (D k)" by (simp add: d)
  have "off \<le> (q + 1) * 1024" using o by simp
  then show "take off (contents B d) = contents B (D k)"
    unfolding contents_def sz s off(1) [symmetric] by (simp add: take_map min_def)
qed

lemma sint_small:
  assumes "unat (x :: uint32) < 2 ^ 31"
  shows "sint x = int (unat x)"
proof -
  have "sint (of_nat k :: uint32) = int k" if "k < 2 ^ 31" for k using that by (simp add: signed_of_nat signed_take_bit_int_eq_self)
  from this [OF assms] show ?thesis by simp
qed

lemma mk_finish_ok:
  assumes c: "calm s" and im: "image_ok s" and len: "length (file_of s 1) mod 1024 \<noteq> 0" and fb: "unat (freeblock s) \<le> 2000"
  shows "\<exists>s'. mk_finish s = Ok s' \<and> image_ok s' \<and> (\<forall>j. j \<noteq> 1 \<longrightarrow> file_of s' j = file_of s j) \<and>
    take (length (file_of s 1)) (file_of s' 1) = file_of s 1 \<and> blocks s' 46 = bitmap_of (unat (freeblock s'))"
proof -
  let ?D = "inode_of (blocks s)" and ?s = "s\<lparr>ops := ops s + 2\<rparr>" and ?r = "unat (1 :: uint32)"
  let ?d = "(?D ?r)\<lparr>isize := (isize (?D ?r) div 1024 + 1) * 1024\<rparr>"
  have k: "?r < 208" by simp
  have c1: "calm ?s" using c by (simp add: calm_def)
  have l: "layout (blocks s) ?D (unat (freeblock s))" using im by (simp add: image_ok_def)
  have m: "unat (isize (?D ?r)) mod 1024 \<noteq> 0" using len by (simp add: file_len)
  note rr = root_rounded [OF l refl m refl]
  have l1: "layout (blocks ?s) (?D(?r := ?d)) (unat (freeblock ?s))" using rr(1) by simp
  have D: "?D = inode_of (blocks ?s)" by simp
  obtain s2 where 2: "winode 1 ?d ?s = Ok s2" "same_host ?s s2" "freeblock s2 = freeblock ?s" "image_ok s2"
    "file_of s2 ?r = contents (blocks ?s) ?d" "\<forall>j. j \<noteq> ?r \<longrightarrow> file_of s2 j = contents (blocks ?s) (?D j)"
    by (rule winode_image [OF c1 k l1 D])
  have c2: "calm s2" by (rule calm_same [OF c1 2(2)])
  let ?b = "bitmap_of (unat (freeblock s2))"
  let ?s3 = "s2\<lparr>ops := ops s2 + 2, blocks := (blocks s2)(46 := ?b)\<rparr>"
  have u: "unat (freeblock s2) \<le> 2000" using 2(3) fb by simp
  have si: "sint (freeblock s2) = int (unat (freeblock s2))" by (rule sint_small) (use u in simp)
  have ns: "\<not> 8192 \<le> sint (freeblock s2)" "nat (sint (freeblock s2)) = unat (freeblock s2)" using si u by linarith+
  have w: "mk_balloc (freeblock s2) s2 = Ok ?s3"
    using wsect_ok [OF c2, of 46 ?b] ns c2 by (simp add: mk_balloc_def calm_def mk_sb_starts)
  have B: "inode_of ((blocks s2)(46 := ?b)) = inode_of (blocks s2)" by (rule ext) (simp add: inode_of_def)
  have cl: "length (contents B d) = unat (isize d)" for B d by (simp add: contents_def)
  have l2: "layout (blocks s2) (inode_of (blocks s2)) (unat (freeblock s2))" using 2(4) by (simp add: image_ok_def)
  have low: "47 \<le> b \<Longrightarrow> ((blocks s2)(46 := ?b)) b = blocks s2 b" for b by simp
  have i3: "image_ok ?s3" "file_of ?s3 j = file_of s2 j" for j
    using layout_cong [where B' = "(blocks s2)(46 := ?b)" and D' = "inode_of (blocks s2)", OF l2 refl refl low]
    by (simp_all add: image_ok_def file_of_def B)
  show ?thesis
  proof (intro exI conjI)
    show "mk_finish s = Ok ?s3" using rinode_ok [OF c k] 2(1) w by (simp add: mk_finish_def Let_def)
    show "\<forall>j. j \<noteq> 1 \<longrightarrow> file_of ?s3 j = file_of s j" using i3(2) 2(6) by (simp add: file_of_def [of s])
    show "take (length (file_of s 1)) (file_of ?s3 1) = file_of s 1" using rr(2) 2(5) i3(2) [of 1] by (simp add: cl file_of_def [of s])
    show "blocks ?s3 46 = bitmap_of (unat (freeblock ?s3))" by simp
  qed (rule i3(1))
qed

section \<open>Properties\<close>



end
