(* ===== verification/XvUlib.thy ===== *)
theory XvUlib
  imports XvString XvPrintf
begin

text \<open>
  user/ulib.c and the loops of user/wc.c, user/cat.c, user/echo.c and user/ls.c. As for the kernel's string.c, a \<open>char *\<close> that is only read is the sequence of bytes
  it points at. The loops that run to a NUL are partial: no result stands for running on for ever. What \<open>read\<close> returns is a
  list of the blocks it delivers and of how it ends.
\<close>

section \<open>Strings and memory\<close>

partial_function (option) ustrcpy :: "memory \<Rightarrow> uint64 \<Rightarrow> uint64 \<Rightarrow> memory option" where
  [code]: "ustrcpy m s t = (let m1 = m(s := m t) in if m t \<noteq> 0 then ustrcpy m1 (s + 1) (t + 1) else Some m1)"

partial_function (option) strcmp_loop :: "cbuf \<Rightarrow> cbuf \<Rightarrow> nat \<Rightarrow> int option" where
  [code]: "strcmp_loop p q i =
     (if p i \<noteq> 0 \<and> p i = q i then strcmp_loop p q (Suc i) else Some (uint (p i) - uint (q i)))"

definition strcmp :: "cbuf \<Rightarrow> cbuf \<Rightarrow> int option" where
  "strcmp p q = strcmp_loop p q 0"

definition ustrlen :: "cbuf \<Rightarrow> nat" where
  "ustrlen s = strlen_loop s 0"

definition umemset :: "memory \<Rightarrow> uint64 \<Rightarrow> uint32 \<Rightarrow> uint32 \<Rightarrow> memory" where
  "umemset m dst c n = memset_loop m dst (ucast c) 0 (unat n)"

partial_function (option) strchr_loop :: "cbuf \<Rightarrow> uint8 \<Rightarrow> nat \<Rightarrow> nat option option" where
  [code]: "strchr_loop s c i =
     (if s i = 0 then Some None else if s i = c then Some (Some i) else strchr_loop s c (Suc i))"

definition strchr :: "cbuf \<Rightarrow> uint8 \<Rightarrow> nat option option" where
  "strchr s c = strchr_loop s c 0"

text \<open>The bytes put into the buffer before the NUL, and the input left; \<open>read\<close> fails or ends where the input does.\<close>

fun gets_loop :: "nat \<Rightarrow> int \<Rightarrow> uint8 list \<Rightarrow> uint8 list \<times> uint8 list" where
  "gets_loop i n [] = ([], [])"
| "gets_loop i n (c # input) =
     (if int i + 1 < n then
        if c = 10 \<or> c = 13 then ([c], input)
        else let (l, rest) = gets_loop (Suc i) n input in (c # l, rest)
      else ([], c # input))"

definition gets :: "int \<Rightarrow> uint8 list \<Rightarrow> uint8 list \<times> uint8 list" where
  "gets n input = gets_loop 0 n input"

fun atoi_loop :: "uint32 \<Rightarrow> uint8 list \<Rightarrow> uint32" where
  "atoi_loop n [] = n"
| "atoi_loop n (c # s) = (if 48 \<le> c \<and> c \<le> 57 then atoi_loop (n * 10 + ucast c - 48) s else n)"

definition atoi :: "uint8 list \<Rightarrow> int" where
  "atoi s = sint (atoi_loop 0 s)"

text \<open>A negative count copies nothing: the loops of \<open>memmove\<close> stop at once.\<close>

definition umemmove :: "memory \<Rightarrow> uint64 \<Rightarrow> uint64 \<Rightarrow> int \<Rightarrow> memory" where
  "umemmove m dst src n =
     (if dst < src then memmove_up m dst src (nat n)
      else memmove_down m (dst + of_int n) (src + of_int n) (nat n))"

definition umemcmp :: "cbuf \<Rightarrow> cbuf \<Rightarrow> nat \<Rightarrow> int" where
  "umemcmp s1 s2 n = memcmp_loop s1 s2 0 n"

definition memcpy :: "memory \<Rightarrow> uint64 \<Rightarrow> uint64 \<Rightarrow> uint32 \<Rightarrow> memory" where
  "memcpy m dst src n = umemmove m dst src (sint n)"

text \<open>The result and the descriptors closed, for given results of \<open>open\<close> and \<open>fstat\<close>.\<close>

definition ustat :: "int \<Rightarrow> (int \<Rightarrow> int) \<Rightarrow> int \<times> int list" where
  "ustat fd fstat = (if fd < 0 then (-1, []) else (fstat fd, [fd]))"

section \<open>wc and cat\<close>

text \<open>The blocks \<open>read\<close> delivers, none of them empty, and whether it fails at the end.\<close>

type_synonym reads = "uint8 list list \<times> bool"

record wc_counts =
  wl :: uint32
  ww :: uint32
  wchars :: uint32
  inword :: bool

definition wc_space :: "uint8 \<Rightarrow> bool" where
  "wc_space ch = (ch \<in> {32, 13, 9, 10, 11})"

definition wc_byte :: "uint8 \<Rightarrow> wc_counts \<Rightarrow> wc_counts" where
  "wc_byte ch s =
     (let s1 = s\<lparr>wchars := wchars s + 1\<rparr>;
          s2 = (if ch = 10 then s1\<lparr>wl := wl s1 + 1\<rparr> else s1)
      in if wc_space ch then s2\<lparr>inword := False\<rparr>
         else if \<not> inword s2 then s2\<lparr>ww := ww s2 + 1, inword := True\<rparr>
         else s2)"

definition wc :: "reads \<Rightarrow> (uint32 \<times> uint32 \<times> uint32) option" where
  "wc r =
     (let s = fold (fold wc_byte) (fst r) \<lparr>wl = 0, ww = 0, wchars = 0, inword = False\<rparr>
      in if snd r then None else Some (wl s, ww s, wchars s))"

datatype cat_end = CatDone | CatReadError | CatWriteError

text \<open>\<open>wr k b\<close> is what the \<open>k\<close>-th \<open>write\<close> returns for the block \<open>b\<close>; the result is how \<open>cat\<close> ends and the bytes it wrote.\<close>

fun cat_loop :: "(nat \<Rightarrow> uint8 list \<Rightarrow> int) \<Rightarrow> nat \<Rightarrow> uint8 list list \<Rightarrow> bool \<Rightarrow> cat_end \<times> uint8 list" where
  "cat_loop wr k [] err = (if err then CatReadError else CatDone, [])"
| "cat_loop wr k (b # bs) err =
     (if wr k b \<noteq> int (length b) then (CatWriteError, take (nat (wr k b)) b)
      else let (r, out) = cat_loop wr (Suc k) bs err in (r, b @ out))"

definition cat :: "(nat \<Rightarrow> uint8 list \<Rightarrow> int) \<Rightarrow> reads \<Rightarrow> cat_end \<times> uint8 list" where
  "cat wr r = cat_loop wr 0 (fst r) (snd r)"

text \<open>echo: the bytes written for the arguments after the program name.\<close>

fun echo_loop :: "uint8 list list \<Rightarrow> uint8 list" where
  "echo_loop [] = []"
| "echo_loop [a] = a @ [10]"
| "echo_loop (a # b # rest) = a @ [32] @ echo_loop (b # rest)"

text \<open>ls: the last element of a path, padded with blanks to the length of a name in a directory.\<close>

definition fmtname :: "uint8 list \<Rightarrow> uint8 list" where
  "fmtname path =
     (let name = rev (takeWhile (\<lambda>c. c \<noteq> 47) (rev path))
      in if 14 \<le> length name then name else name @ replicate (14 - length name) 32)"

section \<open>Lemmas\<close>

lemma strcmp_loop_eq:
  assumes "p (i + n) = 0 \<or> p (i + n) \<noteq> q (i + n)" "\<forall>k < n. p (i + k) \<noteq> 0 \<and> p (i + k) = q (i + k)"
  shows "strcmp_loop p q i = Some (uint (p (i + n)) - uint (q (i + n)))"
  using assms
proof (induction n arbitrary: i)
  case 0
  then show ?case by (subst strcmp_loop.simps) auto
next
  case (Suc n)
  have shift: "p (Suc i + k) \<noteq> 0 \<and> p (Suc i + k) = q (Suc i + k)" if "k < n" for k using that Suc.prems(2) [rule_format, of "Suc k"] by auto
  have "p i \<noteq> 0 \<and> p i = q i" using Suc.prems(2) [rule_format, of 0] by auto
  moreover have "strcmp_loop p q (Suc i) = Some (uint (p (Suc i + n)) - uint (q (Suc i + n)))"
    by (rule Suc.IH) (use Suc.prems(1) in simp, use shift in blast)
  ultimately show ?case by (subst strcmp_loop.simps) auto
qed

lemma strncmp_first:
  assumes "p (i + n) = 0 \<or> p (i + n) \<noteq> q (i + n)" "\<forall>k < n. p (i + k) \<noteq> 0 \<and> p (i + k) = q (i + k)" "n < m"
  shows "strncmp_loop p q i m = uint (p (i + n)) - uint (q (i + n))"
  using assms
proof (induction n arbitrary: i m)
  case 0
  then show ?case by (cases m) auto
next
  case (Suc n)
  obtain m' where m: "m = Suc m'" "n < m'" using Suc.prems(3) by (cases m) auto
  have shift: "p (Suc i + k) \<noteq> 0 \<and> p (Suc i + k) = q (Suc i + k)" if "k < n" for k using that Suc.prems(2) [rule_format, of "Suc k"] by auto
  have "p i \<noteq> 0 \<and> p i = q i" using Suc.prems(2) [rule_format, of 0] by auto
  moreover have "strncmp_loop p q (Suc i) m' = uint (p (Suc i + n)) - uint (q (Suc i + n))"
    by (rule Suc.IH [OF _ _ m(2)]) (use Suc.prems(1) in simp, use shift in blast)
  ultimately show ?case using m(1) by auto
qed

lemma digit_byte:
  "d < 10 \<Longrightarrow> 48 \<le> (of_nat d + 48 :: uint8) \<and> (of_nat d + 48 :: uint8) \<le> 57 \<and> (ucast (of_nat d + 48 :: uint8) :: uint32) = of_nat d + 48"
proof -
  have "list_all (\<lambda>d. 48 \<le> (of_nat d + 48 :: uint8) \<and> (of_nat d + 48 :: uint8) \<le> 57 \<and>
    (ucast (of_nat d + 48 :: uint8) :: uint32) = of_nat d + 48) [0..<10]" by code_simp
  then show "d < 10 \<Longrightarrow> ?thesis" by (simp add: list_all_iff del: upt_rec_numeral)
qed

lemma atoi_loop_digits:
  "\<forall>d \<in> set ds. d < 10 \<Longrightarrow> atoi_loop n (map (\<lambda>d. of_nat d + 48) ds) = foldl (\<lambda>a d. a * 10 + of_nat d) n ds"
proof (induction ds arbitrary: n)
  case (Cons d ds)
  with digit_byte [of d] show ?case by simp
qed simp

lemma umemmove_eq:
  assumes "0 \<le> n" "n < 2 ^ 31" "unat dst + nat n < 2 ^ 64" "unat src + nat n < 2 ^ 64"
  shows "umemmove m dst src n = (\<lambda>a. if unat (a - dst) < nat n then m (src + (a - dst)) else m a)"
proof (cases "dst < src")
  case True
  with assms memmove_up_eq [of dst "nat n" src m] show ?thesis by (simp add: umemmove_def less_imp_le)
next
  case False
  have i: "of_int n = (of_nat (nat n) :: uint64)" using assms(1) by simp
  have u: "unat (x + of_nat (nat n) :: uint64) = unat x + nat n" if "unat x + nat n < 2 ^ 64" for x
    using that by (simp add: unat_word_ariths unat_of_nat)
  have "src + of_nat (nat n) \<le> dst + of_nat (nat n)"
    using False assms(3,4) by (simp add: word_le_nat_alt u not_less)
  with memmove_down_eq [of "nat n" "dst + of_nat (nat n)" "src + of_nat (nat n)" m] False assms(3,4)
  show ?thesis unfolding umemmove_def i by (simp add: u fun_eq_iff)
qed

text \<open>The printed digits of a number below ten.\<close>

lemma udigit_char: "d < 10 \<Longrightarrow> word_of_int (of_char (udigits ! d)) = (of_nat d + 48 :: uint8)"
proof -
  have "list_all (\<lambda>d. word_of_int (of_char (udigits ! d)) = (of_nat d + 48 :: uint8)) [0..<10]" by code_simp
  then show "d < 10 \<Longrightarrow> ?thesis" by (simp add: list_all_iff del: upt_rec_numeral)
qed

lemma foldl_word: "foldl (\<lambda>a d. a * 10 + of_nat d) (of_nat n) ds = (of_nat (foldl (\<lambda>a d. a * 10 + d) n ds) :: uint32)"
proof (induction ds arbitrary: n)
  case (Cons d ds)
  from Cons [of "n * 10 + d"] show ?case by simp
qed simp

lemma wc_byte_eq:
  "wc_byte c \<lparr>wl = l, ww = w, wchars = n, inword = b\<rparr> =
   \<lparr>wl = l + (if c = 10 then 1 else 0), ww = w + (if \<not> wc_space c \<and> \<not> b then 1 else 0), wchars = n + 1, inword = \<not> wc_space c\<rparr>"
  by (simp add: wc_byte_def Let_def wc_space_def)

lemma wc_fold:
  "fold wc_byte xs \<lparr>wl = 0, ww = 0, wchars = 0, inword = False\<rparr> =
   \<lparr>wl = of_nat (length (filter (\<lambda>c. c = 10) xs)),
    ww = of_nat (card {i. i < length xs \<and> \<not> wc_space (xs ! i) \<and> (i = 0 \<or> wc_space (xs ! (i - 1)))}),
    wchars = of_nat (length xs), inword = (xs \<noteq> [] \<and> \<not> wc_space (last xs))\<rparr>"
proof (induction xs rule: rev_induct)
  case (snoc c xs)
  let ?S = "\<lambda>ys. {i. i < length ys \<and> \<not> wc_space (ys ! i) \<and> (i = 0 \<or> wc_space (ys ! (i - 1)))}"
  let ?new = "\<not> wc_space c \<and> (xs = [] \<or> wc_space (last xs))"
  have "i \<in> ?S (xs @ [c]) \<longleftrightarrow> i \<in> ?S xs \<or> i = length xs \<and> ?new" for i
    by (cases "xs = []") (auto simp: nth_append last_conv_nth less_Suc_eq)
  then have "?S (xs @ [c]) = (if ?new then insert (length xs) (?S xs) else ?S xs)" by auto
  moreover have "length xs \<notin> ?S xs" "finite (?S xs)" by auto
  ultimately have "card (?S (xs @ [c])) = card (?S xs) + (if ?new then 1 else 0)" by simp
  then obtain k where k: "card (?S xs) = k" "card (?S (xs @ [c])) = k + (if ?new then 1 else 0)" by blast
  note f = snoc [unfolded k(1)]
  show ?case unfolding k(2) by (auto simp: f wc_byte_eq)
qed simp

section \<open>Properties\<close>

text \<open>On a terminated first string \<open>strcmp\<close> returns, and gives what the kernel's \<open>strncmp\<close> gives up to the terminator.\<close>

theorem strcmp_strncmp:
  assumes "p n = 0"
  shows "strcmp p q = Some (strncmp p q (Suc n))"
proof -
  define z where "z = (LEAST k. p k = 0 \<or> p k \<noteq> q k)"
  have 1: "p z = 0 \<or> p z \<noteq> q z" unfolding z_def by (rule LeastI [of _ n]) (use assms in simp)
  have 2: "z \<le> n" unfolding z_def by (rule Least_le) (use assms in simp)
  have 3: "\<forall>k < z. p k \<noteq> 0 \<and> p k = q k" unfolding z_def using not_less_Least by blast
  have "strcmp_loop p q 0 = Some (uint (p z) - uint (q z))"
    using strcmp_loop_eq [of p 0 z q, unfolded add_0] 1 3 by blast
  moreover have "strncmp_loop p q 0 (Suc n) = uint (p z) - uint (q z)"
    using strncmp_first [of p 0 z q "Suc n", unfolded add_0 less_Suc_eq_le] 1 2 3 by blast
  ultimately show ?thesis by (simp only: strcmp_def strncmp_def)
qed

text \<open>C38: the user \<open>memmove\<close> and the kernel's, which choose the direction of copying differently, have the same effect on
  memory, for overlapping regions too.\<close>

theorem memmove_agree:
  assumes "0 \<le> n" "n < 2 ^ 31" "unat dst + nat n < 2 ^ 64" "unat src + nat n < 2 ^ 64"
  shows "umemmove m dst src n = memmove m dst src (of_int n)"
proof -
  have "(of_int n :: uint32) = of_nat (nat n)" "nat n < 2 ^ 32" using assms(1,2) by simp_all
  then have "unat (of_int n :: uint32) = nat n" by (simp add: unat_of_nat take_bit_nat_eq_self)
  with memmove_eq [of dst "of_int n" src m] umemmove_eq [OF assms, of m] assms(3,4) show ?thesis by simp
qed

theorem memmove_agree_witness: "umemmove (\<lambda>a. ucast a) 4 2 5 = memmove (\<lambda>a. ucast a) 4 2 5"
  using memmove_agree [of 5 4 2 "\<lambda>a. ucast a"] by simp

text \<open>C39: \<open>atoi\<close> reads back what \<open>printf\<close> prints for a number below 2^31.\<close>

theorem atoi_printint:
  assumes "n < 2 ^ 31"
  shows "atoi (map word_of_int (uprintint (of_nat n) 10 True)) = int n"
proof -
  let ?x = "of_nat n :: uint32" and ?ds = "digit_loop (of_nat n :: uint32) 10"
  have s: "\<not> sint (of_nat n :: uint64) < 0" using assms by (simp add: signed_of_nat signed_take_bit_int_eq_self)
  have uc: "(ucast (of_nat n :: uint64) :: uint32) = of_nat n" using assms by (simp add: unsigned_of_nat take_bit_nat_eq_self)
  have d: "\<forall>d \<in> set ?ds. d < 10" using digit_loop_less [of 10 _ ?x] by simp
  have "map word_of_int (uprintint (of_nat n) 10 True) = map (\<lambda>d. of_nat d + 48 :: uint8) (rev ?ds)"
    using s d by (simp add: uprintint_def rev_map uc udigit_char)
  then have "atoi_loop 0 (map word_of_int (uprintint (of_nat n) 10 True)) = of_nat (foldl (\<lambda>a d. a * 10 + d) 0 (rev ?ds))"
    using atoi_loop_digits [of "rev ?ds" 0] d foldl_word [of 0 "rev ?ds"] by simp
  also have "foldl (\<lambda>a d. a * 10 + d) 0 (rev ?ds) = n"
    using digit_loop_val [of 10 ?x] assms by (simp add: foldl_conv_foldr [symmetric] foldr_conv_foldl unat_of_nat)
  finally show ?thesis using assms by (simp add: atoi_def signed_of_nat signed_take_bit_int_eq_self)
qed

theorem atoi_printint_witness: "atoi (map word_of_int (uprintint 42 10 True)) = 42"
  using atoi_printint [of 42] by simp

text \<open>C40: \<open>wc\<close> counts the newlines, the words and the bytes of the input, however \<open>read\<close> divides it.\<close>

theorem wc_counts_input:
  "wc (chunks, err) =
    (if err then None
     else let xs = concat chunks
       in Some (of_nat (length (filter (\<lambda>c. c = 10) xs)),
            of_nat (card {i. i < length xs \<and> \<not> wc_space (xs ! i) \<and> (i = 0 \<or> wc_space (xs ! (i - 1)))}),
            of_nat (length xs)))"
proof -
  have "fold (fold wc_byte) chunks s = fold wc_byte (concat chunks) s" for s by (induction chunks arbitrary: s) simp_all
  then show ?thesis by (simp add: wc_def wc_fold Let_def)
qed

end
