(* ===== verification/Spec2Isabelle.thy ===== *)
theory Spec2Isabelle
  imports XvSystem XvCrash XvSpinlock XvShRun XvGrep XvUmalloc XvMkfsMain XvUlib
begin

text \<open>
  Verification of a teaching kernel for RISC-V derived from xv6, with reference-counted pages, semaphores
  and shared memory, and of some of its user programs. The sources are kernel/, user/ and mkfs/ under src/.

  \<^bold>\<open>Method.\<close> Each C function is a HOL function of the same name over an explicit state. A routine that can fail
  returns \<open>'a res\<close>: \<open>Ok\<close> with the result, \<open>Panic\<close> with the message of \<open>panic\<close>, \<open>Block\<close> when it would sleep or
  spin, \<open>Diverge\<close> when it does not return. The state is a chain of extensible records, one link per
  component, and the operations of a component are polymorphic in the links after it:
  \<open>kmem_state\<close> (physical memory, free list, reference counts), \<open>proc_state\<close> (process table), \<open>pipe_state\<close>,
  \<open>uart_state\<close>, \<open>cons_state\<close>, \<open>ipc_state\<close> (sleep locks, semaphores, shared page), \<open>bio_state\<close> (buffers,
  disk), \<open>log_state\<close>, \<open>fs_state\<close> (superblock, inode table), \<open>file_state\<close>, \<open>sys_state\<close> (ticks), \<open>exec_state\<close>,
  \<open>virtio_state\<close> (rings of the disk driver), \<open>trap_state\<close> (control registers). Machine integers are words of
  their width wherever they can wrap. A region guarded by a spin lock is one atomic step; the lock itself is
  verified under interleaving in XvSpinlock. A routine that sleeps and is resumed returns \<open>Done\<close> or \<open>Asleep\<close>
  with what it keeps, together with the state, so that its partial effects are not lost.

  \<^bold>\<open>Theories.\<close>
  \<^item> XvPrelude: words, the outcome monad, page arithmetic and page-table entries (kernel/riscv.h, memlayout.h).
  \<^item> XvString: kernel/string.c, with closed forms of the loops.
  \<^item> XvContracts: the interfaces as locales. \<open>allocator\<close> is interpreted by XvKalloc and XvVirtio, \<open>fifo\<close> by the ring buffers
    of XvPipe, XvUart and XvConsole, \<open>inv_system\<close> by the step relations of XvSpinlock, XvIpc and XvSystem.
  \<^item> XvKalloc: kernel/kalloc.c. The free list is threaded through the free pages. Shown: \<open>kinit\<close> frees all
    pages, \<open>kalloc\<close> and \<open>kfree\<close> keep the invariant and touch only the page they handle, allocated pages are
    distinct, and a double \<open>kfree\<close> is not detected.
  \<^item> XvVm, XvPtree, XvUvm: kernel/vm.c. XvPtree relates the three-level table in memory to a map from virtual
    addresses to entries; XvUvm shows that \<open>mappages\<close>, \<open>uvmunmap\<close> and \<open>uvmalloc\<close> change exactly the given range and
    that \<open>uvmalloc\<close> gives everything back when memory runs out. The recursion of \<open>freewalk\<close> is bounded by the
    three levels of the table.
  \<^item> XvProc: the process table of kernel/proc.c. Shown: what \<open>wait\<close> reaps, and that \<open>kill(0)\<close> marks an unused slot.
  \<^item> XvPipe, XvUart, XvPrintf, XvConsole: kernel/pipe.c, uart.c, printf.c, console.c and user/printf.c. Shown: the
    three ring buffers are bounded queues under wrap-around of their counters, no byte is lost or reordered,
    the console implements a line discipline, printed numbers read back, and the two format loops agree. The
    UART is a parameter: what successive reads of its registers return.
  \<^item> XvSpinlock, XvIpc: kernel/spinlock.c, sleeplock.c, sem.c, shm.c. Shown: mutual exclusion, counting without lost
    wakeups, and that a second \<open>shm_get\<close> panics.
  \<^item> XvBio, XvLog, XvFs, XvFile: kernel/bio.c, log.c, fs.c, file.c. Shown: the buffer cache is a store of blocks that
    evicts only clean buffers, log absorption and pinning, round trips of the log header and of inodes, and
    the splitting of paths. The disk is a map from block numbers to contents.
  \<^item> XvLogSteps, XvCrash: what each step of the log does to the disk. Shown: \<open>commit\<close> cut after any of its disk writes
    and followed by recovery installs the whole transaction or nothing of it, and a transaction that fills the
    log panics. A write of one block is atomic.
  \<^item> XvSys: \<open>userinit\<close>, \<open>fork\<close> and \<open>exit\<close> of kernel/proc.c, the argument routines of kernel/syscall.c and all of
    kernel/sysproc.c. Shown: the one slot that \<open>fork\<close> changes and what it holds.
  \<^item> XvSysfile, XvExec: kernel/sysfile.c, exec.c and \<open>syscall\<close> of syscall.c.
  \<^item> XvFrame, XvFrameSys: the routines below the system calls leave the descriptor tables and the current process alone.
    XvRefs, XvDescr, XvKernel: what each system call does to the counts of open files.
  \<^item> XvVirtio: kernel/virtio_disk.c. Shown: the driver, with a device that follows the virtio specification, implements
    the block transfer that XvBio uses. The device is a parameter.
  \<^item> XvTrap: kernel/trap.c, plic.c and \<open>forkret\<close>, with the control registers as fields of the state. Shown: the
    state in which \<open>usertrap\<close> returns to user space.
  \<^item> XvSystem: the kernel as a transition system driven by traps. Shown: in every reachable state the count of a
    file is the number of its descriptors. A system call that sleeps has no step there.
  \<^item> XvUmalloc: user/umalloc.c. Shown: \<open>malloc\<close> and \<open>free\<close> keep the circular list of free blocks sorted and disjoint from
    the blocks in use, their searches end, and a request near 4 GB gets a block that was never obtained.
  \<^item> XvUlib: user/ulib.c and the loops of wc, cat, echo and ls. Shown: \<open>strcmp\<close> and \<open>memmove\<close> agree with the kernel's
    routines, \<open>atoi\<close> reads what \<open>printf\<close> prints, \<open>wc\<close> does not depend on how the input is cut up.
  \<^item> XvMkfs, XvMkfsMain: mkfs/mkfs.c, with the failures of the host and its files as parameters. Shown: \<open>iappend\<close> appends to
    one file, leaves the others as they were and keeps every block of the image in at most one place; the whole program
    puts the files of the host on the image and marks the blocks in use in the bitmap.
  \<^item> XvShRun: \<open>runcmd\<close> and \<open>main\<close> of user/sh.c as trees of system calls, run with any call failing or not. Shown: the
    programs started for a line are those the parsed command asks for, connected by the same pipes and with no other
    descriptor left open. The loop that opens descriptors is cut after seventeen rounds, one more than a process can open.
  \<^item> XvSh, XvGrep: the parser of user/sh.c and user/grep.c. Shown: the parser terminates within its bound, four
    times the length of the line plus eight nested calls, its words survive NUL termination; the matcher
    decides the meaning of patterns, and grep does not depend on how the input is cut up.

  \<^bold>\<open>Not modelled.\<close> Assembly (entry, trap vectors, trampoline, context switch), the machine-mode setup of start.c, and
  \<open>sched\<close>, which switches stacks; \<open>kvminit\<close> and \<open>kvminithart\<close>, which load a register; the utilities
  that only issue system calls one after the other; the test programs.
\<close>

end
